(* ===== verification/Prelude.thy ===== *)
theory Prelude
  imports Main "HOL-Library.Word" "HOL-Library.Signed_Division"
begin

text \<open>
  Shared material of the mini\_muduo development: the fault values by which the model makes
  every \<open>assert\<close>, \<open>abort()\<close> and \<open>throw\<close> of the C++ sources a value, the sequencing
  combinator of fallible operations, the C++ integer conversions the sources rely on, block
  writes into byte arrays (\<open>std::copy\<close>, \<open>memcpy\<close>), and the lemma collections the
  component theories extend.
\<close>

section \<open>Lemma collections\<close>

named_theorems inv_intros \<open>operations keep their component's invariant\<close>
named_theorems abs_simps \<open>the effect of an operation under the abstraction function\<close>
named_theorems frame_simps \<open>fields an operation leaves alone\<close>

section \<open>Faults\<close>

text \<open>
  What ends a C++ operation other than returning: a failed \<open>assert\<close>, an \<open>abort()\<close>, a
  thrown exception with its message, a signal that kills the process, and the undefined behaviours
  the sources can run into (a vector indexed out of range, an integer division by zero, a use of a
  deleted object).
\<close>

datatype fault =
    AssertFailed
  | Aborted
  | Thrown string
  | SystemError int string
  | OutOfRange
  | DivisionByZero
  | Killed
  | UseAfterFree

type_synonym 'a res = "fault + 'a"

definition bindE :: "'a res \<Rightarrow> ('a \<Rightarrow> 'b res) \<Rightarrow> 'b res" where
  "bindE m f = (case m of Inl e \<Rightarrow> Inl e | Inr x \<Rightarrow> f x)"

definition assertE :: "bool \<Rightarrow> unit res" where
  "assertE b = (if b then Inr () else Inl AssertFailed)"

lemma bindE_simps [simp]: "bindE (Inl e) f = Inl e" "bindE (Inr x) f = f x"
  by (simp_all add: bindE_def)

lemma bindE_Inr_iff: "bindE m f = Inr y \<longleftrightarrow> (\<exists>x. m = Inr x \<and> f x = Inr y)"
  by (cases m) auto

lemma bindE_assoc: "bindE (bindE m f) g = bindE m (\<lambda>x. bindE (f x) g)"
  by (cases m) auto

lemma assertE_simps [simp]: "assertE True = Inr ()" "assertE False = Inl AssertFailed"
  by (simp_all add: assertE_def)

lemma assertE_Inr_iff [simp]: "assertE b = Inr u \<longleftrightarrow> b"
  by (simp add: assertE_def)

lemma bindE_assertE: "bindE (assertE b) f = (if b then f () else Inl AssertFailed)"
  by (simp add: assertE_def)

section \<open>C++ integers\<close>

text \<open>
  Sizes (\<open>size_t\<close>) are natural numbers below $2^{64}$; the two places where the sources rely
  on the width are written out: subtraction wraps, and the cast of a negative \<open>ssize_t\<close>
  is a huge \<open>size_t\<close>.
\<close>

definition size_sub :: "nat \<Rightarrow> nat \<Rightarrow> nat" where
  "size_sub a b = (if b \<le> a then a - b else a + 2 ^ 64 - b)"

definition size_of_ssize :: "int \<Rightarrow> nat" where
  "size_of_ssize n = nat (n mod 2 ^ 64)"

lemma size_sub_le [simp]: "b \<le> a \<Longrightarrow> size_sub a b = a - b"
  by (simp add: size_sub_def)

lemma size_of_ssize_nonneg: "0 \<le> n \<Longrightarrow> n < 2 ^ 63 \<Longrightarrow> size_of_ssize n = nat n"
  by (simp add: size_of_ssize_def)

lemma size_of_ssize_int: "n < 2 ^ 63 \<Longrightarrow> size_of_ssize (int n) = n"
  by (simp add: size_of_ssize_def)

lemma size_of_ssize_neg:
  assumes "- (2 ^ 63) \<le> n" and "n < 0"
  shows "size_of_ssize n = nat (n + 2 ^ 64)"
proof -
  have "n mod 2 ^ 64 = (n + 2 ^ 64) mod 2 ^ 64" by simp
  also have "\<dots> = n + 2 ^ 64" using assms by (intro mod_pos_pos_trivial) simp_all
  finally show ?thesis by (simp only: size_of_ssize_def)
qed

lemma size_of_ssize_minus_one: "size_of_ssize (- 1) = 2 ^ 64 - 1"
  by (simp add: size_of_ssize_def)

section \<open>Block writes\<close>

text \<open>Overwrite the cells of an array from index \<open>i\<close> on, as \<open>std::copy\<close> and \<open>memcpy\<close> do.\<close>

definition overwrite :: "nat \<Rightarrow> 'a list \<Rightarrow> 'a list \<Rightarrow> 'a list" where
  "overwrite i xs ys = take i xs @ ys @ drop (i + length ys) xs"

lemma length_overwrite [simp]: "i + length ys \<le> length xs \<Longrightarrow> length (overwrite i xs ys) = length xs"
  by (simp add: overwrite_def)

lemma overwrite_Nil [simp]: "overwrite i xs [] = xs"
  by (simp add: overwrite_def)

lemma take_overwrite [simp]: "i \<le> length xs \<Longrightarrow> take i (overwrite i xs ys) = take i xs"
  by (simp add: overwrite_def)

lemma take_overwrite_before: "j \<le> i \<Longrightarrow> i \<le> length xs \<Longrightarrow> take j (overwrite i xs ys) = take j xs"
  by (simp add: overwrite_def min_absorb1)

lemma take_overwrite_through:
  "i \<le> length xs \<Longrightarrow> take (i + length ys) (overwrite i xs ys) = take i xs @ ys"
  by (simp add: overwrite_def)

text \<open>The segment \<open>[i, j)\<close> of an array.\<close>

definition segment :: "nat \<Rightarrow> nat \<Rightarrow> 'a list \<Rightarrow> 'a list" where
  "segment i j xs = drop i (take j xs)"

lemma length_segment [simp]: "j \<le> length xs \<Longrightarrow> length (segment i j xs) = j - i"
  by (simp add: segment_def)

lemma segment_empty [simp]: "j \<le> i \<Longrightarrow> segment i j xs = []"
  by (simp add: segment_def)

lemma segment_overwrite:
  "i \<le> j \<Longrightarrow> j \<le> length xs \<Longrightarrow>
   segment i (j + length ys) (overwrite j xs ys) = segment i j xs @ ys"
  by (simp add: segment_def take_overwrite_through)

lemma segment_append_right: "j \<le> length xs \<Longrightarrow> segment i j (xs @ ys) = segment i j xs"
  by (simp add: segment_def)

lemma segment_overwrite_before:
  "j \<le> k \<Longrightarrow> k \<le> length xs \<Longrightarrow> segment i j (overwrite k xs ys) = segment i j xs"
  by (simp add: segment_def take_overwrite_before)

lemma take_segment: "take n (segment i j xs) = segment i (min j (i + n)) xs"
  by (simp add: segment_def take_drop min.commute add.commute)

lemma drop_segment: "drop n (segment i j xs) = segment (i + n) j xs"
  by (simp add: segment_def add.commute)

end
