(* ===== verification/Decimal.thy ===== *)
theory Decimal
  imports Prelude
begin

text \<open>
  Decimal and hexadecimal text of integers, as the C++ library prints them
  (\<open>std::to_string\<close>, \<open>snprintf\<close> with \<open>%d\<close> and zero padding), with the readers that
  invert them. The components that print numbers are compared with these functions.
\<close>

definition digit :: "nat \<Rightarrow> char" where
  "digit d = char_of (48 + d)"

definition digit_val :: "char \<Rightarrow> nat" where
  "digit_val c = of_char c - 48"

fun show_nat :: "nat \<Rightarrow> string" where
  "show_nat n = (if n < 10 then [digit n] else show_nat (n div 10) @ [digit (n mod 10)])"

declare show_nat.simps [simp del]

definition show_int :: "int \<Rightarrow> string" where
  "show_int i = (if i < 0 then CHR ''-'' # show_nat (nat (- i)) else show_nat (nat i))"

definition read_nat :: "string \<Rightarrow> nat" where
  "read_nat s = foldl (\<lambda>a c. 10 * a + digit_val c) 0 s"

definition read_int :: "string \<Rightarrow> int" where
  "read_int s = (case s of c # cs \<Rightarrow> if c = CHR ''-'' then - int (read_nat cs) else int (read_nat s)
                 | [] \<Rightarrow> 0)"

text \<open>\<open>printf\<close>'s \<open>%0wd\<close>: pad with zeros, after the sign, to \<open>w\<close> characters.\<close>

definition zero_pad :: "nat \<Rightarrow> int \<Rightarrow> string" where
  "zero_pad w i =
     (if i < 0 then CHR ''-'' # replicate (w - 1 - length (show_nat (nat (- i)))) (CHR ''0'')
                      @ show_nat (nat (- i))
      else replicate (w - length (show_nat (nat i))) (CHR ''0'') @ show_nat (nat i))"

lemma digit_val_digit [simp]: "d < 10 \<Longrightarrow> digit_val (digit d) = d"
  by (simp add: digit_val_def digit_def of_char_of)

lemma digit_inj: "d < 10 \<Longrightarrow> e < 10 \<Longrightarrow> digit d = digit e \<longleftrightarrow> d = e"
  by (metis digit_val_digit)

lemma digit_neq_minus: "d < 10 \<Longrightarrow> digit d \<noteq> CHR ''-''"
proof
  assume "d < 10" and "digit d = CHR ''-''"
  then have "of_char (digit d) = (45 :: nat)" by simp
  with \<open>d < 10\<close> show False by (simp add: digit_def of_char_of)
qed

lemma digit_0: "digit 0 = CHR ''0''"
  by (simp add: digit_def char_of_def bit_iff_odd)

lemma show_nat_nonempty [simp]: "show_nat n \<noteq> []"
  by (subst show_nat.simps) simp

lemma set_show_nat: "c \<in> set (show_nat n) \<Longrightarrow> \<exists>d < 10. c = digit d"
proof (induction n rule: show_nat.induct)
  case (1 n)
  then show ?case
    by (cases "n < 10") (auto simp: show_nat.simps [of n] intro: exI [of _ "n mod 10"])
qed

lemma digit_chars: "d < 10 \<Longrightarrow> digit d \<in> set ''0123456789''"
proof -
  assume "d < 10"
  then have "d \<in> set [0..<10]" by simp
  moreover have "\<forall>e \<in> set [0..<10]. digit e \<in> set ''0123456789''" by code_simp
  ultimately show ?thesis by blast
qed

lemma set_show_nat_digits: "set (show_nat n) \<subseteq> set ''0123456789''"
  using set_show_nat digit_chars by blast

lemma minus_notin_show_nat: "CHR ''-'' \<notin> set (show_nat n)"
  using set_show_nat digit_neq_minus by metis

lemma read_nat_append_digit: "read_nat (s @ [c]) = 10 * read_nat s + digit_val c"
  by (simp add: read_nat_def)

lemma read_show_nat [simp]: "read_nat (show_nat n) = n"
proof (induction n rule: show_nat.induct)
  case (1 n)
  show ?case
  proof (cases "n < 10")
    case True
    then show ?thesis by (simp add: show_nat.simps [of n]) (simp add: read_nat_def)
  next
    case False
    with 1 show ?thesis by (simp add: show_nat.simps [of n] read_nat_append_digit)
  qed
qed

lemma show_nat_inj: "show_nat m = show_nat n \<longleftrightarrow> m = n"
  by (metis read_show_nat)

lemma read_show_int [simp]: "read_int (show_int i) = i"
proof (cases "i < 0")
  case True
  then show ?thesis by (simp add: read_int_def show_int_def)
next
  case False
  obtain c cs where s: "show_nat (nat i) = c # cs"
    by (cases "show_nat (nat i)") auto
  then have "c \<noteq> CHR ''-''"
    using minus_notin_show_nat [of "nat i"] by auto
  with False s read_show_nat [of "nat i"] show ?thesis
    by (simp add: read_int_def show_int_def)
qed

lemma show_int_inj: "show_int i = show_int j \<longleftrightarrow> i = j"
  by (metis read_show_int)

lemma read_nat_zeros: "read_nat (replicate k (CHR ''0'') @ s) = read_nat s"
  by (induction k) (simp_all add: read_nat_def digit_val_def)

lemma length_show_nat_le: "0 < k \<Longrightarrow> n < 10 ^ k \<Longrightarrow> length (show_nat n) \<le> k"
proof (induction n arbitrary: k rule: show_nat.induct)
  case (1 n)
  show ?case
  proof (cases "n < 10")
    case True
    with 1 show ?thesis by (simp add: show_nat.simps [of n])
  next
    case False
    then obtain j where k: "k = Suc j" "0 < j"
      using 1(2,3) by (cases k; cases "k - 1") auto
    with 1(3) have "n div 10 < 10 ^ j"
      by (simp add: less_mult_imp_div_less mult.commute)
    with 1(1) [OF False k(2)] False k show ?thesis by (simp add: show_nat.simps [of n])
  qed
qed

lemma length_show_nat_gt: "10 ^ k \<le> n \<Longrightarrow> k < length (show_nat n)"
proof (induction k arbitrary: n)
  case 0
  then show ?case by simp
next
  case (Suc k)
  have "1 \<le> (10 :: nat) ^ k" by simp
  with Suc.prems have "\<not> n < 10" unfolding power_Suc by linarith
  moreover have "10 ^ k \<le> n div 10"
    using Suc.prems by (simp add: less_eq_div_iff_mult_less_eq mult.commute)
  ultimately show ?case using Suc.IH by (simp add: show_nat.simps [of n])
qed

lemma length_show_int_le:
  assumes "0 < k" and "\<bar>i\<bar> < 10 ^ k"
  shows "length (show_int i) \<le> Suc k"
proof -
  have "nat \<bar>i\<bar> < 10 ^ k"
    using assms(2) by (metis abs_ge_zero nat_less_iff of_nat_numeral of_nat_power)
  with assms(1) have "length (show_nat (nat \<bar>i\<bar>)) \<le> k" by (rule length_show_nat_le)
  then show ?thesis by (auto simp: show_int_def abs_if split: if_splits)
qed

end
