(* ===== verification/Timestamps.thy ===== *)
theory Timestamps
  imports Decimal
begin

text \<open>
  Points in time (\<open>include/mini_muduo/base/Timestamp.h\<close>, \<open>src/base/Timestamp.cc\<close>): a
  64-bit count of microseconds (an integer here: an addition that leaves the range of \<open>int64_t\<close> is
  undefined in C++ and outside the model), ordered by it, with the conversion of a \<open>double\<close> number of
  seconds that \<open>AddTime\<close> performs. \<open>Timestamp::Now()\<close> reads the wall clock and is an
  argument of the operations that call it.
\<close>

section \<open>Doubles\<close>

text \<open>
  A finite \<open>double\<close> is \<open>mant * 2^expo\<close>. A product of doubles is the exact product rounded to
  53 significant bits, ties to even; the cast to \<open>int64_t\<close> truncates towards zero. Overflow to
  infinity, subnormals and casts out of range are outside the model.
\<close>

record double =
  mant :: int
  expo :: int

fun bit_length :: "nat \<Rightarrow> nat" where
  "bit_length n = (if n = 0 then 0 else Suc (bit_length (n div 2)))"

declare bit_length.simps [simp del]

definition round53 :: "int \<Rightarrow> int \<Rightarrow> double" where
  "round53 m e =
     (let a = nat \<bar>m\<bar>; k = bit_length a - 53; q = a div 2 ^ k; r = a mod 2 ^ k;
          q' = (if k = 0 then q
                else if 2 ^ (k - 1) < r \<or> (r = 2 ^ (k - 1) \<and> odd q) then q + 1 else q)
      in \<lparr>mant = sgn m * int q', expo = e + int k\<rparr>)"

definition double_mult :: "double \<Rightarrow> double \<Rightarrow> double" where
  "double_mult x y = round53 (mant x * mant y) (expo x + expo y)"

definition double_to_int :: "double \<Rightarrow> int" where
  "double_to_int x =
     (if 0 \<le> expo x then mant x * 2 ^ nat (expo x) else mant x sdiv 2 ^ nat (- expo x))"

definition double_of_int :: "int \<Rightarrow> double" where
  "double_of_int i = \<lparr>mant = i, expo = 0\<rparr>"

definition double_pos :: "double \<Rightarrow> bool" where
  "double_pos x \<longleftrightarrow> 0 < mant x"

lemma bit_length_less: "n < 2 ^ bit_length n"
proof (induction n rule: bit_length.induct)
  case (1 n)
  then show ?case by (cases "n = 0") (auto simp: bit_length.simps [of n])
qed

lemma bit_length_le: "n < 2 ^ k \<Longrightarrow> bit_length n \<le> k"
proof (induction n arbitrary: k rule: bit_length.induct)
  case (1 n)
  show ?case
  proof (cases "n = 0")
    case True
    then show ?thesis by (simp add: bit_length.simps)
  next
    case False
    then obtain j where "k = Suc j" using 1(2) by (cases k) auto
    with 1 False show ?thesis by (auto simp: bit_length.simps [of n])
  qed
qed

text \<open>A product below $2^{53}$ in absolute value is not rounded.\<close>

lemma round53_exact: "\<bar>m\<bar> < 2 ^ 53 \<Longrightarrow> round53 m e = \<lparr>mant = m, expo = e\<rparr>"
  using bit_length_le [of "nat \<bar>m\<bar>" 53]
  by (simp add: round53_def Let_def nat_less_iff mult.commute [of "sgn m"] abs_mult_sgn)

section \<open>Timestamps\<close>

datatype Timestamp = Timestamp (micro_seconds_since_epoch: int)

text \<open>\<open>operator<\<close> and \<open>operator==\<close> make timestamps a linear order.\<close>

definition Timestamp_less :: "Timestamp \<Rightarrow> Timestamp \<Rightarrow> bool" where
  "Timestamp_less lhs rhs \<longleftrightarrow> micro_seconds_since_epoch lhs < micro_seconds_since_epoch rhs"

definition Timestamp_equal :: "Timestamp \<Rightarrow> Timestamp \<Rightarrow> bool" where
  "Timestamp_equal lhs rhs \<longleftrightarrow> micro_seconds_since_epoch lhs = micro_seconds_since_epoch rhs"

lemma Timestamp_neq_less:
  "lhs \<noteq> rhs \<longleftrightarrow> Timestamp_less lhs rhs \<or> Timestamp_less rhs lhs"
  by (cases lhs; cases rhs) (auto simp: Timestamp_less_def)

lemma Timestamp_equal_iff [simp]: "Timestamp_equal lhs rhs \<longleftrightarrow> lhs = rhs"
  by (auto simp: Timestamp_equal_def Timestamp.expand)

instantiation Timestamp :: linorder
begin

definition less_Timestamp :: "Timestamp \<Rightarrow> Timestamp \<Rightarrow> bool" where
  "less_Timestamp = Timestamp_less"

definition less_eq_Timestamp :: "Timestamp \<Rightarrow> Timestamp \<Rightarrow> bool" where
  "less_eq_Timestamp lhs rhs \<longleftrightarrow> Timestamp_less lhs rhs \<or> Timestamp_equal lhs rhs"

instance
proof
  fix x y :: Timestamp
  show "x \<le> y \<or> y \<le> x"
    using Timestamp_neq_less [of x y] by (auto simp: less_eq_Timestamp_def)
qed (auto simp: less_Timestamp_def less_eq_Timestamp_def Timestamp_less_def)

end

lemma Timestamp_less_iff:
  "(lhs :: Timestamp) < rhs \<longleftrightarrow> micro_seconds_since_epoch lhs < micro_seconds_since_epoch rhs"
  by (simp add: less_Timestamp_def Timestamp_less_def)

lemma Timestamp_le_iff:
  "(lhs :: Timestamp) \<le> rhs \<longleftrightarrow> micro_seconds_since_epoch lhs \<le> micro_seconds_since_epoch rhs"
  by (cases lhs; cases rhs) (auto simp: less_eq_Timestamp_def Timestamp_less_def)

lemmas Timestamp_order = Timestamp_less_iff Timestamp_le_iff

definition Invalid :: Timestamp where
  "Invalid = Timestamp (- 1)"

definition kMicroSecondsPerSecond :: int where
  "kMicroSecondsPerSecond = 1000 * 1000"

definition milli_seconds_since_epoch :: "Timestamp \<Rightarrow> int" where
  "milli_seconds_since_epoch t = micro_seconds_since_epoch t sdiv 1000"

definition second_since_epoch :: "Timestamp \<Rightarrow> int" where
  "second_since_epoch t = micro_seconds_since_epoch t sdiv kMicroSecondsPerSecond"

text \<open>\<open>Timestamp::Now()\<close> from what \<open>gettimeofday\<close> stored.\<close>

definition Now :: "int \<Rightarrow> int \<Rightarrow> Timestamp" where
  "Now tv_sec tv_usec = Timestamp (tv_sec * 1000000 + tv_usec)"

definition AddTime :: "Timestamp \<Rightarrow> double \<Rightarrow> Timestamp" where
  "AddTime timestamp seconds =
     Timestamp (micro_seconds_since_epoch timestamp
       + double_to_int (double_mult seconds (double_of_int 1000000)))"

text \<open>\<open>snprintf\<close> into a 32-byte buffer keeps at most 31 characters.\<close>

definition ToString :: "Timestamp \<Rightarrow> string" where
  "ToString t =
     (let seconds = micro_seconds_since_epoch t sdiv kMicroSecondsPerSecond;
          microseconds = micro_seconds_since_epoch t smod kMicroSecondsPerSecond
      in take 31 (show_int seconds @ ''.'' @ zero_pad 6 microseconds))"

lemma sdiv_nonneg: "0 \<le> a \<Longrightarrow> 0 < b \<Longrightarrow> (a :: int) sdiv b = a div b"
  by (simp add: signed_divide_int_def sgn_if)

lemma smod_nonneg: "0 \<le> a \<Longrightarrow> 0 < b \<Longrightarrow> (a :: int) smod b = a mod b"
  by (cases "a = 0") (simp_all add: signed_modulo_int_def sdiv_nonneg minus_div_mult_eq_mod)

text \<open>Whole numbers of seconds are added exactly, up to $2^{53}$ microseconds.\<close>

lemma AddTime_whole:
  assumes "\<bar>s\<bar> * 1000000 < 2 ^ 53"
  shows "AddTime (Timestamp t) (double_of_int s) = Timestamp (t + s * 1000000)"
proof -
  have "\<bar>s * 1000000\<bar> < 2 ^ 53" using assms by (simp add: abs_mult)
  then have "round53 (s * 1000000) 0 = \<lparr>mant = s * 1000000, expo = 0\<rparr>"
    by (rule round53_exact)
  then show ?thesis
    by (simp add: AddTime_def double_of_int_def double_mult_def double_to_int_def)
qed

text \<open>Adding a positive interval never goes back in time.\<close>

lemma round53_nonneg: "0 \<le> m \<Longrightarrow> 0 \<le> mant (round53 m e)"
  by (simp add: round53_def Let_def sgn_if)

lemma AddTime_mono:
  assumes "double_pos d"
  shows "t \<le> AddTime t d"
proof -
  have "0 \<le> mant (double_mult d (double_of_int 1000000))"
    using assms by (simp add: double_mult_def double_of_int_def double_pos_def round53_nonneg)
  then have "0 \<le> double_to_int (double_mult d (double_of_int 1000000))"
    by (simp add: double_to_int_def sdiv_nonneg div_int_pos_iff)
  then show ?thesis by (simp add: AddTime_def Timestamp_le_iff)
qed

section \<open>Properties\<close>

text \<open>
  Property C35. \<open>ToString\<close> of a non-negative 64-bit timestamp is not truncated and reads back: it is
  the decimal numeral of the whole seconds, a dot and exactly six decimal digits, and seconds times
  a million plus the six digits is the timestamp.
\<close>

theorem ToString_roundtrip:
  assumes "0 \<le> us" and "us < 2 ^ 63"
  shows "\<exists>m. ToString (Timestamp us) = show_int (us div 1000000) @ ''.'' @ m
    \<and> length m = 6 \<and> set m \<subseteq> set ''0123456789'' \<and> CHR ''.'' \<notin> set (show_int (us div 1000000))
    \<and> read_int (show_int (us div 1000000)) * 1000000 + int (read_nat m) = us"
proof -
  let ?s = "show_int (us div 1000000)" and ?r = "us mod 1000000"
  let ?m = "zero_pad 6 ?r"
  have r0: "\<not> ?r < 0" by simp
  have lm: "length (show_nat (nat ?r)) \<le> 6"
    by (rule length_show_nat_le) (simp_all add: nat_less_iff)
  then have l6: "length ?m = 6" using r0 by (simp only: zero_pad_def if_False) simp
  have dg: "set ?m \<subseteq> set ''0123456789''" using set_show_nat_digits [of "nat ?r"] r0 by (auto simp: zero_pad_def)
  have "0 \<le> us div 1000000" and "us div 1000000 < 10 ^ 13"
    using assms by (simp_all add: div_int_pos_iff)
  then have "length ?s \<le> Suc 13"
    by (intro length_show_int_le) simp_all
  with l6 have tk: "take 31 (?s @ ''.'' @ ?m) = ?s @ ''.'' @ ?m" by simp
  have nd: "CHR ''.'' \<notin> set ?s" using set_show_nat_digits assms by (auto simp: show_int_def div_int_pos_iff)
  have "int (read_nat ?m) = ?r" using r0 by (simp only: zero_pad_def if_False) (simp add: read_nat_zeros)
  then have "read_int ?s * 1000000 + int (read_nat ?m) = us" by simp
  moreover have "ToString (Timestamp us) = ?s @ ''.'' @ ?m"
    using assms tk
    by (simp add: ToString_def Let_def kMicroSecondsPerSecond_def sdiv_nonneg smod_nonneg)
  ultimately show ?thesis using nd l6 dg by blast
qed

theorem ToString_roundtrip_witness:
  "\<exists>m. ToString (Timestamp 1700000000000042) = show_int 1700000000 @ ''.'' @ m
    \<and> length m = 6 \<and> set m \<subseteq> set ''0123456789'' \<and> CHR ''.'' \<notin> set (show_int 1700000000)
    \<and> read_int (show_int 1700000000) * 1000000 + int (read_nat m) = 1700000000000042"
  using ToString_roundtrip [of 1700000000000042] by simp

text \<open>
  Remark. A negative timestamp does not read back: the truncated quotient loses the sign of the
  seconds and the remainder carries one, so that \<open>Invalid()\<close> prints as zero seconds and a signed
  fraction.
\<close>

theorem ToString_Invalid: "ToString Invalid = ''0.-00001''"
  by code_simp

end
