(* ===== verification/LogStream.thy ===== *)
theory LogStream
  imports Timestamps
begin

text \<open>
  The formatting stream of the logger (\<open>include/mini_muduo/base/LogStream.h\<close>,
  \<open>src/base/LogStream.cc\<close>): a fixed buffer of 4000 bytes with a cursor, the integer and
  pointer conversions, and one definition per \<open>operator<<\<close>. A write outside the buffer's
  memory is the fault \<open>OutOfRange\<close>.
\<close>

section \<open>FixedBuffer\<close>

text \<open>\<open>fb_cur\<close> is the distance \<open>cur_ - data_\<close>; nothing stops \<open>add\<close> from moving it past the end.\<close>

record fixed_buffer =
  fb_data :: "char list"
  fb_cur :: nat

definition kSmallBuffer :: nat where
  "kSmallBuffer = 4000"

definition fb_avail :: "fixed_buffer \<Rightarrow> int" where
  "fb_avail fb = int (length (fb_data fb)) - int (fb_cur fb)"

text \<open>A store of a block at an offset of the array.\<close>

definition fb_store :: "nat \<Rightarrow> char list \<Rightarrow> fixed_buffer \<Rightarrow> fixed_buffer res" where
  "fb_store i bs fb =
     (if i + length bs \<le> length (fb_data fb)
      then Inr (fb\<lparr>fb_data := overwrite i (fb_data fb) bs\<rparr>) else Inl OutOfRange)"

definition fb_add :: "nat \<Rightarrow> fixed_buffer \<Rightarrow> fixed_buffer" where
  "fb_add len fb = fb\<lparr>fb_cur := fb_cur fb + len\<rparr>"

definition fb_append :: "char list \<Rightarrow> fixed_buffer \<Rightarrow> fixed_buffer res" where
  "fb_append buf fb =
     bindE (assertE (length buf \<le> size_of_ssize (fb_avail fb)))
       (\<lambda>_. if length buf \<le> size_of_ssize (fb_avail fb)
            then bindE (fb_store (fb_cur fb) buf fb) (\<lambda>fb'. Inr (fb_add (length buf) fb'))
            else Inr fb)"

definition fb_reset :: "fixed_buffer \<Rightarrow> fixed_buffer" where
  "fb_reset fb = fb\<lparr>fb_cur := 0\<rparr>"

definition fb_bzero :: "fixed_buffer \<Rightarrow> fixed_buffer" where
  "fb_bzero fb = fb\<lparr>fb_data := replicate (length (fb_data fb)) (CHR 0x00)\<rparr>"

text \<open>The text written so far, \<open>data()\<close> up to \<open>length()\<close>.\<close>

definition fb_text :: "fixed_buffer \<Rightarrow> char list" where
  "fb_text fb = take (fb_cur fb) (fb_data fb)"

definition fb_inv :: "fixed_buffer \<Rightarrow> bool" where
  "fb_inv fb \<longleftrightarrow> fb_cur fb \<le> length (fb_data fb) \<and> length (fb_data fb) < 2 ^ 31"

section \<open>Number conversion\<close>

text \<open>
  \<open>convert\<close> indexes a table centred at zero with the remainder, which C++ gives the sign of the
  dividend, so that the most negative value needs no negation.
\<close>

definition digits_table :: string where
  "digits_table = ''9876543210123456789''"

definition digitsHex :: string where
  "digitsHex = ''0123456789ABCDEF''"

definition zero_at :: "int \<Rightarrow> char" where
  "zero_at lsd = digits_table ! nat (9 + lsd)"

function convert_loop :: "int \<Rightarrow> char list" where
  "convert_loop i =
     (let lsd = i smod 10; i' = i sdiv 10
      in zero_at lsd # (if i' \<noteq> 0 then convert_loop i' else []))"
  by pat_completeness auto
termination
proof (relation "measure (\<lambda>i. nat \<bar>i\<bar>)", goal_cases)
  case 1
  show ?case by simp
next
  case (2 i lsd i')
  then have i0: "i \<noteq> 0" by auto
  have "\<bar>i sdiv 10\<bar> = \<bar>i\<bar> div 10"
    using i0 by (simp add: signed_divide_int_def abs_mult abs_sgn_eq)
  with i0 2 show ?case by (simp add: nat_less_iff)
qed

declare convert_loop.simps [simp del]

definition convert :: "int \<Rightarrow> char list" where
  "convert value = rev (convert_loop value @ (if value < 0 then ''-'' else []))"

fun convertHex_loop :: "nat \<Rightarrow> char list" where
  "convertHex_loop i =
     (let lsd = i mod 16; i' = i div 16
      in digitsHex ! lsd # (if i' \<noteq> 0 then convertHex_loop i' else []))"

declare convertHex_loop.simps [simp del]

text \<open>What \<open>convertHex\<close> stores: the digits and a terminating zero byte; it returns the digits' length.\<close>

definition convertHex :: "nat \<Rightarrow> char list" where
  "convertHex value = rev (convertHex_loop value)"

text \<open>
  \<open>snprintf\<close> with \<open>%.12f\<close>: the exact value rounded to twelve decimals, ties to even.
\<close>

definition round_half_even_div :: "nat \<Rightarrow> nat \<Rightarrow> nat" where
  "round_half_even_div a b =
     (let q = a div b; r = a mod b
      in if b < 2 * r \<or> (b = 2 * r \<and> odd q) then q + 1 else q)"

definition show_fixed12 :: "double \<Rightarrow> string" where
  "show_fixed12 d =
     (let n = nat \<bar>mant d\<bar> * 10 ^ 12;
          u = (if 0 \<le> expo d then n * 2 ^ nat (expo d) else round_half_even_div n (2 ^ nat (- expo d)))
      in (if mant d < 0 then ''-'' else []) @ show_nat (u div 10 ^ 12) @ ''.''
           @ zero_pad 12 (int (u mod 10 ^ 12)))"

section \<open>The stream operators\<close>

definition kMaxNumericSize :: nat where
  "kMaxNumericSize = 48"

definition FormatInteger :: "int \<Rightarrow> fixed_buffer \<Rightarrow> fixed_buffer res" where
  "FormatInteger value fb =
     bindE (assertE (\<not> fb_avail fb < int kMaxNumericSize))
       (\<lambda>_. let s = convert value
            in bindE (fb_store (fb_cur fb) s fb) (\<lambda>fb'. Inr (fb_add (length s) fb')))"

text \<open>The same in a build with \<open>NDEBUG\<close>, where the assertion is compiled out.\<close>

definition FormatInteger_ndebug :: "int \<Rightarrow> fixed_buffer \<Rightarrow> fixed_buffer res" where
  "FormatInteger_ndebug value fb =
     (let s = convert value in bindE (fb_store (fb_cur fb) s fb) (\<lambda>fb'. Inr (fb_add (length s) fb')))"

definition put_char :: "char \<Rightarrow> fixed_buffer \<Rightarrow> fixed_buffer res" where
  "put_char c fb = fb_append [c] fb"

text \<open>A \<open>const char*\<close> may be null.\<close>

definition put_cstr :: "string option \<Rightarrow> fixed_buffer \<Rightarrow> fixed_buffer res" where
  "put_cstr str fb = (case str of Some s \<Rightarrow> fb_append s fb | None \<Rightarrow> Inr fb)"

definition put_int :: "int \<Rightarrow> fixed_buffer \<Rightarrow> fixed_buffer res" where
  "put_int value fb = FormatInteger value fb"

definition put_double :: "double \<Rightarrow> fixed_buffer \<Rightarrow> fixed_buffer res" where
  "put_double value fb =
     bindE (assertE (\<not> fb_avail fb < int kMaxNumericSize))
       (\<lambda>_. let s = show_fixed12 value
            in bindE (fb_store (fb_cur fb) (take (kMaxNumericSize - 1) s @ [CHR 0x00]) fb)
                 (\<lambda>fb'. Inr (fb_add (length s) fb')))"

definition put_string :: "string \<Rightarrow> fixed_buffer \<Rightarrow> fixed_buffer res" where
  "put_string str fb = (if str \<noteq> [] then fb_append str fb else Inr fb)"

definition put_buffer :: "fixed_buffer \<Rightarrow> fixed_buffer \<Rightarrow> fixed_buffer res" where
  "put_buffer buf fb = (if fb_cur buf \<noteq> 0 then fb_append (fb_text buf) fb else Inr fb)"

definition put_pointer :: "nat \<Rightarrow> fixed_buffer \<Rightarrow> fixed_buffer res" where
  "put_pointer v fb =
     (if fb_avail fb \<ge> int kMaxNumericSize
      then bindE (fb_store (fb_cur fb) ''0x'' fb)
             (\<lambda>fb1. bindE (fb_store (fb_cur fb + 2) (convertHex v @ [CHR 0x00]) fb1)
               (\<lambda>fb2. Inr (fb_add (length (convertHex v) + 2) fb2)))
      else Inr fb)"

section \<open>Correctness of the conversions\<close>

lemma zero_at_digit:
  assumes "\<bar>lsd\<bar> < 10"
  shows "zero_at lsd = digit (nat \<bar>lsd\<bar>)"
proof -
  have "lsd \<in> set [-9..9]" using assms by auto
  moreover have "\<forall>l \<in> set [-9..9]. zero_at l = digit (nat \<bar>l\<bar>)"
    by code_simp
  ultimately show ?thesis by blast
qed

lemma abs_sdiv_10: "\<bar>i sdiv 10\<bar> = \<bar>i\<bar> div (10 :: int)"
  by (cases "i = 0") (simp_all add: signed_divide_int_def abs_mult abs_sgn_eq)

lemma abs_smod_10: "\<bar>i smod 10\<bar> = \<bar>i\<bar> mod (10 :: int)"
proof -
  have "i smod 10 = sgn i * (\<bar>i\<bar> mod 10)"
    by (cases "i = 0") (auto simp: signed_modulo_int_def signed_divide_int_def minus_div_mult_eq_mod [symmetric]
        sgn_if abs_if)
  then show ?thesis by (cases "i = 0") (simp_all add: abs_mult abs_sgn_eq)
qed

lemma convert_loop_digits: "convert_loop i = rev (show_nat (nat \<bar>i\<bar>))"
proof (induction i rule: convert_loop.induct)
  case (1 i)
  have z: "zero_at (i smod 10) = digit (nat \<bar>i\<bar> mod 10)"
    by (simp add: zero_at_digit abs_smod_10 nat_mod_distrib)
  have d: "nat \<bar>i sdiv 10\<bar> = nat \<bar>i\<bar> div 10"
    by (simp add: abs_sdiv_10 nat_div_distrib)
  show ?case
  proof (cases "i sdiv 10 = 0")
    case True
    with d have "nat \<bar>i\<bar> < 10" by (simp add: div_eq_0_iff)
    with z True show ?thesis
      by (simp add: convert_loop.simps [of i] show_nat.simps [of "nat \<bar>i\<bar>"])
  next
    case False
    then have "nat \<bar>i sdiv 10\<bar> \<noteq> 0" by simp
    with d have "\<not> nat \<bar>i\<bar> < 10" by auto
    with z d False 1 show ?thesis
      by (simp add: convert_loop.simps [of i] show_nat.simps [of "nat \<bar>i\<bar>"])
  qed
qed

lemma convert_show_int: "convert v = show_int v"
  by (simp add: convert_def show_int_def convert_loop_digits)

definition hex_val :: "char \<Rightarrow> nat" where
  "hex_val c = (if of_char c < (58 :: nat) then of_char c - 48 else of_char c - 55)"

definition read_hex :: "string \<Rightarrow> nat" where
  "read_hex s = foldl (\<lambda>a c. 16 * a + hex_val c) 0 s"

lemma hex_val_digitsHex: "d < 16 \<Longrightarrow> hex_val (digitsHex ! d) = d"
proof -
  assume "d < 16"
  then have "d \<in> set [0..<16]" by simp
  moreover have "\<forall>e \<in> set [0..<16]. hex_val (digitsHex ! e) = e" by code_simp
  ultimately show ?thesis by blast
qed

lemma read_hex_convertHex: "read_hex (convertHex v) = v"
  unfolding convertHex_def
proof (induction v rule: convertHex_loop.induct)
  case (1 i)
  have step: "read_hex (rev cs @ [c]) = 16 * read_hex (rev cs) + hex_val c" for cs c
    by (simp add: read_hex_def)
  show ?case
  proof (cases "i div 16 = 0")
    case True
    then have "i < 16" by (simp add: div_eq_0_iff)
    then show ?thesis
      by (simp add: convertHex_loop.simps [of i] read_hex_def hex_val_digitsHex)
  next
    case False
    with 1 show ?thesis
      by (simp add: convertHex_loop.simps [of i] step hex_val_digitsHex)
  qed
qed

lemma length_convertHex: "0 < k \<Longrightarrow> v < 16 ^ k \<Longrightarrow> length (convertHex v) \<le> k"
  unfolding convertHex_def length_rev
proof (induction v arbitrary: k rule: convertHex_loop.induct)
  case (1 i)
  show ?case
  proof (cases "i div 16 = 0")
    case True
    with 1 show ?thesis by (simp add: convertHex_loop.simps [of i])
  next
    case False
    then have "\<not> i < 16" by auto
    then obtain j where k: "k = Suc j" "0 < j"
      using 1(2,3) by (cases k; cases "k - 1") auto
    with 1(3) have "i div 16 < 16 ^ j" by (simp add: less_mult_imp_div_less mult.commute)
    with 1(1) [OF refl refl False k(2)] False k show ?thesis
      by (simp add: convertHex_loop.simps [of i])
  qed
qed

section \<open>The cursor and the text\<close>

lemma fb_invD: "fb_inv fb \<Longrightarrow> fb_cur fb \<le> length (fb_data fb)"
  by (simp add: fb_inv_def)

lemma size_of_avail: "fb_inv fb \<Longrightarrow> size_of_ssize (fb_avail fb) = length (fb_data fb) - fb_cur fb"
proof -
  assume a: "fb_inv fb"
  then have "fb_avail fb = int (length (fb_data fb) - fb_cur fb)"
    by (simp add: fb_avail_def fb_inv_def of_nat_diff)
  moreover have "length (fb_data fb) - fb_cur fb < 2 ^ 63"
    using a by (intro less_imp_diff_less) (simp add: fb_inv_def)
  ultimately show ?thesis by (simp only: size_of_ssize_int)
qed

text \<open>Storing at the cursor and advancing by what was stored appends to the text.\<close>

lemma store_at_cur:
  assumes "fb_inv fb" and "fb_cur fb + length s \<le> length (fb_data fb)" and "n \<le> length s"
  shows "\<exists>fb'. fb_store (fb_cur fb) s fb = Inr fb' \<and> fb_inv (fb_add n fb')
    \<and> fb_text (fb_add n fb') = fb_text fb @ take n s
    \<and> length (fb_data fb') = length (fb_data fb) \<and> fb_cur fb' = fb_cur fb"
  using assms by (auto simp: fb_store_def fb_inv_def fb_add_def fb_text_def overwrite_def)

lemma fb_append_Inr:
  assumes "fb_inv fb" and "length s \<le> length (fb_data fb) - fb_cur fb"
  shows "\<exists>fb'. fb_append s fb = Inr fb' \<and> fb_inv fb' \<and> fb_text fb' = fb_text fb @ s
    \<and> length (fb_data fb') = length (fb_data fb)"
proof -
  have "fb_cur fb + length s \<le> length (fb_data fb)" using assms fb_invD by fastforce
  from store_at_cur [OF assms(1) this order_refl] assms show ?thesis
    by (auto simp: fb_append_def size_of_avail fb_add_def)
qed

lemma fb_append_full:
  "fb_inv fb \<Longrightarrow> length (fb_data fb) - fb_cur fb < length s \<Longrightarrow> fb_append s fb = Inl AssertFailed"
  by (simp add: fb_append_def size_of_avail bindE_assertE)

lemma length_convert_64:
  assumes "- (2 ^ 63) \<le> v" and "v < 2 ^ 64"
  shows "length (convert v) \<le> 21"
  using length_show_int_le [of 20 v] assms by (simp add: convert_show_int abs_if)

lemma FormatInteger_full: "fb_avail fb < int kMaxNumericSize \<Longrightarrow> FormatInteger v fb = Inl AssertFailed"
  by (simp add: FormatInteger_def bindE_assertE)

lemma FormatInteger_Inr:
  assumes "fb_inv fb" and "int kMaxNumericSize \<le> fb_avail fb"
    and "- (2 ^ 63) \<le> v" and "v < 2 ^ 64"
  shows "\<exists>fb'. FormatInteger v fb = Inr fb' \<and> fb_inv fb' \<and> fb_text fb' = fb_text fb @ show_int v
    \<and> length (fb_data fb') = length (fb_data fb)"
proof -
  have "fb_cur fb + length (convert v) \<le> length (fb_data fb)"
    using assms(2) length_convert_64 [OF assms(3,4)] by (simp add: fb_avail_def kMaxNumericSize_def)
  from store_at_cur [OF assms(1) this order_refl] assms(2) show ?thesis
    by (auto simp: FormatInteger_def Let_def convert_show_int fb_add_def)
qed

section \<open>Properties\<close>

text \<open>
  Property C36. \<open>detail::convert\<close>, with its table centred at zero and C++'s truncated remainder,
  prints every integer, the most negative one of any width included, as its canonical decimal
  text, and the text reads back to the value.
\<close>

theorem convert_is_decimal: "convert v = show_int v \<and> read_int (convert v) = v"
  by (simp add: convert_show_int)



text \<open>
  Remark. \<open>operator<<(double)\<close> can leave the buffer: it checks for 48 free bytes and lets
  \<open>snprintf\<close> store at most 47 characters, but advances the cursor by the untruncated length.
  When that length exceeds the space left, the cursor is past the end, \<open>avail()\<close> is negative,
  its cast to \<open>size_t\<close> passes every check of \<open>append\<close>, and the next non-empty append writes
  outside the array.
\<close>

theorem put_double_overruns:
  assumes "fb_inv fb" and "int kMaxNumericSize \<le> fb_avail fb"
    and "fb_avail fb < int (length (show_fixed12 d))" and "length (show_fixed12 d) < 2 ^ 31"
    and "s \<noteq> []" and "length s < 2 ^ 31"
  shows "\<exists>fb'. put_double d fb = Inr fb' \<and> fb_avail fb' < 0 \<and> fb_append s fb' = Inl OutOfRange"
proof -
  define fb' where "fb' = fb_add (length (show_fixed12 d))
     (fb\<lparr>fb_data := overwrite (fb_cur fb) (fb_data fb) (take 47 (show_fixed12 d) @ [CHR 0x00])\<rparr>)"
  have room: "fb_cur fb + 48 \<le> length (fb_data fb)"
    using assms(2) by (simp add: fb_avail_def kMaxNumericSize_def)
  have put: "put_double d fb = Inr fb'"
    using assms(2) room by (simp add: put_double_def Let_def fb_store_def fb'_def kMaxNumericSize_def)
  have l: "length (fb_data fb') = length (fb_data fb)"
    and c: "fb_cur fb' = fb_cur fb + length (show_fixed12 d)"
    using room by (simp_all add: fb'_def fb_add_def)
  have neg: "fb_avail fb' < 0" "- (2 ^ 31) \<le> fb_avail fb'"
    using assms(1-4) l c by (auto simp: fb_avail_def fb_inv_def)
  then have "size_of_ssize (fb_avail fb') = nat (fb_avail fb' + 2 ^ 64)"
    by (intro size_of_ssize_neg) simp_all
  with neg assms(6) have "length s \<le> size_of_ssize (fb_avail fb')" by simp
  moreover have "fb_store (fb_cur fb') s fb' = Inl OutOfRange"
    using neg(1) assms(5) by (auto simp: fb_store_def fb_avail_def)
  ultimately show ?thesis using put neg(1) by (simp add: fb_append_def)
qed

theorem put_double_overruns_witness:
  "\<exists>fb'. put_double \<lparr>mant = 1, expo = 120\<rparr> \<lparr>fb_data = replicate 4000 CHR 0x00, fb_cur = 3952\<rparr> = Inr fb'
    \<and> fb_avail fb' < 0 \<and> fb_append ''!'' fb' = Inl OutOfRange"
proof -
  have e: "show_fixed12 \<lparr>mant = 1, expo = 120\<rparr> = show_nat (2 ^ 120) @ ''.'' @ zero_pad 12 0"
    by (simp add: show_fixed12_def)
  have "36 < length (show_nat (2 ^ 120))" by (rule length_show_nat_gt) simp
  moreover have "length (show_nat (2 ^ 120)) \<le> 37" by (rule length_show_nat_le) simp_all
  moreover have "length (zero_pad 12 0) = 12" by (simp add: zero_pad_def show_nat.simps)
  ultimately have "length (show_fixed12 \<lparr>mant = 1, expo = 120\<rparr>) = 50"
    unfolding e by simp
  then show ?thesis
    by (intro put_double_overruns) (simp_all add: fb_inv_def fb_avail_def kMaxNumericSize_def)
qed

end
