(* ===== verification/Logger.thy ===== *)
theory Logger
  imports LogStream
begin

text \<open>
  The logger (\<open>include/mini_muduo/base/Logger.h\<close>, \<open>src/base/Logger.cc\<close>,
  \<open>src/base/Exception.cc\<close>): the level test of the \<open>LOG_*\<close> macros, the line a temporary
  \<open>Logger\<close> builds, and its destructor, which prints the line and throws for \<open>FATAL\<close>. The
  clock, the thread id, \<open>localtime_r\<close> and \<open>strerror_r\<close> are arguments.
\<close>

section \<open>Levels and source files\<close>

datatype LogLevel = TRACE | DEBUG | INFO | WARN | ERROR | FATAL | NUM_LOG_LEVELS

fun level_num :: "LogLevel \<Rightarrow> nat" where
  "level_num TRACE = 0" | "level_num DEBUG = 1" | "level_num INFO = 2" | "level_num WARN = 3"
| "level_num ERROR = 4" | "level_num FATAL = 5" | "level_num NUM_LOG_LEVELS = 6"

definition g_log_level_init :: LogLevel where
  "g_log_level_init = NUM_LOG_LEVELS"

text \<open>The condition in front of every \<open>LOG_*\<close> macro.\<close>

definition log_enabled :: "LogLevel \<Rightarrow> LogLevel \<Rightarrow> bool" where
  "log_enabled level g_log_level \<longleftrightarrow> level_num level \<le> level_num g_log_level"

text \<open>The two tables have six entries; \<open>NUM_LOG_LEVELS\<close> indexes past them.\<close>

definition level_entry :: "string list \<Rightarrow> LogLevel \<Rightarrow> string res" where
  "level_entry table l = (if level_num l < length table then Inr (table ! level_num l) else Inl OutOfRange)"

definition log_level_name :: "LogLevel \<Rightarrow> string res" where
  "log_level_name l = level_entry [''TRACE'', ''DEBUG'', ''INFO'', ''WARN'', ''ERROR'', ''FATAL''] l"

definition CSI_START :: string where "CSI_START = CHR 0x1B # ''[''"
definition CSI_END :: string where "CSI_END = CHR 0x1B # ''[0m''"

definition log_level_font_style_start :: "LogLevel \<Rightarrow> string res" where
  "log_level_font_style_start l =
     bindE (level_entry [''30;'', ''34;'', ''32;'', ''33;'', ''31;'', ''35;''] l) (\<lambda>c. Inr (CSI_START @ c @ ''22m''))"

text \<open>\<open>strrchr\<close>: the index of the last occurrence.\<close>

fun strrchr :: "string \<Rightarrow> char \<Rightarrow> nat option" where
  "strrchr [] c = None"
| "strrchr (x # xs) c =
     (case strrchr xs c of Some i \<Rightarrow> Some (Suc i) | None \<Rightarrow> if x = c then Some 0 else None)"

record source_file =
  sf_data :: string
  sf_size :: int

text \<open>The constructor from an array of \<open>N\<close> chars (a literal, \<open>N - 1\<close> characters and the zero).\<close>

definition SourceFile_array :: "string \<Rightarrow> source_file" where
  "SourceFile_array arr =
     (case strrchr arr (CHR ''/'') of
        Some i \<Rightarrow> \<lparr>sf_data = drop (i + 1) arr, sf_size = int (length arr) - int (i + 1)\<rparr>
      | None \<Rightarrow> \<lparr>sf_data = arr, sf_size = int (length arr)\<rparr>)"

definition SourceFile_ptr :: "string \<Rightarrow> source_file" where
  "SourceFile_ptr filename =
     (let d = (case strrchr filename (CHR ''/'') of Some i \<Rightarrow> drop (i + 1) filename | None \<Rightarrow> filename)
      in \<lparr>sf_data = d, sf_size = int (length d)\<rparr>)"

section \<open>Building and printing a line\<close>

record tm =
  tm_year :: int
  tm_mon :: int
  tm_mday :: int
  tm_hour :: int
  tm_min :: int
  tm_sec :: int

record log_env =
  env_now :: Timestamp
  env_tid :: int
  env_localtime :: "int \<Rightarrow> tm"
  env_strerror :: "int \<Rightarrow> string"
  env_stack :: "char list"

text \<open>\<open>env_stack\<close> is what the uninitialised 4000-byte array of the temporary holds.\<close>

definition space_pad :: "nat \<Rightarrow> int \<Rightarrow> string" where
  "space_pad w i = replicate (w - length (show_int i)) (CHR '' '') @ show_int i"

definition file_time :: "log_env \<Rightarrow> string" where
  "file_time env =
     (let seconds = second_since_epoch (env_now env);
          milli_seconds = milli_seconds_since_epoch (env_now env) - seconds * 1000;
          t = env_localtime env seconds
      in take 63 (space_pad 4 (tm_year t + 1900) @ ''-'' @ zero_pad 2 (tm_mon t + 1) @ ''-''
           @ zero_pad 2 (tm_mday t) @ '' '' @ zero_pad 2 (tm_hour t) @ '':'' @ zero_pad 2 (tm_min t)
           @ '':'' @ zero_pad 2 (tm_sec t) @ ''.'' @ zero_pad 3 milli_seconds @ '' ''))"

definition FormatFileTime :: "log_env \<Rightarrow> fixed_buffer \<Rightarrow> fixed_buffer res" where
  "FormatFileTime env fb = put_cstr (Some (file_time env)) fb"

text \<open>A chain \<open>stream << x1 << x2 ...\<close>.\<close>

fun stream_puts :: "(fixed_buffer \<Rightarrow> fixed_buffer res) list \<Rightarrow> fixed_buffer \<Rightarrow> fixed_buffer res" where
  "stream_puts [] s = Inr s"
| "stream_puts (f # fs) s = bindE (f s) (stream_puts fs)"

definition Logger_Impl :: "log_env \<Rightarrow> LogLevel \<Rightarrow> int \<Rightarrow> fixed_buffer res" where
  "Logger_Impl env level save_errno =
     bindE (log_level_font_style_start level) (\<lambda>style.
     bindE (stream_puts [put_cstr (Some style), FormatFileTime env, put_int (env_tid env), put_char (CHR '' '')]
              \<lparr>fb_data = env_stack env, fb_cur = 0\<rparr>) (\<lambda>s.
     bindE (log_level_name level) (\<lambda>name.
       stream_puts
         ([put_cstr (Some name), put_char (CHR '' '')]
          @ (if save_errno \<noteq> 0
             then [put_cstr (Some (env_strerror env save_errno)), put_cstr (Some '' (errno=''),
                   put_int save_errno, put_cstr (Some '') '')]
             else [])) s)))"

text \<open>The three constructors: with the threshold as the level, with a level, with a level and a function name.\<close>

definition Logger_threshold :: "log_env \<Rightarrow> LogLevel \<Rightarrow> fixed_buffer res" where
  "Logger_threshold env g_log_level = Logger_Impl env g_log_level 0"

definition Logger_with_level :: "log_env \<Rightarrow> LogLevel \<Rightarrow> fixed_buffer res" where
  "Logger_with_level env level = Logger_Impl env level 0"

definition Logger_with_func :: "log_env \<Rightarrow> LogLevel \<Rightarrow> string \<Rightarrow> fixed_buffer res" where
  "Logger_with_func env level func =
     bindE (Logger_Impl env level 0) (stream_puts [put_cstr (Some func), put_char (CHR '' '')])"

definition Finish :: "source_file \<Rightarrow> int \<Rightarrow> fixed_buffer \<Rightarrow> fixed_buffer res" where
  "Finish file line s =
     stream_puts [put_cstr (Some '' - ''), put_cstr (Some (sf_data file)), put_cstr (Some '':''),
       put_int line, put_cstr (Some [CHR 0x0A]), put_cstr (Some CSI_END)] s"

text \<open>The destructor: what \<open>fwrite\<close> prints, and the message of the exception thrown for \<open>FATAL\<close>.\<close>

definition Logger_dtor :: "source_file \<Rightarrow> int \<Rightarrow> LogLevel \<Rightarrow> fixed_buffer \<Rightarrow> (string \<times> string option) res" where
  "Logger_dtor file line level s =
     bindE (Finish file line s)
       (\<lambda>s. Inr (fb_text s, if level = FATAL then Some (fb_text s) else None))"

datatype log_item = LChar char | LStr string | LInt int

fun put_item :: "log_item \<Rightarrow> fixed_buffer \<Rightarrow> fixed_buffer res" where
  "put_item (LChar c) s = put_char c s"
| "put_item (LStr t) s = put_string t s"
| "put_item (LInt i) s = put_int i s"

text \<open>A whole statement \<open>LOG_level << x1 << x2 ...\<close>: \<open>None\<close> when the level is disabled.\<close>

definition LOG :: "log_env \<Rightarrow> LogLevel \<Rightarrow> LogLevel \<Rightarrow> string \<Rightarrow> int \<Rightarrow> string \<Rightarrow> log_item list \<Rightarrow>
    (string \<times> string option) option res" where
  "LOG env g_log_level level file line func items =
     (if log_enabled level g_log_level
      then bindE (Logger_with_func env level func)
             (\<lambda>s. bindE (stream_puts (map put_item items) s)
               (\<lambda>s. bindE (Logger_dtor (SourceFile_array file) line level s) (\<lambda>r. Inr (Some r))))
      else Inr None)"

section \<open>Appending operations compose\<close>

text \<open>
  \<open>appends f t\<close>: on a well-formed buffer with room for \<open>t\<close> and a number's 48 bytes, \<open>f\<close> succeeds
  and appends exactly \<open>t\<close>.
\<close>

definition appends :: "(fixed_buffer \<Rightarrow> fixed_buffer res) \<Rightarrow> string \<Rightarrow> bool" where
  "appends f t \<longleftrightarrow> (\<forall>fb. fb_inv fb \<and> fb_cur fb + length t + 48 \<le> length (fb_data fb) \<longrightarrow>
     (\<exists>fb'. f fb = Inr fb' \<and> fb_inv fb' \<and> fb_text fb' = fb_text fb @ t
        \<and> length (fb_data fb') = length (fb_data fb)))"

lemma appendsD:
  "appends f t \<Longrightarrow> fb_inv fb \<Longrightarrow> fb_cur fb + length t + 48 \<le> length (fb_data fb) \<Longrightarrow>
   \<exists>fb'. f fb = Inr fb' \<and> fb_inv fb' \<and> fb_text fb' = fb_text fb @ t
     \<and> length (fb_data fb') = length (fb_data fb)"
  by (simp add: appends_def)

lemma length_fb_text: "fb_inv fb \<Longrightarrow> length (fb_text fb) = fb_cur fb"
  by (simp add: fb_text_def fb_inv_def)

lemma appends_bind:
  assumes "appends f t" and "appends g u"
  shows "appends (\<lambda>fb. bindE (f fb) g) (t @ u)"
  unfolding appends_def
proof (intro allI impI)
  fix fb
  assume a: "fb_inv fb \<and> fb_cur fb + length (t @ u) + 48 \<le> length (fb_data fb)"
  then obtain fb1 where 1: "f fb = Inr fb1" "fb_inv fb1" "fb_text fb1 = fb_text fb @ t"
    "length (fb_data fb1) = length (fb_data fb)"
    using appendsD [OF assms(1), of fb] by auto
  then have "fb_cur fb1 = fb_cur fb + length t"
    using a length_fb_text [of fb1] length_fb_text [of fb] by simp
  with a 1 show "\<exists>fb'. bindE (f fb) g = Inr fb' \<and> fb_inv fb' \<and> fb_text fb' = fb_text fb @ t @ u
      \<and> length (fb_data fb') = length (fb_data fb)"
    using appendsD [OF assms(2), of fb1] by auto
qed

lemma appends_append: "appends (fb_append t) t"
  unfolding appends_def using fb_append_Inr by (metis le_diff_conv2 add_leE add.commute fb_invD)

lemma appends_Inr: "appends Inr []"
  by (simp add: appends_def)

definition int64_range :: "int \<Rightarrow> bool" where
  "int64_range i \<longleftrightarrow> - (2 ^ 63) \<le> i \<and> i < 2 ^ 64"

lemma appends_int: "int64_range i \<Longrightarrow> appends (put_int i) (show_int i)"
  unfolding appends_def put_int_def int64_range_def
  using FormatInteger_Inr [of _ i] by (fastforce simp: fb_avail_def kMaxNumericSize_def)

lemma appends_char: "appends (put_char c) [c]"
  unfolding put_char_def [abs_def] by (rule appends_append)

lemma appends_cstr: "appends (put_cstr (Some t)) t"
  unfolding put_cstr_def [abs_def] option.case by (rule appends_append)

lemma appends_string: "appends (put_string t) t"
  using appends_append [of t] appends_Inr by (cases "t = []") (auto simp: put_string_def [abs_def])

fun item_text :: "log_item \<Rightarrow> string" where
  "item_text (LChar c) = [c]"
| "item_text (LStr t) = t"
| "item_text (LInt i) = show_int i"

fun item_ok :: "log_item \<Rightarrow> bool" where
  "item_ok (LInt i) = int64_range i"
| "item_ok _ = True"

lemma appends_item: "item_ok x \<Longrightarrow> appends (put_item x) (item_text x)"
proof (cases x)
  case (LChar c)
  have "put_item (LChar c) = put_char c" by (rule ext) simp
  with LChar show ?thesis by (simp add: appends_char)
next
  case (LStr t)
  have "put_item (LStr t) = put_string t" by (rule ext) simp
  with LStr show ?thesis by (simp add: appends_string)
next
  case (LInt i)
  have "put_item (LInt i) = put_int i" by (rule ext) simp
  moreover assume "item_ok x"
  ultimately show ?thesis using LInt by (simp add: appends_int)
qed

lemma appends_Nil: "appends (stream_puts []) []"
  by (simp add: appends_def)

lemma appends_Cons:
  assumes "appends f t" and "appends (stream_puts fs) u"
  shows "appends (stream_puts (f # fs)) (t @ u)"
proof -
  have "stream_puts (f # fs) = (\<lambda>fb. bindE (f fb) (stream_puts fs))" by (rule ext) simp
  with appends_bind [OF assms] show ?thesis by simp
qed

lemma appends_items:
  "list_all item_ok xs \<Longrightarrow> appends (stream_puts (map put_item xs)) (concat (map item_text xs))"
  by (induction xs) (auto intro: appends_Cons appends_item appends_Nil simp del: stream_puts.simps)

lemmas appends_intros =
  appends_Cons appends_Nil appends_int appends_char appends_cstr appends_string

section \<open>Source file names\<close>

lemma strrchr_None: "strrchr s c = None \<longleftrightarrow> c \<notin> set s"
  by (induction s) (auto split: option.splits)

lemma strrchr_Some:
  "strrchr s c = Some i \<Longrightarrow> i < length s \<and> s ! i = c \<and> c \<notin> set (drop (Suc i) s)"
proof (induction s arbitrary: i)
  case Nil
  then show ?case by simp
next
  case (Cons x s)
  then show ?case
    by (cases "strrchr s c") (auto simp: strrchr_None split: if_splits)
qed

section \<open>What a line should be\<close>

text \<open>The part of a path after its last slash, the colour and the word of a level.\<close>

definition base_name :: "string \<Rightarrow> string" where
  "base_name path = rev (takeWhile (\<lambda>c. c \<noteq> CHR ''/'') (rev path))"

fun level_colour :: "LogLevel \<Rightarrow> nat" where
  "level_colour TRACE = 30" | "level_colour DEBUG = 34" | "level_colour INFO = 32"
| "level_colour WARN = 33" | "level_colour ERROR = 31" | "level_colour FATAL = 35" | "level_colour NUM_LOG_LEVELS = 0"

fun level_word :: "LogLevel \<Rightarrow> string" where
  "level_word TRACE = ''TRACE''" | "level_word DEBUG = ''DEBUG''" | "level_word INFO = ''INFO''"
| "level_word WARN = ''WARN''" | "level_word ERROR = ''ERROR''" | "level_word FATAL = ''FATAL''" | "level_word NUM_LOG_LEVELS = []"

text \<open>
  A date and time of day as people write them, months from 1, and the \<open>struct tm\<close> that
  \<open>localtime_r\<close> documents for it: years since 1900, months from 0.
\<close>

record civil_time =
  ct_year :: nat
  ct_month :: nat
  ct_day :: nat
  ct_hour :: nat
  ct_minute :: nat
  ct_second :: nat

definition tm_of :: "civil_time \<Rightarrow> tm" where
  "tm_of c = \<lparr>tm_year = int (ct_year c) - 1900, tm_mon = int (ct_month c) - 1, tm_mday = int (ct_day c),
     tm_hour = int (ct_hour c), tm_min = int (ct_minute c), tm_sec = int (ct_second c)\<rparr>"

definition civil_ok :: "civil_time \<Rightarrow> bool" where
  "civil_ok c \<longleftrightarrow> 1000 \<le> ct_year c \<and> ct_year c \<le> 9999 \<and> 1 \<le> ct_month c \<and> ct_month c \<le> 12 \<and> 1 \<le> ct_day c \<and> ct_day c \<le> 31
     \<and> ct_hour c \<le> 23 \<and> ct_minute c \<le> 59 \<and> ct_second c \<le> 60"

text \<open>The last \<open>k\<close> decimal digits of a number.\<close>

fun last_digits :: "nat \<Rightarrow> nat \<Rightarrow> string" where
  "last_digits 0 n = []"
| "last_digits (Suc k) n = last_digits k (n div 10) @ [digit (n mod 10)]"

definition time_text :: "civil_time \<Rightarrow> nat \<Rightarrow> string" where
  "time_text c us = last_digits 4 (ct_year c) @ ''-'' @ last_digits 2 (ct_month c) @ ''-'' @ last_digits 2 (ct_day c) @ '' ''
     @ last_digits 2 (ct_hour c) @ '':'' @ last_digits 2 (ct_minute c) @ '':'' @ last_digits 2 (ct_second c)
     @ ''.'' @ last_digits 3 (us div 1000) @ '' ''"

definition line_text :: "civil_time \<Rightarrow> nat \<Rightarrow> int \<Rightarrow> LogLevel \<Rightarrow> string \<Rightarrow> int \<Rightarrow> string \<Rightarrow> log_item list \<Rightarrow> string" where
  "line_text c us tid level file line func items =
     CHR 0x1B # ''['' @ show_nat (level_colour level) @ '';22m'' @ time_text c us @ show_int tid @ '' ''
     @ level_word level @ '' '' @ func @ '' '' @ concat (map item_text items)
     @ '' - '' @ base_name file @ '':'' @ show_int line @ [CHR 0x0A] @ CHR 0x1B # ''[0m''"

lemma level_tables:
  "l \<noteq> NUM_LOG_LEVELS \<Longrightarrow> log_level_font_style_start l = Inr (CHR 0x1B # ''['' @ show_nat (level_colour l) @ '';22m'')
     \<and> log_level_name l = Inr (level_word l)"
proof -
  have "\<forall>l \<in> set [TRACE, DEBUG, INFO, WARN, ERROR, FATAL]. log_level_font_style_start l = Inr (CHR 0x1B # ''['' @ show_nat (level_colour l) @ '';22m'')
     \<and> log_level_name l = Inr (level_word l)"
    by code_simp
  then show "l \<noteq> NUM_LOG_LEVELS \<Longrightarrow> ?thesis" by (cases l) simp_all
qed

lemma base_name_array: "sf_data (SourceFile_array f) = base_name f"
proof (cases "strrchr f (CHR ''/'')")
  case None
  then have "takeWhile (\<lambda>c. c \<noteq> CHR ''/'') (rev f) = rev f" unfolding takeWhile_eq_all_conv by (auto simp: strrchr_None)
  then have "base_name f = f" by (simp only: base_name_def rev_rev_ident)
  then show ?thesis by (simp add: SourceFile_array_def None)
next
  case (Some i)
  note i = strrchr_Some [OF Some]
  have "f = take i f @ CHR ''/'' # drop (Suc i) f" using i id_take_nth_drop [of i f] by simp
  then have "rev f = rev (drop (Suc i) f) @ CHR ''/'' # rev (take i f)" by (metis append.assoc append_Cons append_Nil rev.simps(2) rev_append)
  moreover have "takeWhile (\<lambda>c. c \<noteq> CHR ''/'') (rev (drop (Suc i) f) @ CHR ''/'' # rev (take i f)) = rev (drop (Suc i) f)"
    using i by (subst takeWhile_append2) auto
  ultimately show ?thesis using Some by (simp add: SourceFile_array_def base_name_def)
qed

lemma length_last_digits [simp]: "length (last_digits k n) = k"
  by (induction k arbitrary: n) simp_all

lemma zero_pad_digits: "0 < k \<Longrightarrow> n < 10 ^ k \<Longrightarrow> zero_pad k (int n) = last_digits k n"
proof (induction k arbitrary: n)
  case (Suc k)
  show ?case
  proof (cases "n < 10")
    case True
    have z: "last_digits j 0 = replicate j (CHR ''0'')" for j
      by (induction j) (simp_all add: digit_0 replicate_append_same)
    show ?thesis using True by (simp add: zero_pad_def show_nat.simps [of n] z)
  next
    case False
    then have k: "0 < k" using Suc.prems by (cases k) simp_all
    have "n div 10 < 10 ^ k" using Suc.prems by (simp add: less_mult_imp_div_less mult.commute)
    from Suc.IH [OF k this] show ?thesis using False by (simp add: zero_pad_def show_nat.simps [of n])
  qed
qed simp

lemma show_four_digits: "1000 \<le> n \<Longrightarrow> n \<le> 9999 \<Longrightarrow> show_nat n = last_digits 4 n"
proof -
  assume n: "1000 \<le> n" "n \<le> 9999"
  have "length (show_nat n) = 4" using length_show_nat_gt [of 3 n] length_show_nat_le [of 4 n] n by simp
  then show ?thesis using zero_pad_digits [of 4 n] n by (simp add: zero_pad_def)
qed

lemma last_digits_mod: "last_digits k (n mod 10 ^ k) = last_digits k n"
proof (induction k arbitrary: n)
  case (Suc k)
  have "n mod 10 ^ Suc k div 10 = n div 10 mod 10 ^ k" by (simp add: mod_mult2_eq)
  moreover have "n mod 10 ^ Suc k mod 10 = n mod 10" by (simp add: mod_mod_cancel)
  ultimately show ?case using Suc.IH [of "n div 10"] by (simp only: last_digits.simps)
qed simp

lemma file_time_text:
  assumes "env_now env = Timestamp (int us)" and "env_localtime env (int us div 1000000) = tm_of c" and "civil_ok c"
  shows "file_time env = time_text c us"
proof -
  have s: "second_since_epoch (env_now env) = int us div 1000000" "milli_seconds_since_epoch (env_now env) = int us div 1000"
    by (simp_all add: assms(1) second_since_epoch_def milli_seconds_since_epoch_def kMicroSecondsPerSecond_def sdiv_nonneg)
  have "int us div 1000 - int us div 1000000 * 1000 = int (us div 1000 mod 1000)"
    by (simp add: zdiv_zmult2_eq [of 1000 "int us" 1000, simplified] minus_div_mult_eq_mod zdiv_int zmod_int)
  then have ms: "zero_pad 3 (int us div 1000 - int us div 1000000 * 1000) = last_digits 3 (us div 1000)"
    using last_digits_mod [of 3 "us div 1000"] by (simp add: zero_pad_digits)
  have year: "space_pad 4 (int (ct_year c)) = last_digits 4 (ct_year c)"
    using assms(3) show_four_digits [of "ct_year c"] by (simp add: space_pad_def show_int_def civil_ok_def)
  have two: "zero_pad 2 (int n) = last_digits 2 n" if "n \<le> 60" for n using that by (intro zero_pad_digits) simp_all
  show ?thesis using assms(3) two year
    by (simp add: file_time_def s assms(2) ms tm_of_def time_text_def civil_ok_def Let_def)
qed

section \<open>Properties\<close>

text \<open>
  Remark. Which statements the \<open>LOG_*\<close> macros execute: those whose level number is at most
  \<open>g_log_level\<close>. With the initial value \<open>NUM_LOG_LEVELS\<close> every level is printed, \<open>TRACE\<close> included,
  and lowering \<open>g_log_level\<close> hides the most severe levels first: a threshold of \<open>ERROR\<close> still
  prints \<open>TRACE\<close> and drops \<open>FATAL\<close>.
\<close>

theorem log_levels:
  "log_enabled l g_log_level_init \<and> log_enabled TRACE ERROR \<and> \<not> log_enabled FATAL ERROR
   \<and> (log_enabled l g \<longleftrightarrow> level_num l \<le> level_num g)"
  by (cases l) (simp_all add: log_enabled_def g_log_level_init_def)

text \<open>
  Remark. \<open>SourceFile\<close> keeps the file name after the last slash: its data has no slash, is
  a suffix of the path cut right after a slash (or the whole path), its size is its length, and
  both constructors agree.
\<close>

theorem SourceFile_basename:
  "SourceFile_array f = SourceFile_ptr f
   \<and> CHR ''/'' \<notin> set (sf_data (SourceFile_array f))
   \<and> sf_size (SourceFile_array f) = int (length (sf_data (SourceFile_array f)))
   \<and> (\<exists>dir. f = dir @ sf_data (SourceFile_array f) \<and> (dir = [] \<or> last dir = CHR ''/''))"
proof (cases "strrchr f (CHR ''/'')")
  case None
  then have "CHR ''/'' \<notin> set f" by (simp add: strrchr_None)
  with None show ?thesis
    by (simp add: SourceFile_array_def SourceFile_ptr_def)
next
  case (Some i)
  note i = strrchr_Some [OF Some]
  then have "last (take (Suc i) f) = CHR ''/''" by (simp add: take_Suc_conv_app_nth)
  with Some i show ?thesis
    by (auto simp: SourceFile_array_def SourceFile_ptr_def of_nat_diff intro!: exI [of _ "take (Suc i) f"])
qed

text \<open>
  Property C39. The text of a log line: a statement whose level is enabled and whose line fits the
  4000-byte buffer prints exactly the escape sequence of the level's colour, the local date and
  time to the millisecond, the thread id, the level's name, the function, the streamed items, the
  file's base name, the line number, a newline and the colour reset; the destructor of a \<open>FATAL\<close>
  line throws, with exactly the printed line as its message, and that of no other level does. A
  statement whose level is disabled does nothing.
\<close>

theorem LOG_line:
  assumes "length (env_stack env) = kSmallBuffer" and "int64_range (env_tid env)"
    and "int64_range line" and "list_all item_ok items" and "level \<noteq> NUM_LOG_LEVELS"
    and "env_now env = Timestamp (int us)" and "env_localtime env (int us div 1000000) = tm_of c" and "civil_ok c"
    and "txt = line_text c us (env_tid env) level file line func items" and "length txt + 48 \<le> kSmallBuffer"
  shows "LOG env g level file line func items =
    Inr (if level_num level \<le> level_num g then Some (txt, if level = FATAL then Some txt else None) else None)"
proof (cases "level_num level \<le> level_num g")
  case False
  then show ?thesis by (simp add: LOG_def log_enabled_def)
next
  case True
  let ?fb = "\<lparr>fb_data = env_stack env, fb_cur = 0\<rparr>"
  define style where "style = CHR 0x1B # ''['' @ show_nat (level_colour level) @ '';22m''"
  have tables: "log_level_font_style_start level = Inr style" "log_level_name level = Inr (level_word level)"
    using assms(5) level_tables [of level] by (simp_all add: style_def)
  let ?h = "stream_puts [put_cstr (Some style), FormatFileTime env, put_int (env_tid env), put_char (CHR '' '')]"
  let ?n = "stream_puts [put_cstr (Some (level_word level)), put_char (CHR '' '')]"
  let ?g = "stream_puts [put_cstr (Some func), put_char (CHR '' '')]"
  let ?f = "\<lambda>fb. bindE (bindE (bindE (?h fb) ?n) ?g)
     (\<lambda>s. bindE (stream_puts (map put_item items) s) (Finish (SourceFile_array file) line))"
  have ft: "appends (FormatFileTime env) (time_text c us)"
    unfolding FormatFileTime_def [abs_def] file_time_text [OF assms(6-8)] by (rule appends_cstr)
  have h: "appends ?h (style @ time_text c us @ show_int (env_tid env) @ '' '' @ [])"
    by (intro appends_intros ft assms(2))
  have n: "appends ?n (level_word level @ '' '' @ [])" by (intro appends_intros)
  have g: "appends ?g (func @ '' '' @ [])" by (intro appends_intros)
  have e: "appends (Finish (SourceFile_array file) line)
      ('' - '' @ sf_data (SourceFile_array file) @ '':'' @ show_int line @ [CHR 0x0A] @ CSI_END @ [])"
    unfolding Finish_def [abs_def] by (intro appends_intros assms(3))
  have "appends ?f txt"
    using appends_bind [OF appends_bind [OF appends_bind [OF h n] g] appends_bind [OF appends_items [OF assms(4)] e]]
    by (simp add: assms(9) line_text_def style_def base_name_array CSI_END_def)
  moreover have "fb_inv ?fb" and "fb_text ?fb = []"
    using assms(1) by (simp_all add: fb_inv_def fb_text_def kSmallBuffer_def)
  ultimately obtain fb' where "?f ?fb = Inr fb'" "fb_text fb' = txt"
    using appendsD [of ?f _ ?fb] assms(1,10) by auto
  then show ?thesis
    using True
    by (auto simp: LOG_def log_enabled_def Logger_with_func_def Logger_Impl_def tables Logger_dtor_def bindE_Inr_iff
        simp del: stream_puts.simps)
qed

definition witness_env :: log_env where
  "witness_env = \<lparr>env_now = Timestamp 1700000000123456, env_tid = 42,
     env_localtime = (\<lambda>_. \<lparr>tm_year = 123, tm_mon = 10, tm_mday = 14, tm_hour = 22, tm_min = 13, tm_sec = 20\<rparr>),
     env_strerror = (\<lambda>_. []), env_stack = replicate 4000 (CHR 0x00)\<rparr>"

definition witness_time :: civil_time where
  "witness_time = \<lparr>ct_year = 2023, ct_month = 11, ct_day = 14, ct_hour = 22, ct_minute = 13, ct_second = 20\<rparr>"

definition witness_line :: string where
  "witness_line = CHR 0x1B # ''[35;22m2023-11-14 22:13:20.123 42 FATAL f x=5 - b.cc:7'' @ [CHR 0x0A] @ CHR 0x1B # ''[0m''"

lemma witness_line_text: "witness_line = line_text witness_time 1700000000123456 42 FATAL ''a/b.cc'' 7 ''f'' [LStr ''x='', LInt 5]"
proof -
  have d: "last_digits 2 n = [digit (n div 10 mod 10), digit (n mod 10)]"
      "last_digits 3 n = [digit (n div 100 mod 10), digit (n div 10 mod 10), digit (n mod 10)]"
      "last_digits 4 n = [digit (n div 1000 mod 10), digit (n div 100 mod 10), digit (n div 10 mod 10), digit (n mod 10)]" for n
  proof -
    have s: "(2 :: nat) = Suc (Suc 0)" "(3 :: nat) = Suc (Suc (Suc 0))" "(4 :: nat) = Suc (Suc (Suc (Suc 0)))" by simp_all
    have v: "n div 10 div 10 = n div 100" "n div 100 div 10 = n div 1000" by (simp_all add: div_mult2_eq [symmetric])
    show "last_digits 2 n = [digit (n div 10 mod 10), digit (n mod 10)]"
        "last_digits 3 n = [digit (n div 100 mod 10), digit (n div 10 mod 10), digit (n mod 10)]"
        "last_digits 4 n = [digit (n div 1000 mod 10), digit (n div 100 mod 10), digit (n div 10 mod 10), digit (n mod 10)]"
      unfolding s last_digits.simps v by simp_all
  qed
  have n: "digit 0 = CHR ''0''" "digit (Suc 0) = CHR ''1''" "digit 2 = CHR ''2''" "digit 3 = CHR ''3''" "digit 4 = CHR ''4''" "digit 5 = CHR ''5''" "digit 7 = CHR ''7''"
    by code_simp+
  show ?thesis
    by (simp add: line_text_def time_text_def witness_time_def witness_line_def d n show_int_def show_nat.simps base_name_def)
qed

theorem LOG_line_witness:
  "LOG witness_env NUM_LOG_LEVELS FATAL ''a/b.cc'' 7 ''f'' [LStr ''x='', LInt 5] = Inr (Some (witness_line, Some witness_line))"
proof -
  note witness_line_text
  moreover have "length witness_line + 48 \<le> kSmallBuffer" by (simp add: witness_line_def kSmallBuffer_def)
  ultimately show ?thesis
    using LOG_line [of witness_env 7 "[LStr ''x='', LInt 5]" FATAL 1700000000123456 witness_time witness_line "''a/b.cc''" "''f''" NUM_LOG_LEVELS]
    by (simp add: int64_range_def witness_env_def kSmallBuffer_def tm_of_def witness_time_def civil_ok_def)
qed

text \<open>
  Remark. The constructor without a level takes the threshold for one: with the initial threshold it
  reads past the end of both tables.
\<close>

theorem Logger_threshold_out_of_range: "Logger_threshold env g_log_level_init = Inl OutOfRange"
  by (simp add: Logger_threshold_def Logger_Impl_def g_log_level_init_def log_level_font_style_start_def level_entry_def)

end
