(* ===== verification/Transitions.thy ===== *)
theory Transitions
  imports Prelude
begin

text \<open>
  Transition systems and their inductive invariants: the contract every state machine of the
  library meets, and what follows for its reachable states. The timer queue, the event loop, the
  connection and the servers instantiate it.
\<close>

locale transition_system =
  fixes step :: "'s \<Rightarrow> 's \<Rightarrow> bool" and inv :: "'s \<Rightarrow> bool"
  assumes step_inv: "inv s \<Longrightarrow> step s s' \<Longrightarrow> inv s'"
begin

lemma steps_inv: "step\<^sup>*\<^sup>* s s' \<Longrightarrow> inv s \<Longrightarrow> inv s'"
  by (induction rule: rtranclp_induct) (auto intro: step_inv)

text \<open>A relation that is a preorder and contains every step from a good state contains every run.\<close>

lemma steps_rel:
  assumes "step\<^sup>*\<^sup>* s s'" and "inv s" and "reflp R" and "transp R"
    and "\<And>u v. inv u \<Longrightarrow> step u v \<Longrightarrow> R u v"
  shows "R s s'"
  using assms(1)
proof (induction rule: rtranclp_induct)
  case base
  show ?case using assms(3) by (rule reflpD)
next
  case (step u v)
  then show ?case using assms(2,4,5) steps_inv transpD by metis
qed

end

text \<open>A system that cannot be stuck in a state where it still has something to do.\<close>

locale live_system = transition_system step inv
  for step :: "'s \<Rightarrow> 's \<Rightarrow> bool" and inv +
  fixes todo :: "'s \<Rightarrow> bool"
  assumes progress: "inv s \<Longrightarrow> todo s \<Longrightarrow> \<exists>s'. step s s'"
begin

lemma never_stuck: "step\<^sup>*\<^sup>* s s' \<Longrightarrow> inv s \<Longrightarrow> todo s' \<Longrightarrow> \<exists>s''. step s' s''"
  using steps_inv progress by blast

end

end
