(* ===== verification/TimerQueue.thy ===== *)
theory TimerQueue
  imports Timestamps Transitions "HOL-Library.Product_Lexorder"
begin

text \<open>
  Timers (\<open>include/mini_muduo/Timer.h\<close>, \<open>src/Timer.cc\<close>, \<open>include/mini_muduo/TimerId.h\<close>) and
  the timer queue (\<open>include/mini_muduo/TimerQueue.h\<close>, \<open>src/TimerQueue.cc\<close>). Timer objects live
  in an explicit heap, so that \<open>new\<close>, \<open>delete\<close> and a use after \<open>delete\<close> are visible;
  \<open>std::set<Entry>\<close> is a strictly sorted list of pairs, compared as \<open>std::pair\<close> compares. Calls
  made from another thread, and every cancellation, go through the owner loop's task queue, of
  which the timer tasks are part of the state. Callbacks are values run by an argument.
\<close>

section \<open>Timer\<close>

record 'cb timer =
  ti_expiration :: Timestamp
  ti_callback :: 'cb
  ti_interval :: double
  ti_repeat :: bool
  ti_sequence :: int

definition new_Timer :: "Timestamp \<Rightarrow> 'cb \<Rightarrow> double \<Rightarrow> int \<Rightarrow> 'cb timer" where
  "new_Timer expiration cb interval g_num_created =
     \<lparr>ti_expiration = expiration, ti_callback = cb, ti_interval = interval,
      ti_repeat = double_pos interval, ti_sequence = g_num_created\<rparr>"

definition Timer_Reset :: "Timestamp \<Rightarrow> 'cb timer \<Rightarrow> 'cb timer" where
  "Timer_Reset now t =
     (if ti_repeat t then t\<lparr>ti_expiration := AddTime now (ti_interval t)\<rparr>
      else t\<lparr>ti_expiration := Invalid\<rparr>)"

text \<open>A \<open>TimerId\<close>: the timer's address and its sequence number; also the type \<open>ActiveTimer\<close>.\<close>

type_synonym timer_id = "nat \<times> int"

section \<open>Queue state\<close>

datatype timer_task = AddTask Timestamp nat | CancelTask timer_id

text \<open>
  \<open>tq_timerfd\<close> is the last \<open>timerfd_settime\<close>: when it was made and the relative time given, or
  \<open>None\<close> when the descriptor is stopped. \<open>tq_num_created\<close> is \<open>Timer::g_num_created_\<close>.
\<close>

record 'cb timer_queue =
  tq_loop_tid :: int
  tq_timers :: "(Timestamp \<times> nat) list"
  tq_active :: "timer_id set"
  tq_calling :: bool
  tq_cancelling :: "timer_id set"
  tq_heap :: "nat \<rightharpoonup> 'cb timer"
  tq_num_created :: int
  tq_timerfd :: "(Timestamp \<times> int \<times> int) option"
  tq_queued :: "timer_task list"

definition new_TimerQueue :: "int \<Rightarrow> 'cb timer_queue" where
  "new_TimerQueue loop_tid =
     \<lparr>tq_loop_tid = loop_tid, tq_timers = [], tq_active = {}, tq_calling = False, tq_cancelling = {},
      tq_heap = Map.empty, tq_num_created = 0, tq_timerfd = None, tq_queued = []\<rparr>"

definition UINTPTR_MAX :: nat where
  "UINTPTR_MAX = 2 ^ 64 - 1"

section \<open>The timer descriptor\<close>

definition HowMuchTimeFromNow :: "Timestamp \<Rightarrow> Timestamp \<Rightarrow> int \<times> int" where
  "HowMuchTimeFromNow now when' =
     (let d = micro_seconds_since_epoch when' - micro_seconds_since_epoch now;
          microseconds = (if d < 100 then 100 else d)
      in (microseconds sdiv kMicroSecondsPerSecond,
          (microseconds smod kMicroSecondsPerSecond) * 1000))"

definition StopTimerFd :: "('cb, 'z) timer_queue_scheme \<Rightarrow> ('cb, 'z) timer_queue_scheme" where
  "StopTimerFd q = q\<lparr>tq_timerfd := None\<rparr>"

definition ResetTimerFd :: "Timestamp \<Rightarrow> Timestamp \<Rightarrow> ('cb, 'z) timer_queue_scheme \<Rightarrow> ('cb, 'z) timer_queue_scheme" where
  "ResetTimerFd now expiration q = q\<lparr>tq_timerfd := Some (now, HowMuchTimeFromNow now expiration)\<rparr>"

section \<open>Operations of the queue\<close>

definition tq_assert_loop :: "int \<Rightarrow> ('cb, 'z) timer_queue_scheme \<Rightarrow> unit res" where
  "tq_assert_loop tid q = (if tid = tq_loop_tid q then Inr () else Inl Aborted)"

definition deref :: "nat \<Rightarrow> ('cb, 'z) timer_queue_scheme \<Rightarrow> 'cb timer res" where
  "deref a q = (case tq_heap q a of Some t \<Rightarrow> Inr t | None \<Rightarrow> Inl UseAfterFree)"

definition delete_timer :: "nat \<Rightarrow> ('cb, 'z) timer_queue_scheme \<Rightarrow> ('cb, 'z) timer_queue_scheme" where
  "delete_timer a q = q\<lparr>tq_heap := (tq_heap q)(a := None)\<rparr>"

definition tq_insert :: "int \<Rightarrow> nat \<Rightarrow> ('cb, 'z) timer_queue_scheme \<Rightarrow> (bool \<times> ('cb, 'z) timer_queue_scheme) res" where
  "tq_insert tid a q =
     bindE (tq_assert_loop tid q) (\<lambda>_.
     bindE (deref a q) (\<lambda>timer.
       let when' = ti_expiration timer;
           earliest_changed = (tq_timers q = [] \<or> when' < fst (hd (tq_timers q)));
           q1 = q\<lparr>tq_timers := insort_insert (when', a) (tq_timers q)\<rparr>
       in bindE (assertE ((when', a) \<notin> set (tq_timers q))) (\<lambda>_.
          bindE (assertE ((a, ti_sequence timer) \<notin> tq_active q)) (\<lambda>_.
            Inr (earliest_changed, q1\<lparr>tq_active := insert (a, ti_sequence timer) (tq_active q)\<rparr>)))))"

definition AddTimeInLoop :: "int \<Rightarrow> Timestamp \<Rightarrow> Timestamp \<Rightarrow> nat \<Rightarrow> ('cb, 'z) timer_queue_scheme \<Rightarrow> ('cb, 'z) timer_queue_scheme res" where
  "AddTimeInLoop tid now when' a q =
     bindE (tq_assert_loop tid q) (\<lambda>_.
     bindE (tq_insert tid a q) (\<lambda>(changed, q1).
       Inr (if changed then ResetTimerFd now when' q1 else q1)))"

text \<open>
  \<open>AddTimer\<close> in its two parts: \<open>a\<close> is the address \<open>new Timer\<close> returns, and \<open>RunInLoop\<close> runs the
  insertion or queues it; afterwards the sequence number is read through the pointer. On the loop's
  thread nothing comes between the two; another thread only hands the timer over, and the loop may
  run before it reads.
\<close>

definition hand_over_timer :: "int \<Rightarrow> Timestamp \<Rightarrow> nat \<Rightarrow> Timestamp \<Rightarrow> 'cb \<Rightarrow> double \<Rightarrow> ('cb, 'z) timer_queue_scheme \<Rightarrow>
    ('cb, 'z) timer_queue_scheme res" where
  "hand_over_timer tid now a when' cb interval q =
     (let timer = new_Timer when' cb interval (tq_num_created q);
          q1 = q\<lparr>tq_heap := (tq_heap q)(a \<mapsto> timer), tq_num_created := tq_num_created q + 1\<rparr>
      in if tid = tq_loop_tid q1 then AddTimeInLoop tid now when' a q1
         else Inr (q1\<lparr>tq_queued := tq_queued q1 @ [AddTask when' a]\<rparr>))"

definition timer_id_of :: "nat \<Rightarrow> ('cb, 'z) timer_queue_scheme \<Rightarrow> timer_id res" where
  "timer_id_of a q = bindE (deref a q) (\<lambda>t. Inr (a, ti_sequence t))"

definition AddTimer :: "int \<Rightarrow> Timestamp \<Rightarrow> nat \<Rightarrow> Timestamp \<Rightarrow> 'cb \<Rightarrow> double \<Rightarrow> ('cb, 'z) timer_queue_scheme \<Rightarrow>
    (timer_id \<times> ('cb, 'z) timer_queue_scheme) res" where
  "AddTimer tid now a when' cb interval q =
     bindE (hand_over_timer tid now a when' cb interval q) (\<lambda>q2. bindE (timer_id_of a q2) (\<lambda>i. Inr (i, q2)))"

definition CancelTimer :: "timer_id \<Rightarrow> ('cb, 'z) timer_queue_scheme \<Rightarrow> ('cb, 'z) timer_queue_scheme" where
  "CancelTimer timer_id q = q\<lparr>tq_queued := tq_queued q @ [CancelTask timer_id]\<rparr>"

definition CancelTimerInLoop :: "int \<Rightarrow> Timestamp \<Rightarrow> timer_id \<Rightarrow> ('cb, 'z) timer_queue_scheme \<Rightarrow> ('cb, 'z) timer_queue_scheme res" where
  "CancelTimerInLoop tid now timer q =
     bindE (tq_assert_loop tid q) (\<lambda>_.
       if timer \<in> tq_active q
       then (let a = fst timer;
                 was_earliest = (tq_timers q \<noteq> [] \<and> snd (hd (tq_timers q)) = a)
             in bindE (deref a q) (\<lambda>t.
                  let q1 = (delete_timer a (q\<lparr>tq_timers := remove1 (ti_expiration t, a) (tq_timers q)\<rparr>))
                             \<lparr>tq_active := tq_active q - {timer}\<rparr>
                  in Inr (if was_earliest
                          then (if tq_timers q1 \<noteq> [] then ResetTimerFd now (fst (hd (tq_timers q1))) q1
                                else StopTimerFd q1)
                          else q1)))
       else if tq_calling q then Inr (q\<lparr>tq_cancelling := insert timer (tq_cancelling q)\<rparr>)
       else Inr q)"

text \<open>\<open>GetExpired\<close>: the entries before \<open>lower_bound((now, UINTPTR_MAX))\<close>; each is dereferenced.\<close>

fun erase_active :: "(Timestamp \<times> nat) list \<Rightarrow> ('cb, 'z) timer_queue_scheme \<Rightarrow> ('cb, 'z) timer_queue_scheme res" where
  "erase_active [] q = Inr q"
| "erase_active ((e, a) # es) q =
     bindE (deref a q) (\<lambda>t. erase_active es (q\<lparr>tq_active := tq_active q - {(a, ti_sequence t)}\<rparr>))"

definition GetExpired :: "Timestamp \<Rightarrow> ('cb, 'z) timer_queue_scheme \<Rightarrow> ((Timestamp \<times> nat) list \<times> ('cb, 'z) timer_queue_scheme) res" where
  "GetExpired now q =
     (let expired = takeWhile (\<lambda>e. e < (now, UINTPTR_MAX)) (tq_timers q)
      in bindE (erase_active expired q) (\<lambda>q1.
           Inr (expired, q1\<lparr>tq_timers := dropWhile (\<lambda>e. e < (now, UINTPTR_MAX)) (tq_timers q)\<rparr>)))"

fun reset_each :: "int \<Rightarrow> Timestamp \<Rightarrow> (Timestamp \<times> nat) list \<Rightarrow> ('cb, 'z) timer_queue_scheme \<Rightarrow> ('cb, 'z) timer_queue_scheme res" where
  "reset_each tid now [] q = Inr q"
| "reset_each tid now ((e, a) # es) q =
     bindE (deref a q) (\<lambda>t.
       if ti_repeat t \<and> (a, ti_sequence t) \<notin> tq_cancelling q
       then bindE (tq_insert tid a (q\<lparr>tq_heap := (tq_heap q)(a \<mapsto> Timer_Reset now t)\<rparr>))
              (\<lambda>(_, q1). reset_each tid now es q1)
       else reset_each tid now es (delete_timer a q))"

definition TimerQueue_Reset :: "int \<Rightarrow> Timestamp \<Rightarrow> (Timestamp \<times> nat) list \<Rightarrow> Timestamp \<Rightarrow> ('cb, 'z) timer_queue_scheme \<Rightarrow>
    ('cb, 'z) timer_queue_scheme res" where
  "TimerQueue_Reset tid now2 expired now q =
     bindE (reset_each tid now expired q) (\<lambda>q1.
       let q2 = q1\<lparr>tq_cancelling := {}\<rparr>
       in Inr (if tq_timers q2 \<noteq> [] then ResetTimerFd now2 (fst (hd (tq_timers q2))) q2 else q2))"

text \<open>The loop over the expired entries: each timer is dereferenced when its turn comes.\<close>

fun run_expired :: "('cb \<Rightarrow> ('cb, 'z) timer_queue_scheme \<Rightarrow> ('cb, 'z) timer_queue_scheme) \<Rightarrow> (Timestamp \<times> nat) list \<Rightarrow>
    ('cb, 'z) timer_queue_scheme \<Rightarrow> ('cb, 'z) timer_queue_scheme res" where
  "run_expired run [] q = Inr q"
| "run_expired run ((e, a) # es) q =
     bindE (deref a q) (\<lambda>t. run_expired run es (run (ti_callback t) q))"

text \<open>\<open>now\<close> and \<open>now2\<close> are the two readings of the clock, at the start and in \<open>ResetTimerFd\<close>.\<close>

definition HandleRead :: "('cb \<Rightarrow> ('cb, 'z) timer_queue_scheme \<Rightarrow> ('cb, 'z) timer_queue_scheme) \<Rightarrow> int \<Rightarrow> Timestamp \<Rightarrow> Timestamp \<Rightarrow>
    ('cb, 'z) timer_queue_scheme \<Rightarrow> ('cb, 'z) timer_queue_scheme res" where
  "HandleRead run tid now now2 q =
     bindE (tq_assert_loop tid q) (\<lambda>_.
     bindE (GetExpired now q) (\<lambda>(expired, q1).
     bindE (run_expired run expired (q1\<lparr>tq_calling := True\<rparr>)) (\<lambda>q2.
     bindE (TimerQueue_Reset tid now2 expired now q2) (\<lambda>q3.
       Inr (q3\<lparr>tq_calling := False\<rparr>)))))"

text \<open>The loop runs the first queued timer task.\<close>

definition run_task :: "int \<Rightarrow> Timestamp \<Rightarrow> timer_task \<Rightarrow> ('cb, 'z) timer_queue_scheme \<Rightarrow> ('cb, 'z) timer_queue_scheme res" where
  "run_task tid now task q =
     (case task of AddTask when' a \<Rightarrow> AddTimeInLoop tid now when' a q
      | CancelTask timer_id \<Rightarrow> CancelTimerInLoop tid now timer_id q)"

definition run_queued :: "int \<Rightarrow> Timestamp \<Rightarrow> ('cb, 'z) timer_queue_scheme \<Rightarrow> ('cb, 'z) timer_queue_scheme res" where
  "run_queued tid now q =
     (case tq_queued q of [] \<Rightarrow> Inr q
      | task # rest \<Rightarrow> run_task tid now task (q\<lparr>tq_queued := rest\<rparr>))"

definition destroy_TimerQueue :: "('cb, 'z) timer_queue_scheme \<Rightarrow> ('cb, 'z) timer_queue_scheme" where
  "destroy_TimerQueue q = fold (\<lambda>e. delete_timer (snd e)) (tq_timers q) q"

section \<open>Invariant\<close>

text \<open>Addresses of timers whose insertion is still queued.\<close>

fun queued_adds :: "timer_task list \<Rightarrow> nat list" where
  "queued_adds [] = []"
| "queued_adds (AddTask e a # ts) = a # queued_adds ts"
| "queued_adds (CancelTask i # ts) = queued_adds ts"

text \<open>
  \<open>tq_inv E q\<close>: the two sets mirror each other and the heap, and every live timer is scheduled,
  queued for insertion, or one of the set \<open>E\<close> of timers an operation in progress holds; so
  nothing leaks and nothing scheduled is freed.
\<close>

definition tq_inv :: "nat set \<Rightarrow> ('cb, 'z) timer_queue_scheme \<Rightarrow> bool" where
  "tq_inv E q \<longleftrightarrow>
     sorted (tq_timers q) \<and> distinct (map snd (tq_timers q))
   \<and> (\<forall>e a. (e, a) \<in> set (tq_timers q) \<longrightarrow> (\<exists>t. tq_heap q a = Some t \<and> ti_expiration t = e))
   \<and> tq_active q = (\<lambda>a. (a, ti_sequence (the (tq_heap q a)))) ` snd ` set (tq_timers q)
   \<and> dom (tq_heap q) = snd ` set (tq_timers q) \<union> set (queued_adds (tq_queued q)) \<union> E
   \<and> snd ` set (tq_timers q) \<inter> set (queued_adds (tq_queued q)) = {}
   \<and> snd ` set (tq_timers q) \<inter> E = {} \<and> set (queued_adds (tq_queued q)) \<inter> E = {}
   \<and> distinct (queued_adds (tq_queued q))
   \<and> (\<forall>e a. AddTask e a \<in> set (tq_queued q) \<longrightarrow> (\<exists>t. tq_heap q a = Some t \<and> ti_expiration t = e))
   \<and> tq_cancelling q = {} \<and> (\<forall>a \<in> dom (tq_heap q). a < UINTPTR_MAX)"

text \<open>The descriptor is armed for the earliest timer.\<close>

definition tq_armed :: "('cb, 'z) timer_queue_scheme \<Rightarrow> bool" where
  "tq_armed q \<longleftrightarrow> (tq_timers q \<noteq> [] \<longrightarrow>
     (\<exists>t0. tq_timerfd q = Some (t0, HowMuchTimeFromNow t0 (fst (hd (tq_timers q))))))"

abbreviation scheduled :: "('cb, 'z) timer_queue_scheme \<Rightarrow> nat set" where
  "scheduled q \<equiv> snd ` set (tq_timers q)"

abbreviation adds :: "('cb, 'z) timer_queue_scheme \<Rightarrow> nat set" where
  "adds q \<equiv> set (queued_adds (tq_queued q))"

lemma tq_invD:
  assumes "tq_inv E q"
  shows "sorted (tq_timers q)" "distinct (map snd (tq_timers q))"
    "\<And>e a. (e, a) \<in> set (tq_timers q) \<Longrightarrow> \<exists>t. tq_heap q a = Some t \<and> ti_expiration t = e"
    "tq_active q = (\<lambda>a. (a, ti_sequence (the (tq_heap q a)))) ` scheduled q"
    "dom (tq_heap q) = scheduled q \<union> adds q \<union> E"
    "scheduled q \<inter> adds q = {}" "scheduled q \<inter> E = {}" "adds q \<inter> E = {}"
    "distinct (queued_adds (tq_queued q))"
    "\<And>e a. AddTask e a \<in> set (tq_queued q) \<Longrightarrow> \<exists>t. tq_heap q a = Some t \<and> ti_expiration t = e"
    "tq_cancelling q = {}" "\<And>a. a \<in> dom (tq_heap q) \<Longrightarrow> a < UINTPTR_MAX"
  using assms by (simp_all add: tq_inv_def)

lemma tq_invI:
  assumes "sorted (tq_timers q)" "distinct (map snd (tq_timers q))"
    "\<And>e a. (e, a) \<in> set (tq_timers q) \<Longrightarrow> \<exists>t. tq_heap q a = Some t \<and> ti_expiration t = e"
    "tq_active q = (\<lambda>a. (a, ti_sequence (the (tq_heap q a)))) ` scheduled q"
    "dom (tq_heap q) = scheduled q \<union> adds q \<union> E"
    "scheduled q \<inter> adds q = {}" "scheduled q \<inter> E = {}" "adds q \<inter> E = {}"
    "distinct (queued_adds (tq_queued q))"
    "\<And>e a. AddTask e a \<in> set (tq_queued q) \<Longrightarrow> \<exists>t. tq_heap q a = Some t \<and> ti_expiration t = e"
    "tq_cancelling q = {}" "\<And>a. a \<in> dom (tq_heap q) \<Longrightarrow> a < UINTPTR_MAX"
  shows "tq_inv E q"
  unfolding tq_inv_def using assms by simp

lemma tq_inv_held: "tq_inv E q \<Longrightarrow> a \<in> E \<Longrightarrow> \<exists>t. tq_heap q a = Some t"
  using tq_invD(5) [of E q] by (auto simp: set_eq_iff dom_def)

lemma queued_adds_append [simp]: "queued_adds (ts @ us) = queued_adds ts @ queued_adds us"
  by (induction ts rule: queued_adds.induct) auto

lemma AddTask_queued: "AddTask e a \<in> set ts \<Longrightarrow> a \<in> set (queued_adds ts)"
  by (induction ts rule: queued_adds.induct) auto

lemma distinct_snd_insort: "distinct (map snd (insort x xs)) \<longleftrightarrow> distinct (map snd (x # xs))"
  by (induction xs) (auto simp: set_insort_key)

text \<open>A change of the heap at addresses that are not scheduled leaves the mirror alone.\<close>

lemma active_frame:
  assumes "a \<notin> scheduled q"
  shows "(\<lambda>b. (b, ti_sequence (the (((tq_heap q)(a := x)) b)))) ` scheduled q =
         (\<lambda>b. (b, ti_sequence (the (tq_heap q b)))) ` scheduled q"
  using assms by (intro image_cong) auto

lemma tq_inv_heap:
  assumes inv: "tq_inv E q" and a: "a \<notin> scheduled q" "a \<notin> adds q"
    and x: "x \<noteq> None \<Longrightarrow> a < UINTPTR_MAX"
  shows "tq_inv (if x = None then E - {a} else insert a E) (q\<lparr>tq_heap := (tq_heap q)(a := x)\<rparr>)"
proof (rule tq_invI, goal_cases)
  case (3 e b)
  moreover from 3 have "b \<noteq> a" using a(1) by force
  ultimately show ?case using tq_invD(3) [OF inv, of e b] by simp
next
  case 4
  then show ?case using tq_invD(4) [OF inv] active_frame [OF a(1), of x] by simp
next
  case 5
  then show ?case using tq_invD(5) [OF inv] a by auto
next
  case (10 e b)
  moreover from 10 have "b \<noteq> a" using a(2) AddTask_queued by fastforce
  ultimately show ?case using tq_invD(10) [OF inv, of e b] by simp
next
  case (12 b)
  then show ?case using tq_invD(12) [OF inv, of b] x by (cases x; cases "b = a") auto
qed (use tq_invD [OF inv] a in \<open>auto split: if_splits\<close>)

lemma tq_inv_alloc:
  assumes "tq_inv E q" and "tq_heap q a = None" and "a < UINTPTR_MAX"
  shows "tq_inv (insert a E) (q\<lparr>tq_heap := (tq_heap q)(a \<mapsto> t)\<rparr>) \<and> a \<notin> E"
proof -
  have "a \<notin> scheduled q" "a \<notin> adds q" "a \<notin> E" using tq_invD(5) [OF assms(1)] assms(2) by auto
  with tq_inv_heap [OF assms(1), of a "Some t"] assms(3) show ?thesis by simp
qed

lemma tq_inv_free:
  assumes "tq_inv (insert a E) q" and "a \<notin> E"
  shows "tq_inv E (delete_timer a q)"
proof -
  have "a \<notin> scheduled q" "a \<notin> adds q" using tq_invD(7,8) [OF assms(1)] by auto
  with tq_inv_heap [OF assms(1), of a None] assms(2) show ?thesis by (simp add: delete_timer_def)
qed

lemma tq_inv_update:
  assumes "tq_inv E q" and "a \<in> E"
  shows "tq_inv E (q\<lparr>tq_heap := (tq_heap q)(a \<mapsto> t)\<rparr>)"
proof -
  have "a \<notin> scheduled q" "a \<notin> adds q" using tq_invD(7,8) [OF assms(1)] assms(2) by auto
  moreover have "a < UINTPTR_MAX" using tq_invD(5,12) [OF assms(1)] assms(2) by auto
  ultimately show ?thesis using tq_inv_heap [OF assms(1), of a "Some t"] assms(2) by (simp add: insert_absorb)
qed

lemma tq_inv_fields [simp]:
  "tq_inv E (q\<lparr>tq_calling := b\<rparr>) = tq_inv E q"
  "tq_inv E (q\<lparr>tq_num_created := n\<rparr>) = tq_inv E q"
  "tq_inv E (q\<lparr>tq_timerfd := fd\<rparr>) = tq_inv E q"
  "tq_inv E (ResetTimerFd t w q) = tq_inv E q"
  "tq_inv E (StopTimerFd q) = tq_inv E q"
  by (simp_all add: tq_inv_def ResetTimerFd_def StopTimerFd_def)

lemma tq_inv_queue_add:
  assumes "tq_inv (insert a E) q" and "a \<notin> E" and "tq_heap q a = Some t" and "ti_expiration t = w"
  shows "tq_inv E (q\<lparr>tq_queued := tq_queued q @ [AddTask w a]\<rparr>)"
  using tq_invD [OF assms(1)] assms(2-4) by (intro tq_invI) (auto)

lemma tq_inv_queue_cancel [inv_intros]: "tq_inv E q \<Longrightarrow> tq_inv E (CancelTimer i q)"
  by (auto simp: tq_inv_def CancelTimer_def)

lemma tq_inv_dequeue_add:
  assumes "tq_inv E q" and "tq_queued q = AddTask w a # rest"
  shows "tq_inv (insert a E) (q\<lparr>tq_queued := rest\<rparr>) \<and> a \<notin> E
    \<and> (\<exists>t. tq_heap q a = Some t \<and> ti_expiration t = w)"
proof -
  have "\<exists>t. tq_heap q a = Some t \<and> ti_expiration t = w"
    using tq_invD(10) [OF assms(1), of w a] assms(2) by simp
  moreover have "tq_inv (insert a E) (q\<lparr>tq_queued := rest\<rparr>)"
    using tq_invD [OF assms(1)] assms(2) by (intro tq_invI) auto
  ultimately show ?thesis using tq_invD(8) [OF assms(1)] assms(2) by auto
qed

lemma tq_inv_dequeue_cancel:
  "tq_inv E q \<Longrightarrow> tq_queued q = CancelTask i # rest \<Longrightarrow> tq_inv E (q\<lparr>tq_queued := rest\<rparr>)"
  by (auto simp: tq_inv_def)

section \<open>Insertion\<close>

lemma fst_hd_insort:
  assumes "sorted ts" and "ts \<noteq> []" and "\<not> w < fst (hd ts)"
  shows "fst (hd (insort (w, a) ts)) = fst (hd (ts :: (Timestamp \<times> nat) list))"
  using assms by (cases ts) (auto simp: less_eq_prod_def)

lemma fst_hd_insort_earliest:
  assumes "ts = [] \<or> w < fst (hd ts)"
  shows "fst (hd (insort (w, a) ts)) = (w :: Timestamp)"
  using assms by (cases ts) (auto simp: less_eq_prod_def)

lemma tq_insert_Inr:
  assumes inv: "tq_inv (insert a E) q" and a: "a \<notin> E" and tid: "tid = tq_loop_tid q"
    and t: "tq_heap q a = Some t"
  defines "q' \<equiv> q\<lparr>tq_timers := insort (ti_expiration t, a) (tq_timers q),
                  tq_active := insert (a, ti_sequence t) (tq_active q)\<rparr>"
  shows "tq_insert tid a q = Inr (tq_timers q = [] \<or> ti_expiration t < fst (hd (tq_timers q)), q')"
    and "tq_inv E q'"
proof -
  have fresh: "a \<notin> scheduled q" "a \<notin> adds q" using tq_invD(7,8) [OF inv] by auto
  then have "(ti_expiration t, a) \<notin> set (tq_timers q)" by force
  moreover have "(a, ti_sequence t) \<notin> tq_active q" using fresh tq_invD(4) [OF inv] by auto
  ultimately show "tq_insert tid a q = Inr (tq_timers q = [] \<or> ti_expiration t < fst (hd (tq_timers q)), q')"
    using tid t by (simp add: tq_insert_def tq_assert_loop_def deref_def assertE_def q'_def
        insort_insert_insort Let_def)
  have "tq_inv E q'"
  proof (rule tq_invI, goal_cases)
    case 1 then show ?case using tq_invD(1) [OF inv] by (simp add: q'_def sorted_insort)
  next
    case 2 then show ?case using tq_invD(2) [OF inv] fresh(1) by (simp add: q'_def distinct_snd_insort)
  next
    case (3 e b) then show ?case using tq_invD(3) [OF inv] t by (auto simp: q'_def set_insort_key)
  next
    case 4 then show ?case using tq_invD(4) [OF inv] t by (simp add: q'_def set_insort_key)
  qed (use tq_invD [OF inv] fresh a in \<open>auto simp: q'_def set_insort_key\<close>)
  then show "tq_inv E q'" .
qed

lemma AddTimeInLoop_Inr:
  assumes inv: "tq_inv (insert a E) q" and a: "a \<notin> E" and tid: "tid = tq_loop_tid q"
    and t: "tq_heap q a = Some t" "ti_expiration t = w"
  shows "\<exists>q'. AddTimeInLoop tid now w a q = Inr q' \<and> tq_inv E q' \<and> (tq_armed q \<longrightarrow> tq_armed q')
    \<and> set (tq_timers q') = insert (w, a) (set (tq_timers q)) \<and> tq_heap q' = tq_heap q
    \<and> tq_num_created q' = tq_num_created q \<and> tq_queued q' = tq_queued q
    \<and> tq_loop_tid q' = tq_loop_tid q \<and> tq_calling q' = tq_calling q"
proof -
  note ins = tq_insert_Inr [OF inv a tid t(1)]
  have "fst (hd (insort (w, a) (tq_timers q))) =
      (if tq_timers q = [] \<or> w < fst (hd (tq_timers q)) then w else fst (hd (tq_timers q)))"
    using fst_hd_insort [OF tq_invD(1) [OF inv]] fst_hd_insort_earliest [of "tq_timers q" w a] by auto
  then show ?thesis
    using ins tid t(2) by (auto simp: AddTimeInLoop_def tq_assert_loop_def tq_armed_def ResetTimerFd_def
        set_insort_key)
qed

section \<open>Calls of the interface, from callbacks and from other threads\<close>

text \<open>
  The loop's thread adds timers, other threads hand them over. The record is extended by the layers
  above; a callback may change what they add to it.
\<close>

inductive tq_call :: "('cb, 'z) timer_queue_scheme \<Rightarrow> ('cb, 'z) timer_queue_scheme \<Rightarrow> bool" where
  call_add: "tq_heap q a = None \<Longrightarrow> a < UINTPTR_MAX \<Longrightarrow>
     AddTimer (tq_loop_tid q) now a w cb interval q = Inr (i, q') \<Longrightarrow> tq_call q q'"
| call_hand_over: "tid \<noteq> tq_loop_tid q \<Longrightarrow> tq_heap q a = None \<Longrightarrow> a < UINTPTR_MAX \<Longrightarrow>
     hand_over_timer tid now a w cb interval q = Inr q' \<Longrightarrow> tq_call q q'"
| call_cancel: "tq_call q (CancelTimer i q)"
| call_other: "tq_call q (timer_queue.more_update f q)"

text \<open>What calls leave alone: live timers, scheduled entries, and the order of queued tasks.\<close>

definition calls_frame :: "('cb, 'z) timer_queue_scheme \<Rightarrow> ('cb, 'z) timer_queue_scheme \<Rightarrow> bool" where
  "calls_frame q q' \<longleftrightarrow> tq_loop_tid q' = tq_loop_tid q \<and> tq_calling q' = tq_calling q
     \<and> tq_heap q \<subseteq>\<^sub>m tq_heap q' \<and> set (tq_timers q) \<subseteq> set (tq_timers q')
     \<and> (\<exists>ts. tq_queued q' = tq_queued q @ ts)"

lemma AddTimer_Inr:
  assumes inv: "tq_inv E q" and a: "tq_heap q a = None" "a < UINTPTR_MAX"
  shows "\<exists>q'. AddTimer tid now a w cb interval q = Inr ((a, tq_num_created q), q') \<and> tq_inv E q'
    \<and> (tq_armed q \<longrightarrow> tq_armed q') \<and> calls_frame q q'
    \<and> tq_heap q' = (tq_heap q)(a \<mapsto> new_Timer w cb interval (tq_num_created q))
    \<and> tq_num_created q' = tq_num_created q + 1
    \<and> (if tid = tq_loop_tid q then (w, a) \<in> set (tq_timers q') else AddTask w a \<in> set (tq_queued q'))"
proof -
  define t where "t = new_Timer w cb interval (tq_num_created q)"
  define q1 where "q1 = q\<lparr>tq_heap := (tq_heap q)(a \<mapsto> t), tq_num_created := tq_num_created q + 1\<rparr>"
  have w: "ti_expiration t = w" "ti_sequence t = tq_num_created q" by (simp_all add: t_def new_Timer_def)
  have q1: "tq_inv (insert a E) q1" "a \<notin> E" "tq_heap q1 a = Some t"
    using tq_inv_alloc [OF inv a, of t] by (simp_all add: q1_def)
  have frame: "tq_heap q \<subseteq>\<^sub>m (tq_heap q)(a \<mapsto> t)" using a(1) by (auto simp: map_le_def)
  have armed: "tq_armed q1 = tq_armed q" by (simp add: tq_armed_def q1_def)
  have add: "AddTimer tid now a w cb interval q =
      bindE (if tid = tq_loop_tid q then AddTimeInLoop tid now w a q1
             else Inr (q1\<lparr>tq_queued := tq_queued q1 @ [AddTask w a]\<rparr>))
        (\<lambda>q2. bindE (deref a q2) (\<lambda>t. Inr ((a, ti_sequence t), q2)))"
    by (simp add: AddTimer_def hand_over_timer_def timer_id_of_def q1_def t_def Let_def bindE_assoc)
  show ?thesis
  proof (cases "tid = tq_loop_tid q")
    case True
    then have tid: "tid = tq_loop_tid q1" by (simp add: q1_def)
    obtain q' where q': "AddTimeInLoop tid now w a q1 = Inr q'" "tq_inv E q'" "tq_armed q1 \<longrightarrow> tq_armed q'"
      "set (tq_timers q') = insert (w, a) (set (tq_timers q1))" "tq_heap q' = tq_heap q1"
      "tq_num_created q' = tq_num_created q1" "tq_queued q' = tq_queued q1"
      "tq_loop_tid q' = tq_loop_tid q1" "tq_calling q' = tq_calling q1"
      using AddTimeInLoop_Inr [OF q1(1,2) tid q1(3) w(1), of now] by blast
    then show ?thesis
      using True add armed frame q1(3) w by (auto simp: calls_frame_def deref_def q1_def t_def)
  next
    case False
    define q' where "q' = q1\<lparr>tq_queued := tq_queued q1 @ [AddTask w a]\<rparr>"
    have "tq_inv E q'" using tq_inv_queue_add [OF q1(1-3) w(1)] by (simp add: q'_def)
    moreover have "AddTimer tid now a w cb interval q = Inr ((a, tq_num_created q), q')"
      using False add q1(3) w(2) by (simp add: q'_def deref_def)
    ultimately show ?thesis
      using False armed frame by (auto simp: calls_frame_def q'_def q1_def t_def tq_armed_def)
  qed
qed

lemma AddTimer_hand_over: "AddTimer tid now a w cb interval q = Inr (i, q') \<Longrightarrow> hand_over_timer tid now a w cb interval q = Inr q'"
  by (auto simp: AddTimer_def bindE_Inr_iff)

lemma hand_over_Inr:
  assumes "tq_inv E q" "tq_heap q a = None" "a < UINTPTR_MAX" "hand_over_timer tid now a w cb interval q = Inr q'"
  shows "AddTimer tid now a w cb interval q = Inr ((a, tq_num_created q), q')"
proof -
  obtain q1 where q1: "AddTimer tid now a w cb interval q = Inr ((a, tq_num_created q), q1)"
    using AddTimer_Inr [OF assms(1-3), of tid now w cb interval] by blast
  with AddTimer_hand_over [OF q1] assms(4) show ?thesis by simp
qed

lemma call_AddTimer:
  assumes "tq_heap q a = None" "a < UINTPTR_MAX" "AddTimer tid now a w cb interval q = Inr (i, q')"
  shows "tq_call q q'"
proof (cases "tid = tq_loop_tid q")
  case True
  then show ?thesis using call_add [OF assms(1,2)] assms(3) by blast
next
  case False
  then show ?thesis using call_hand_over [OF _ assms(1,2) AddTimer_hand_over [OF assms(3)]] by blast
qed

lemma tq_call_frame:
  assumes "tq_inv E q" and "tq_call q q'"
  shows "tq_inv E q' \<and> (tq_armed q \<longrightarrow> tq_armed q') \<and> calls_frame q q'"
  using assms(2,1)
proof cases
  case (call_add a now w cb interval i)
  with AddTimer_Inr [OF assms(1) call_add(1,2), of "tq_loop_tid q" now w cb interval] show ?thesis by auto
next
  case (call_hand_over tid a now w cb interval)
  with AddTimer_Inr [OF assms(1) call_hand_over(2,3), of tid now w cb interval] hand_over_Inr [OF assms(1) call_hand_over(2-4)]
  show ?thesis by auto
next
  case (call_cancel i)
  with assms(1) show ?thesis
    by (auto simp: calls_frame_def CancelTimer_def tq_armed_def intro: tq_inv_queue_cancel [unfolded CancelTimer_def])
next
  case (call_other f)
  with assms(1) show ?thesis by (auto simp: calls_frame_def tq_armed_def tq_inv_def)
qed

interpretation tqc: transition_system tq_call "tq_inv E"
  by unfold_locales (use tq_call_frame in blast)

lemma calls_frame_refl: "reflp calls_frame"
  by (auto simp: reflp_def calls_frame_def)

lemma calls_frame_trans: "transp calls_frame"
  by (rule transpI) (auto simp: calls_frame_def intro: map_le_trans)

lemma tq_calls_frame:
  assumes "tq_inv E q" and "tq_call\<^sup>*\<^sup>* q q'"
  shows "tq_inv E q'" and "calls_frame q q'"
  using tqc.steps_inv [OF assms(2,1)]
    tqc.steps_rel [OF assms(2,1) calls_frame_refl calls_frame_trans] tq_call_frame by blast+

section \<open>Expiry\<close>

text \<open>With addresses below \<open>UINTPTR_MAX\<close>, the sentinel entry cuts the set at \<open>now\<close>, inclusively.\<close>

lemma sorted_cut:
  assumes "sorted ts"
  shows "takeWhile (\<lambda>e. e < x) ts = filter (\<lambda>e. e < x) ts"
    and "dropWhile (\<lambda>e. e < x) ts = filter (\<lambda>e. \<not> e < x) ts"
  using assms by (induction ts)
    (auto intro!: filter_empty_conv [THEN iffD2, symmetric] filter_id_conv [THEN iffD2, symmetric]
       dest: le_less_trans)

lemma cut_sentinel:
  assumes "sorted ts" and "\<And>e a. (e, a) \<in> set ts \<Longrightarrow> a < m"
  shows "takeWhile (\<lambda>e. e < (now :: Timestamp, m :: nat)) ts = filter (\<lambda>(e, a). e \<le> now) ts"
    and "dropWhile (\<lambda>e. e < (now, m)) ts = filter (\<lambda>(e, a). \<not> e \<le> now) ts"
proof -
  have "x < (now, m) \<longleftrightarrow> (case x of (e, a) \<Rightarrow> e \<le> now)" if "x \<in> set ts" for x
    using assms(2) [of "fst x" "snd x"] that by (cases x) (auto simp: less_prod_def)
  then show "takeWhile (\<lambda>e. e < (now, m)) ts = filter (\<lambda>(e, a). e \<le> now) ts"
    and "dropWhile (\<lambda>e. e < (now, m)) ts = filter (\<lambda>(e, a). \<not> e \<le> now) ts"
    using sorted_cut [OF assms(1)] by (auto intro!: filter_cong)
qed

lemma erase_active_Inr:
  "snd ` set es \<subseteq> dom (tq_heap q) \<Longrightarrow>
   erase_active es q = Inr (q\<lparr>tq_active := tq_active q - (\<lambda>a. (a, ti_sequence (the (tq_heap q a)))) ` snd ` set es\<rparr>)"
proof (induction es arbitrary: q)
  case (Cons x es)
  obtain e a t where x: "x = (e, a)" and t: "tq_heap q a = Some t" using Cons.prems by (cases x) auto
  have "snd ` set es \<subseteq> dom (tq_heap (q\<lparr>tq_active := tq_active q - {(a, ti_sequence t)}\<rparr>))"
    using Cons.prems by auto
  from Cons.IH [OF this] show ?case unfolding x by (simp add: deref_def t Diff_insert2 [symmetric])
qed simp

abbreviation expired_at :: "Timestamp \<Rightarrow> ('cb, 'z) timer_queue_scheme \<Rightarrow> (Timestamp \<times> nat) list" where
  "expired_at now q \<equiv> filter (\<lambda>(e, a). e \<le> now) (tq_timers q)"

lemma GetExpired_Inr:
  assumes inv: "tq_inv E q"
  shows "\<exists>q'. GetExpired now q = Inr (expired_at now q, q')
    \<and> tq_inv (E \<union> snd ` set (expired_at now q)) q'
    \<and> tq_timers q' = filter (\<lambda>(e, a). \<not> e \<le> now) (tq_timers q)
    \<and> tq_heap q' = tq_heap q \<and> tq_queued q' = tq_queued q \<and> tq_loop_tid q' = tq_loop_tid q
    \<and> tq_num_created q' = tq_num_created q \<and> tq_calling q' = tq_calling q"
proof -
  define late where "late = filter (\<lambda>(e, a). \<not> e \<le> now) (tq_timers q)"
  define act where "act = tq_active q - (\<lambda>a. (a, ti_sequence (the (tq_heap q a)))) ` snd ` set (expired_at now q)"
  have dom: "scheduled q \<subseteq> dom (tq_heap q)" using tq_invD(5) [OF inv] by auto
  have small: "a < UINTPTR_MAX" if "(e, a) \<in> set (tq_timers q)" for e a
    using tq_invD(12) [OF inv, of a] tq_invD(3) [OF inv that] by auto
  note cut = cut_sentinel [OF tq_invD(1) [OF inv] small]
  have split: "scheduled q = snd ` set late \<union> snd ` set (expired_at now q)"
    by (force simp: late_def)
  have disj: "snd ` set late \<inter> snd ` set (expired_at now q) = {}"
    using tq_invD(2) [OF inv] by (auto simp: late_def distinct_map inj_on_def)
  have act: "act = (\<lambda>a. (a, ti_sequence (the (tq_heap q a)))) ` snd ` set late"
  proof -
    have "snd ` set late = scheduled q - snd ` set (expired_at now q)" using split disj by blast
    then show ?thesis using tq_invD(4) [OF inv] by (simp add: act_def image_set_diff [symmetric] inj_on_def)
  qed
  define q' where "q' = q\<lparr>tq_active := act, tq_timers := late\<rparr>"
  have "snd ` set (expired_at now q) \<subseteq> dom (tq_heap q)" using dom by auto
  then have "GetExpired now q = Inr (expired_at now q, q')"
    using cut by (simp add: GetExpired_def erase_active_Inr Let_def q'_def late_def act_def)
  moreover have "tq_inv (E \<union> snd ` set (expired_at now q)) q'"
  proof (rule tq_invI, goal_cases)
    case 1 then show ?case using tq_invD(1) [OF inv] by (simp add: q'_def late_def sorted_wrt_filter)
  next
    case 2 then show ?case using tq_invD(2) [OF inv] by (simp add: q'_def late_def distinct_map_filter)
  next
    case (3 e a) then show ?case using tq_invD(3) [OF inv] by (simp add: q'_def late_def)
  next
    case 4 then show ?case using act by (simp add: q'_def)
  next
    case 5 then show ?case using tq_invD(5) [OF inv] split by (auto simp: q'_def)
  next
    case 6 then show ?case using tq_invD(6) [OF inv] split by (auto simp: q'_def)
  next
    case 7 then show ?case using tq_invD(7) [OF inv] split disj by (auto simp: q'_def)
  next
    case 8 then show ?case using tq_invD(6,8) [OF inv] split by (auto simp: q'_def)
  qed (use tq_invD [OF inv] in \<open>simp_all add: q'_def\<close>)
  ultimately show ?thesis by (auto simp: q'_def late_def)
qed

section \<open>Callbacks\<close>

text \<open>A callback may only use the queue's interface (and other threads use it meanwhile).\<close>

definition calls_only :: "('cb \<Rightarrow> ('cb, 'z) timer_queue_scheme \<Rightarrow> ('cb, 'z) timer_queue_scheme) \<Rightarrow> bool" where
  "calls_only run \<longleftrightarrow> (\<forall>cb q. tq_call\<^sup>*\<^sup>* q (run cb q))"

abbreviation callbacks_of :: "('cb, 'z) timer_queue_scheme \<Rightarrow> (Timestamp \<times> nat) list \<Rightarrow> 'cb list" where
  "callbacks_of q es \<equiv> map (\<lambda>(e, a). ti_callback (the (tq_heap q a))) es"

lemma calls_only_fold: "calls_only run \<Longrightarrow> tq_call\<^sup>*\<^sup>* q (fold run cbs q)"
proof (induction cbs arbitrary: q)
  case (Cons cb cbs)
  then have "tq_call\<^sup>*\<^sup>* q (run cb q)" "tq_call\<^sup>*\<^sup>* (run cb q) (fold run cbs (run cb q))"
    by (auto simp: calls_only_def)
  then show ?case by simp
qed simp

lemma run_expired_Inr:
  assumes "calls_only run" and "tq_inv E q" and "snd ` set es \<subseteq> E"
  shows "run_expired run es q = Inr (fold run (callbacks_of q es) q)"
  using assms(2,3)
proof (induction es arbitrary: q)
  case (Cons x es)
  obtain e a where x: "x = (e, a)" by (cases x)
  obtain t where t: "tq_heap q a = Some t" using tq_inv_held [OF Cons.prems(1), of a] Cons.prems(2) x by auto
  define q1 where "q1 = run (ti_callback t) q"
  have "tq_call\<^sup>*\<^sup>* q q1" using assms(1) by (simp add: calls_only_def q1_def)
  note q1 = tq_calls_frame [OF Cons.prems(1) this]
  have same: "tq_heap q1 b = tq_heap q b" if "b \<in> E" for b
    using q1(2) tq_invD(5) [OF Cons.prems(1)] that by (auto simp: calls_frame_def map_le_def)
  have cbs: "callbacks_of q1 es = callbacks_of q es" using Cons.prems(2) same by (force intro!: map_cong)
  have "run_expired run es q1 = Inr (fold run (callbacks_of q es) q1)"
    using Cons.IH [OF q1(1)] Cons.prems(2) unfolding cbs by simp
  then show ?case unfolding x by (simp add: deref_def t q1_def)
qed simp

section \<open>Rescheduling\<close>

definition heap_after_reset :: "Timestamp \<Rightarrow> nat set \<Rightarrow> (nat \<rightharpoonup> 'cb timer) \<Rightarrow> (nat \<rightharpoonup> 'cb timer)" where
  "heap_after_reset now A h = (\<lambda>b. if b \<in> A
     then (case h b of Some t \<Rightarrow> if ti_repeat t then Some (Timer_Reset now t) else None | None \<Rightarrow> None)
     else h b)"

lemma reset_each_Inr:
  assumes "tq_inv (E \<union> snd ` set es) q" and "distinct (map snd es)" and "E \<inter> snd ` set es = {}"
    and "tid = tq_loop_tid q"
  shows "\<exists>q'. reset_each tid now es q = Inr q' \<and> tq_inv E q'
    \<and> tq_heap q' = heap_after_reset now (snd ` set es) (tq_heap q)
    \<and> tq_loop_tid q' = tq_loop_tid q \<and> tq_queued q' = tq_queued q
    \<and> tq_num_created q' = tq_num_created q \<and> set (tq_timers q) \<subseteq> set (tq_timers q')"
  using assms
proof (induction es arbitrary: q)
  case Nil
  then show ?case by (simp add: heap_after_reset_def)
next
  case (Cons x es)
  obtain e a where x: "x = (e, a)" by (cases x)
  define F where "F = E \<union> snd ` set es"
  have inv: "tq_inv (insert a F) q" and a: "a \<notin> F" "a \<notin> E"
    using Cons.prems(1-3) by (auto simp: x F_def)
  have es: "distinct (map snd es)" "E \<inter> snd ` set es = {}" using Cons.prems(2,3) by auto
  obtain t where t: "tq_heap q a = Some t" using tq_inv_held [OF inv, of a] by auto
  show ?case
  proof (cases "ti_repeat t")
    case True
    define q1 where "q1 = q\<lparr>tq_heap := (tq_heap q)(a \<mapsto> Timer_Reset now t)\<rparr>"
    have q1: "tq_inv (insert a F) q1" "tq_heap q1 a = Some (Timer_Reset now t)" "tid = tq_loop_tid q1"
      using tq_inv_update [OF inv] Cons.prems(4) by (simp_all add: q1_def)
    note ins = tq_insert_Inr [OF q1(1) a(1) q1(3,2)]
    note IH = Cons.IH [OF ins(2) [unfolded F_def] es]
    have "reset_each tid now (x # es) q = bindE (tq_insert tid a q1) (\<lambda>(_, q2). reset_each tid now es q2)"
      using True t tq_invD(11) [OF inv] by (simp add: x deref_def q1_def)
    with IH ins(1) Cons.prems(4) show ?thesis
      using True t a(1) by (auto simp: q1_def x F_def heap_after_reset_def set_insort_key intro!: ext)
  next
    case False
    note IH = Cons.IH [OF tq_inv_free [OF inv a(1), unfolded F_def] es]
    have "reset_each tid now (x # es) q = reset_each tid now es (delete_timer a q)"
      using False t by (simp add: x deref_def)
    with IH Cons.prems(4) show ?thesis
      using False t a(1) by (auto simp: delete_timer_def x F_def heap_after_reset_def intro!: ext)
  qed
qed

section \<open>The whole handler\<close>

lemma HandleRead_Inr:
  assumes run: "calls_only run" and inv: "tq_inv {} q" and tid: "tid = tq_loop_tid q"
  shows "\<exists>q1 q2 q'. GetExpired now q = Inr (expired_at now q, q1)
    \<and> q2 = fold run (callbacks_of q (expired_at now q)) (q1\<lparr>tq_calling := True\<rparr>)
    \<and> tq_call\<^sup>*\<^sup>* (q1\<lparr>tq_calling := True\<rparr>) q2
    \<and> HandleRead run tid now now2 q = bindE (TimerQueue_Reset tid now2 (expired_at now q) now q2)
         (\<lambda>q3. Inr (q3\<lparr>tq_calling := False\<rparr>))
    \<and> HandleRead run tid now now2 q = Inr q' \<and> tq_inv {} q' \<and> tq_armed q' \<and> \<not> tq_calling q'
    \<and> tq_loop_tid q' = tq_loop_tid q \<and> tq_queued q' = tq_queued q2
    \<and> tq_num_created q' = tq_num_created q2
    \<and> tq_heap q' = heap_after_reset now (snd ` set (expired_at now q)) (tq_heap q2)
    \<and> tq_heap q1 = tq_heap q \<and> tq_num_created q1 = tq_num_created q
    \<and> tq_heap q \<subseteq>\<^sub>m tq_heap q2 \<and> tq_inv (snd ` set (expired_at now q)) q2
    \<and> set (filter (\<lambda>(e, a). \<not> e \<le> now) (tq_timers q)) \<subseteq> set (tq_timers q')"
proof -
  let ?es = "expired_at now q"
  obtain q1 where q1: "GetExpired now q = Inr (?es, q1)" "tq_inv (snd ` set ?es) q1"
      "tq_heap q1 = tq_heap q" "tq_loop_tid q1 = tq_loop_tid q" "tq_num_created q1 = tq_num_created q"
      "tq_timers q1 = filter (\<lambda>(e, a). \<not> e \<le> now) (tq_timers q)"
    using GetExpired_Inr [OF inv, of now] by auto
  define q1c where "q1c = q1\<lparr>tq_calling := True\<rparr>"
  have inv1: "tq_inv (snd ` set ?es) q1c" using q1(2) by (simp add: q1c_def)
  define q2 where "q2 = fold run (callbacks_of q ?es) q1c"
  have runs: "run_expired run ?es q1c = Inr q2"
    using run_expired_Inr [OF run inv1 subset_refl] q1(3) by (simp add: q1c_def q2_def)
  have calls: "tq_call\<^sup>*\<^sup>* q1c q2" unfolding q2_def by (rule calls_only_fold [OF run])
  note q2 = tq_calls_frame [OF inv1 calls]
  have tid2: "tq_loop_tid q2 = tq_loop_tid q" using q2(2) q1(4) by (simp add: calls_frame_def q1c_def)
  have "distinct (map snd ?es)" using tq_invD(2) [OF inv] by (simp add: distinct_map_filter)
  then obtain q3 where q3: "reset_each tid now ?es q2 = Inr q3" "tq_inv {} q3"
      "tq_heap q3 = heap_after_reset now (snd ` set ?es) (tq_heap q2)" "tq_loop_tid q3 = tq_loop_tid q2"
      "tq_queued q3 = tq_queued q2" "tq_num_created q3 = tq_num_created q2"
      "set (tq_timers q2) \<subseteq> set (tq_timers q3)"
    using reset_each_Inr [of "{}" ?es q2 tid now] q2(1) tid tid2 by auto
  have canc: "tq_cancelling q3 = {}" by (rule tq_invD(11) [OF q3(2)])
  then have canc3: "q3\<lparr>tq_cancelling := {}\<rparr> = q3" by (cases q3) simp
  define q4 where "q4 = (if tq_timers q3 \<noteq> [] then ResetTimerFd now2 (fst (hd (tq_timers q3))) q3 else q3)"
  define q' where "q' = q4\<lparr>tq_calling := False\<rparr>"
  have frame: "tq_heap q' = tq_heap q3" "tq_loop_tid q' = tq_loop_tid q3" "tq_queued q' = tq_queued q3"
    "tq_num_created q' = tq_num_created q3" "tq_timers q' = tq_timers q3" "\<not> tq_calling q'"
    by (simp_all add: q'_def q4_def ResetTimerFd_def)
  have unfolded: "HandleRead run tid now now2 q =
      bindE (TimerQueue_Reset tid now2 ?es now q2) (\<lambda>q3. Inr (q3\<lparr>tq_calling := False\<rparr>))"
    using q1(1) runs tid by (simp add: HandleRead_def tq_assert_loop_def q1c_def [symmetric])
  then have "HandleRead run tid now now2 q = Inr q'"
    using q3(1) by (simp add: TimerQueue_Reset_def Let_def canc3 q4_def q'_def)
  moreover have "tq_armed q'" by (simp add: tq_armed_def q'_def q4_def ResetTimerFd_def)
  moreover have "tq_inv {} q'" using q3(2) by (simp add: q'_def q4_def)
  moreover have "tq_heap q \<subseteq>\<^sub>m tq_heap q2" using q2(2) q1(3) by (simp add: calls_frame_def q1c_def)
  moreover have "set (tq_timers q1) \<subseteq> set (tq_timers q')"
    using q2(2) q3(7) frame(5) by (auto simp: calls_frame_def q1c_def)
  ultimately show ?thesis
    using q1(1,3,5,6) q2(1) calls q3(3-7) tid2 q2_def unfolded unfolding frame(1-5) [symmetric] q1c_def
    by (intro exI [of _ q1] exI [of _ q2] exI [of _ q'] conjI frame(6)) simp_all
qed

text \<open>
  What the queue's own work, as opposed to the callbacks, leaves alone: the owner, the queued
  tasks and whatever a layer above has added to the record.
\<close>

definition tq_outer :: "('cb, 'z) timer_queue_scheme \<Rightarrow> int \<times> timer_task list \<times> 'z" where
  "tq_outer q = (tq_loop_tid q, tq_queued q, timer_queue.more q)"

lemma tq_outer_fields [simp]:
  "tq_outer (q\<lparr>tq_timers := x\<rparr>) = tq_outer q" "tq_outer (q\<lparr>tq_active := y\<rparr>) = tq_outer q"
  "tq_outer (q\<lparr>tq_calling := b\<rparr>) = tq_outer q" "tq_outer (q\<lparr>tq_cancelling := y\<rparr>) = tq_outer q"
  "tq_outer (q\<lparr>tq_heap := h\<rparr>) = tq_outer q" "tq_outer (q\<lparr>tq_timerfd := f\<rparr>) = tq_outer q"
  "tq_outer (q\<lparr>tq_num_created := n\<rparr>) = tq_outer q" "tq_outer (delete_timer a q) = tq_outer q"
  "tq_outer (ResetTimerFd t1 t2 q) = tq_outer q" "tq_outer (StopTimerFd q) = tq_outer q"
  by (simp_all add: tq_outer_def delete_timer_def ResetTimerFd_def StopTimerFd_def)

lemma erase_active_outer: "erase_active es q = Inr q' \<Longrightarrow> tq_outer q' = tq_outer q"
proof (induction es arbitrary: q)
  case (Cons x es)
  then show ?case by (cases x) (auto simp: bindE_Inr_iff dest: Cons.IH)
qed simp

lemma tq_insert_outer: "tq_insert tid a q = Inr (b, q') \<Longrightarrow> tq_outer q' = tq_outer q"
  by (auto simp: tq_insert_def Let_def bindE_Inr_iff)

lemma reset_each_outer: "reset_each tid now es q = Inr q' \<Longrightarrow> tq_outer q' = tq_outer q"
proof (induction es arbitrary: q)
  case (Cons x es)
  then show ?case
    by (cases x) (auto simp: bindE_Inr_iff split: if_splits dest: Cons.IH tq_insert_outer)
qed simp

lemma AddTimeInLoop_outer: "AddTimeInLoop tid now w a q = Inr q' \<Longrightarrow> tq_outer q' = tq_outer q"
  by (auto simp: AddTimeInLoop_def bindE_Inr_iff dest: tq_insert_outer)

lemma CancelTimerInLoop_outer: "CancelTimerInLoop tid now i q = Inr q' \<Longrightarrow> tq_outer q' = tq_outer q"
  by (auto simp: CancelTimerInLoop_def Let_def bindE_Inr_iff split: if_splits)

lemma run_task_outer: "run_task tid now t q = Inr q' \<Longrightarrow> tq_outer q' = tq_outer q"
  by (cases t) (auto simp: run_task_def dest: AddTimeInLoop_outer CancelTimerInLoop_outer)

lemma GetExpired_outer: "GetExpired now q = Inr (es, q') \<Longrightarrow> tq_outer q' = tq_outer q"
  by (auto simp: GetExpired_def Let_def bindE_Inr_iff dest: erase_active_outer)

lemma TimerQueue_Reset_outer: "TimerQueue_Reset tid now2 es now q = Inr q' \<Longrightarrow> tq_outer q' = tq_outer q"
  by (auto simp: TimerQueue_Reset_def Let_def bindE_Inr_iff split: if_splits dest: reset_each_outer)

section \<open>Cancellation\<close>

lemma hd_remove1_other:
  "ts \<noteq> [] \<Longrightarrow> snd (hd ts) \<noteq> a \<Longrightarrow> hd (remove1 (e, a) ts) = hd ts"
  by (cases ts) auto

text \<open>Taking a scheduled timer out of both sets and deleting it.\<close>

definition unschedule :: "nat \<Rightarrow> 'cb timer \<Rightarrow> ('cb, 'z) timer_queue_scheme \<Rightarrow> ('cb, 'z) timer_queue_scheme" where
  "unschedule a t q = (delete_timer a (q\<lparr>tq_timers := remove1 (ti_expiration t, a) (tq_timers q)\<rparr>))
                             \<lparr>tq_active := tq_active q - {(a, ti_sequence t)}\<rparr>"

lemma unschedule_simps [simp]:
  "tq_timers (unschedule a t q) = remove1 (ti_expiration t, a) (tq_timers q)"
  "tq_active (unschedule a t q) = tq_active q - {(a, ti_sequence t)}"
  "tq_heap (unschedule a t q) = (tq_heap q)(a := None)"
  "tq_queued (unschedule a t q) = tq_queued q" "tq_loop_tid (unschedule a t q) = tq_loop_tid q"
  "tq_num_created (unschedule a t q) = tq_num_created q" "tq_calling (unschedule a t q) = tq_calling q"
  "tq_timerfd (unschedule a t q) = tq_timerfd q" "tq_cancelling (unschedule a t q) = tq_cancelling q"
  by (simp_all add: unschedule_def delete_timer_def)

lemma unschedule_inv:
  assumes inv: "tq_inv E q" and sch: "(ti_expiration t, a) \<in> set (tq_timers q)" and t: "tq_heap q a = Some t"
  shows "set (tq_timers (unschedule a t q)) = set (tq_timers q) - {(ti_expiration t, a)}"
    and "tq_inv E (unschedule a t q)"
proof -
  let ?q = "unschedule a t q"
  have inj: "inj_on snd (set (tq_timers q))" and dist: "distinct (tq_timers q)"
    using tq_invD(2) [OF inv] by (simp_all add: distinct_map)
  show ts: "set (tq_timers ?q) = set (tq_timers q) - {(ti_expiration t, a)}"
    using dist by simp
  have sch1: "scheduled ?q = scheduled q - {a}"
    unfolding ts using inj_on_image_set_diff [OF inj, of "set (tq_timers q)" "{(ti_expiration t, a)}"] sch by simp
  have fresh: "a \<in> scheduled q" "a \<notin> adds q" "a \<notin> E" using sch tq_invD(6,7) [OF inv] by force+
  show "tq_inv E ?q"
  proof (rule tq_invI, goal_cases)
    case 1 then show ?case using tq_invD(1) [OF inv] by (simp add: sorted_remove1)
  next
    case 2
    have "inj_on snd (set (tq_timers ?q))" unfolding ts using inj by (rule inj_on_subset) blast
    then show ?case using dist by (simp add: distinct_map)
  next
    case (3 e' b)
    then have "b \<noteq> a" using sch1 by force
    with 3 show ?case using tq_invD(3) [OF inv, of e' b] ts by simp
  next
    case 4
    have "tq_active ?q = (\<lambda>b. (b, ti_sequence (the (tq_heap q b)))) ` (scheduled q - {a})"
      using tq_invD(4) [OF inv] t by auto
    then show ?case unfolding sch1 by auto
  next
    case 5 then show ?case unfolding sch1 using tq_invD(5) [OF inv] fresh by auto
  next
    case (10 e' b)
    then have "b \<noteq> a" using fresh(2) AddTask_queued [of e' b] by auto
    with 10 show ?case using tq_invD(10) [OF inv, of e' b] by simp
  next
    case (12 b) then show ?case using tq_invD(12) [OF inv, of b] by auto
  qed (use tq_invD(6-12) [OF inv] in \<open>(unfold sch1)?, auto\<close>)
qed

lemma CancelTimerInLoop_Inr:
  assumes inv: "tq_inv E q" and tid: "tid = tq_loop_tid q" and act: "(a, n) \<in> tq_active q"
  shows "\<exists>t q'. tq_heap q a = Some t \<and> ti_sequence t = n
    \<and> CancelTimerInLoop tid now (a, n) q = Inr q' \<and> tq_inv E q' \<and> (tq_armed q \<longrightarrow> tq_armed q')
    \<and> tq_heap q' = (tq_heap q)(a := None)
    \<and> set (tq_timers q') = set (tq_timers q) - {(ti_expiration t, a)}
    \<and> tq_active q' = tq_active q - {(a, n)} \<and> tq_queued q' = tq_queued q
    \<and> tq_loop_tid q' = tq_loop_tid q \<and> tq_num_created q' = tq_num_created q
    \<and> tq_calling q' = tq_calling q"
proof -
  obtain x where "x \<in> set (tq_timers q)" "(a, n) = (snd x, ti_sequence (the (tq_heap q (snd x))))"
    using act tq_invD(4) [OF inv] by auto
  moreover then obtain t where t: "tq_heap q a = Some t" "ti_expiration t = fst x"
    using tq_invD(3) [OF inv, of "fst x" a] by auto
  ultimately have sch: "(ti_expiration t, a) \<in> set (tq_timers q)" and n: "ti_sequence t = n"
    by (cases x; simp)+
  note un = unschedule_inv [OF inv sch t(1)]
  define q1 where "q1 = unschedule a t q"
  define q' where "q' = (if snd (hd (tq_timers q)) = a
     then (if tq_timers q1 \<noteq> [] then ResetTimerFd now (fst (hd (tq_timers q1))) q1 else StopTimerFd q1) else q1)"
  have "CancelTimerInLoop tid now (a, n) q = Inr q'"
    using tid act t(1) sch n
    by (auto simp: CancelTimerInLoop_def tq_assert_loop_def deref_def q1_def unschedule_def q'_def Let_def)
  moreover have "tq_inv E q'" using un(2) by (simp add: q1_def q'_def)
  moreover have "tq_timers q \<noteq> []" using sch by auto
  then have "tq_armed q \<longrightarrow> tq_armed q'"
    using hd_remove1_other [of "tq_timers q" a "ti_expiration t"]
    by (auto simp: tq_armed_def q'_def q1_def ResetTimerFd_def StopTimerFd_def)
  moreover have "tq_timers q' = tq_timers q1" "tq_heap q' = tq_heap q1" "tq_active q' = tq_active q1"
    "tq_queued q' = tq_queued q1" "tq_loop_tid q' = tq_loop_tid q1" "tq_num_created q' = tq_num_created q1"
    "tq_calling q' = tq_calling q1"
    by (simp_all add: q'_def ResetTimerFd_def StopTimerFd_def)
  ultimately show ?thesis using t(1) n un(1) by (simp add: q1_def)
qed

lemma CancelTimerInLoop_stale:
  assumes "tid = tq_loop_tid q" and "i \<notin> tq_active q" and "\<not> tq_calling q"
  shows "CancelTimerInLoop tid now i q = Inr q"
  using assms by (simp add: CancelTimerInLoop_def tq_assert_loop_def)

section \<open>Timer identities\<close>

text \<open>
  Sequence numbers are never reused: from one state to a later one, every live timer is one that
  was live before or carries a number issued in between.
\<close>

definition ids_step :: "('cb, 'z) timer_queue_scheme \<Rightarrow> ('cb, 'z) timer_queue_scheme \<Rightarrow> bool" where
  "ids_step q q' \<longleftrightarrow> tq_num_created q \<le> tq_num_created q'
     \<and> (\<forall>a t'. tq_heap q' a = Some t' \<longrightarrow>
          (\<exists>t. tq_heap q a = Some t \<and> ti_sequence t = ti_sequence t')
        \<or> (tq_num_created q \<le> ti_sequence t' \<and> ti_sequence t' < tq_num_created q'))"

lemma ids_step_refl: "reflp ids_step"
  by (auto simp: reflp_def ids_step_def)

lemma ids_stepD:
  assumes "ids_step q q'" and "tq_heap q' a = Some t'"
  obtains t where "tq_heap q a = Some t" "ti_sequence t = ti_sequence t'"
  | "tq_num_created q \<le> ti_sequence t'" "ti_sequence t' < tq_num_created q'"
  using assms by (auto simp: ids_step_def)

lemma ids_step_mono: "ids_step q q' \<Longrightarrow> tq_num_created q \<le> tq_num_created q'"
  by (simp add: ids_step_def)

lemma ids_step_trans:
  assumes "ids_step q q1" and "ids_step q1 q2"
  shows "ids_step q q2"
proof -
  note mono = ids_step_mono [OF assms(1)] ids_step_mono [OF assms(2)]
  have "(\<exists>t. tq_heap q a = Some t \<and> ti_sequence t = ti_sequence t')
      \<or> (tq_num_created q \<le> ti_sequence t' \<and> ti_sequence t' < tq_num_created q2)"
    if "tq_heap q2 a = Some t'" for a t'
  proof (rule ids_stepD [OF assms(2) that])
    fix t assume t: "tq_heap q1 a = Some t" "ti_sequence t = ti_sequence t'"
    then show ?thesis by (elim ids_stepD [OF assms(1)]) (use t(2) mono in auto)
  qed (use mono in auto)
  then show ?thesis using mono by (simp add: ids_step_def)
qed

lemma ids_step_transp: "transp ids_step"
  by (rule transpI) (rule ids_step_trans)

lemma ids_step_heap:
  "tq_num_created q' = tq_num_created q \<Longrightarrow> tq_heap q' \<subseteq>\<^sub>m tq_heap q \<Longrightarrow> ids_step q q'"
  by (auto simp: ids_step_def map_le_def dom_def)

lemma ids_step_call: "tq_inv E q \<Longrightarrow> tq_call q q' \<Longrightarrow> ids_step q q'"
proof (erule tq_call.cases, goal_cases)
  case (1 q a now w cb interval i q')
  then show ?case
    using AddTimer_Inr [of E q a "tq_loop_tid q" now w cb interval] by (auto simp: ids_step_def new_Timer_def)
next
  case (2 tid q a now w cb interval q')
  then show ?case
    using AddTimer_Inr [of E q a tid now w cb interval] hand_over_Inr [of E q a tid now w cb interval q']
    by (auto simp: ids_step_def new_Timer_def)
next
  case (3 q i)
  then show ?case by (auto simp: ids_step_def CancelTimer_def)
next
  case (4 q f)
  then show ?case by (auto simp: ids_step_def)
qed

lemma ids_step_calls: "tq_inv E q \<Longrightarrow> tq_call\<^sup>*\<^sup>* q q' \<Longrightarrow> ids_step q q'"
  using tqc.steps_rel [of q q' E, OF _ _ ids_step_refl ids_step_transp] ids_step_call by blast

lemma ids_step_reset:
  "tq_num_created q' = tq_num_created q \<Longrightarrow> tq_heap q' = heap_after_reset now A (tq_heap q) \<Longrightarrow> ids_step q q'"
  by (auto simp: ids_step_def heap_after_reset_def Timer_Reset_def split: if_splits option.splits)

lemma ids_step_HandleRead:
  assumes "calls_only run" and "tq_inv {} q" and "tid = tq_loop_tid q"
    and "HandleRead run tid now now2 q = Inr q'"
  shows "ids_step q q'"
proof -
  obtain q1 q2 where *: "GetExpired now q = Inr (expired_at now q, q1)"
      "tq_call\<^sup>*\<^sup>* (q1\<lparr>tq_calling := True\<rparr>) q2" "tq_num_created q' = tq_num_created q2"
      "tq_heap q' = heap_after_reset now (snd ` set (expired_at now q)) (tq_heap q2)"
      "tq_heap q1 = tq_heap q" "tq_num_created q1 = tq_num_created q"
    using HandleRead_Inr [OF assms(1-3), of now now2] assms(4) by auto
  have inv1: "tq_inv (snd ` set (expired_at now q)) (q1\<lparr>tq_calling := True\<rparr>)"
    using GetExpired_Inr [OF assms(2), of now] *(1) by simp
  have "ids_step q (q1\<lparr>tq_calling := True\<rparr>)" by (rule ids_step_heap) (simp_all add: *(5,6))
  then show ?thesis
    using ids_step_trans ids_step_calls [OF inv1 *(2)] ids_step_reset [OF *(3,4)] by blast
qed

text \<open>Every number in use was issued; an identity is spent once its timer is gone.\<close>

definition issued :: "('cb, 'z) timer_queue_scheme \<Rightarrow> bool" where
  "issued q \<longleftrightarrow> (\<forall>a t. tq_heap q a = Some t \<longrightarrow> ti_sequence t < tq_num_created q)"

definition spent :: "timer_id \<Rightarrow> ('cb, 'z) timer_queue_scheme \<Rightarrow> bool" where
  "spent i q \<longleftrightarrow> snd i < tq_num_created q \<and> (\<forall>t. tq_heap q (fst i) = Some t \<longrightarrow> ti_sequence t \<noteq> snd i)"

lemma issued_step: "issued q \<Longrightarrow> ids_step q q' \<Longrightarrow> issued q'"
proof (unfold issued_def, intro allI impI)
  fix a t assume q: "\<forall>a t. tq_heap q a = Some t \<longrightarrow> ti_sequence t < tq_num_created q"
    and ids: "ids_step q q'" and t: "tq_heap q' a = Some t"
  from ids t show "ti_sequence t < tq_num_created q'"
    by (rule ids_stepD) (use q ids_step_mono [OF ids] in force)+
qed

lemma spent_step: "spent i q \<Longrightarrow> ids_step q q' \<Longrightarrow> spent i q'"
  using ids_step_mono [of q q'] by (auto simp: spent_def elim!: ids_stepD)

lemma spent_inactive: "tq_inv E q \<Longrightarrow> spent i q \<Longrightarrow> i \<notin> tq_active q"
proof
  assume inv: "tq_inv E q" and i: "spent i q" "i \<in> tq_active q"
  then obtain x where x: "x \<in> set (tq_timers q)" "i = (snd x, ti_sequence (the (tq_heap q (snd x))))"
    using tq_invD(4) [OF inv] by auto
  then obtain t where "tq_heap q (snd x) = Some t" using tq_invD(3) [OF inv, of "fst x" "snd x"] by auto
  with i(1) x(2) show False by (simp add: spent_def)
qed

section \<open>The queue as a state machine\<close>

text \<open>
  Steps of the owner loop (a timer tick, the next queued task) and calls of the interface, in any
  order. Clock readings and allocated addresses are arbitrary.
\<close>

inductive tq_step :: "('cb \<Rightarrow> ('cb, 'z) timer_queue_scheme \<Rightarrow> ('cb, 'z) timer_queue_scheme) \<Rightarrow> ('cb, 'z) timer_queue_scheme \<Rightarrow> ('cb, 'z) timer_queue_scheme \<Rightarrow> bool"
  for run where
  step_call: "tq_call q q' \<Longrightarrow> tq_step run q q'"
| step_tick: "HandleRead run (tq_loop_tid q) now now2 q = Inr q' \<Longrightarrow> tq_step run q q'"
| step_task: "run_queued (tq_loop_tid q) now q = Inr q' \<Longrightarrow> tq_step run q q'"

definition tq_good :: "int \<Rightarrow> ('cb, 'z) timer_queue_scheme \<Rightarrow> bool" where
  "tq_good tid q \<longleftrightarrow> tq_inv {} q \<and> tq_armed q \<and> \<not> tq_calling q \<and> issued q \<and> tq_loop_tid q = tid"

lemma tq_good_new: "tq_good tid (new_TimerQueue tid)"
  by (simp add: tq_good_def new_TimerQueue_def tq_inv_def tq_armed_def issued_def)

lemma run_queued_Inr:
  assumes "tq_good tid q"
  shows "\<exists>q'. run_queued tid now q = Inr q' \<and> tq_good tid q'
    \<and> tq_queued q' = tl (tq_queued q) \<and> tq_num_created q' = tq_num_created q \<and> tq_heap q' \<subseteq>\<^sub>m tq_heap q"
proof (cases "tq_queued q")
  case Nil
  with assms show ?thesis by (simp add: run_queued_def)
next
  case (Cons task rest)
  let ?q = "q\<lparr>tq_queued := rest\<rparr>"
  have inv: "tq_inv {} q" and tid: "tid = tq_loop_tid ?q" and good: "tq_armed q" "\<not> tq_calling q" "tq_loop_tid q = tid" "issued q"
    using assms by (simp_all add: tq_good_def)
  have armed: "tq_armed ?q = tq_armed q" by (simp add: tq_armed_def)
  show ?thesis
  proof (cases task)
    case (AddTask w a)
    obtain t where t: "tq_inv {a} ?q" "tq_heap ?q a = Some t" "ti_expiration t = w"
      using tq_inv_dequeue_add [OF inv Cons [unfolded AddTask]] by auto
    obtain q' where "AddTimeInLoop tid now w a ?q = Inr q'" "tq_inv {} q'" "tq_armed ?q \<longrightarrow> tq_armed q'"
      "tq_heap q' = tq_heap ?q" "tq_num_created q' = tq_num_created ?q" "tq_queued q' = tq_queued ?q"
      "tq_loop_tid q' = tq_loop_tid ?q" "tq_calling q' = tq_calling ?q"
      using AddTimeInLoop_Inr [OF t(1) _ tid t(2,3), of now] by blast
    with good armed show ?thesis
      by (simp add: run_queued_def run_task_def Cons AddTask tq_good_def issued_def)
  next
    case (CancelTask i)
    have inv': "tq_inv {} ?q" by (rule tq_inv_dequeue_cancel [OF inv Cons [unfolded CancelTask]])
    show ?thesis
    proof (cases "i \<in> tq_active ?q")
      case True
      obtain a n where i: "i = (a, n)" by (cases i)
      obtain q' where "CancelTimerInLoop tid now i ?q = Inr q'" "tq_inv {} q'" "tq_armed ?q \<longrightarrow> tq_armed q'"
        "tq_heap q' = (tq_heap ?q)(a := None)" "tq_num_created q' = tq_num_created ?q"
        "tq_queued q' = tq_queued ?q" "tq_loop_tid q' = tq_loop_tid ?q" "tq_calling q' = tq_calling ?q"
        using CancelTimerInLoop_Inr [OF inv' tid True [unfolded i], of now] unfolding i by blast
      with good armed show ?thesis
        by (simp add: run_queued_def run_task_def Cons CancelTask tq_good_def map_le_def issued_def)
    next
      case False
      then show ?thesis
        using CancelTimerInLoop_stale [OF tid False, of now] good armed inv'
        by (simp add: run_queued_def run_task_def Cons CancelTask tq_good_def issued_def)
    qed
  qed
qed

lemma tq_step_ids:
  assumes "calls_only run" and "tq_good tid q" and "tq_step run q q'"
  shows "ids_step q q'"
  using assms(3)
proof cases
  case step_call
  then show ?thesis using ids_step_call assms(2) by (auto simp: tq_good_def)
next
  case (step_tick now now2)
  then show ?thesis using ids_step_HandleRead [OF assms(1)] assms(2) by (auto simp: tq_good_def)
next
  case (step_task now)
  then show ?thesis
    using run_queued_Inr [OF assms(2), of now] assms(2) by (auto simp: tq_good_def intro: ids_step_heap)
qed

lemma tq_step_good:
  assumes "calls_only run" and "tq_good tid q" and "tq_step run q q'"
  shows "tq_good tid q'"
proof -
  have "issued q'" using issued_step tq_step_ids [OF assms] assms(2) by (auto simp: tq_good_def)
  with assms(3) show ?thesis
  proof cases
    case step_call
    then show ?thesis
      using tq_call_frame [of "{}" q q'] assms(2) \<open>issued q'\<close> by (auto simp: tq_good_def calls_frame_def)
  next
    case (step_tick now now2)
    then show ?thesis
      using HandleRead_Inr [OF assms(1), of q tid now now2] assms(2) \<open>issued q'\<close> by (auto simp: tq_good_def)
  next
    case (step_task now)
    then show ?thesis using run_queued_Inr [OF assms(2), of now] assms(2) by (auto simp: tq_good_def)
  qed
qed

interpretation tqs: transition_system "tq_step run" "\<lambda>q. calls_only run \<and> tq_good tid q"
  by unfold_locales (use tq_step_good in blast)

lemma tq_reach_spent:
  assumes "calls_only run" and "tq_good tid q" and "(tq_step run)\<^sup>*\<^sup>* q q'"
  shows "tq_good tid q' \<and> (spent i q \<longrightarrow> spent i q')"
proof -
  have "ids_step q q'"
    using tqs.steps_rel [OF assms(3) _ ids_step_refl ids_step_transp] assms(1,2) tq_step_ids by blast
  then show ?thesis using tqs.steps_inv [OF assms(3)] assms(1,2) spent_step by blast
qed

section \<open>A sample queue\<close>

text \<open>A periodic timer due at 500 and a one-shot timer due at 900, whose callbacks cancel the first.\<close>

definition sample_run :: "unit \<Rightarrow> unit timer_queue \<Rightarrow> unit timer_queue" where
  "sample_run cb q = CancelTimer (7, 0) q"

definition sample_queue1 :: "unit timer_queue" where
  "sample_queue1 = \<lparr>tq_loop_tid = 1, tq_timers = [(Timestamp 500, 7)], tq_active = {(7, 0)},
     tq_calling = False, tq_cancelling = {}, tq_heap = [7 \<mapsto> new_Timer (Timestamp 500) () (double_of_int 1) 0],
     tq_num_created = 1, tq_timerfd = Some (Timestamp 0, (0, 500000)), tq_queued = []\<rparr>"

definition sample_queue :: "unit timer_queue" where
  "sample_queue = sample_queue1\<lparr>tq_timers := [(Timestamp 500, 7), (Timestamp 900, 9)],
     tq_active := {(7, 0), (9, 1)}, tq_num_created := 2,
     tq_heap := [7 \<mapsto> new_Timer (Timestamp 500) () (double_of_int 1) 0,
                 9 \<mapsto> new_Timer (Timestamp 900) () (double_of_int 0) 1]\<rparr>"

lemma sample_run_calls: "calls_only sample_run"
  by (auto simp: calls_only_def sample_run_def intro: call_cancel)

lemmas sample_eval = AddTimer_def hand_over_timer_def timer_id_of_def AddTimeInLoop_def tq_insert_def tq_assert_loop_def deref_def assertE_def
  ResetTimerFd_def HowMuchTimeFromNow_def kMicroSecondsPerSecond_def new_Timer_def Let_def
  insort_insert_key_def less_eq_prod_def sdiv_nonneg smod_nonneg Timestamp_order

lemma sample_add1:
  "AddTimer 1 (Timestamp 0) 7 (Timestamp 500) () (double_of_int 1) (new_TimerQueue 1) = Inr ((7, 0), sample_queue1)"
  by (simp add: sample_eval sample_queue1_def new_TimerQueue_def)

lemma sample_add2:
  "AddTimer 1 (Timestamp 0) 9 (Timestamp 900) () (double_of_int 0) sample_queue1 = Inr ((9, 1), sample_queue)"
  by (simp add: sample_eval sample_queue1_def sample_queue_def fun_upd_twist insert_commute)

lemma sample_reach: "(tq_step run)\<^sup>*\<^sup>* (new_TimerQueue 1) sample_queue"
proof -
  have "tq_call (new_TimerQueue 1) sample_queue1"
    by (rule call_AddTimer [OF _ _ sample_add1]) (simp_all add: new_TimerQueue_def UINTPTR_MAX_def)
  moreover have "tq_call sample_queue1 sample_queue"
    by (rule call_AddTimer [OF _ _ sample_add2]) (simp_all add: sample_queue1_def UINTPTR_MAX_def)
  ultimately show ?thesis by (meson converse_rtranclp_into_rtranclp rtranclp.rtrancl_refl step_call)
qed

lemma sample_good: "tq_good 1 sample_queue"
  using tqs.steps_inv [OF sample_reach, of sample_run 1] sample_run_calls tq_good_new by blast

section \<open>Properties\<close>

text \<open>
  Property C8. However ticks, queued tasks, additions and cancellations on the loop's thread and
  hand-overs and cancellations of other threads interleave, the queue stays consistent: its two sets
  mirror each other, every live timer is scheduled or queued for insertion (none leaks) and every
  scheduled one is live, and the descriptor is armed for the earliest. A tick, a queued task, an
  addition on the loop's thread and the hand-over of one by another thread do not fault, and while a
  handed-over timer is still queued, the thread that handed it over reads its sequence number from a
  live timer. (Once the insertion has run, that read may be of a deleted timer: \<open>AddTimer_race\<close>.)
\<close>

theorem timer_queue_safe:
  assumes "calls_only run" and "(tq_step run)\<^sup>*\<^sup>* (new_TimerQueue tid) q"
  shows "tq_inv {} q \<and> tq_armed q \<and> (\<forall>now now2. \<exists>q'. HandleRead run tid now now2 q = Inr q')
    \<and> (\<forall>now. \<exists>q'. run_queued tid now q = Inr q')
    \<and> (\<forall>now a w cb interval. tq_heap q a = None \<and> a < UINTPTR_MAX \<longrightarrow>
         (\<exists>q'. AddTimer tid now a w cb interval q = Inr ((a, tq_num_created q), q')))
    \<and> (\<forall>me now a w cb interval. me \<noteq> tid \<and> tq_heap q a = None \<and> a < UINTPTR_MAX \<longrightarrow>
         (\<exists>q'. hand_over_timer me now a w cb interval q = Inr q' \<and> tq_queued q' = tq_queued q @ [AddTask w a]))
    \<and> (\<forall>w a. AddTask w a \<in> set (tq_queued q) \<longrightarrow> (\<exists>t. tq_heap q a = Some t \<and> timer_id_of a q = Inr (a, ti_sequence t)))"
proof -
  have good: "tq_good tid q" using tqs.steps_inv [OF assms(2)] assms(1) tq_good_new by blast
  then have inv: "tq_inv {} q" "tid = tq_loop_tid q" by (simp_all add: tq_good_def)
  have "\<exists>q'. HandleRead run tid now now2 q = Inr q'" for now now2
    using HandleRead_Inr [OF assms(1) inv, of now now2] by blast
  moreover have "\<exists>q'. run_queued tid now q = Inr q'" for now using run_queued_Inr [OF good, of now] by blast
  moreover have "\<exists>q'. AddTimer tid now a w cb interval q = Inr ((a, tq_num_created q), q')"
    if "tq_heap q a = None \<and> a < UINTPTR_MAX" for now a w cb interval
    using AddTimer_Inr [OF inv(1) conjunct1 [OF that] conjunct2 [OF that], of tid now w cb interval] by blast
  moreover have "\<exists>q'. hand_over_timer me now a w cb interval q = Inr q' \<and> tq_queued q' = tq_queued q @ [AddTask w a]"
    if "me \<noteq> tid \<and> tq_heap q a = None \<and> a < UINTPTR_MAX" for me now a w cb interval
    using that inv(2) by (simp add: hand_over_timer_def)
  moreover have "\<exists>t. tq_heap q a = Some t \<and> timer_id_of a q = Inr (a, ti_sequence t)" if "AddTask w a \<in> set (tq_queued q)" for w a
  proof -
    have "a \<in> dom (tq_heap q)" using AddTask_queued [OF that] tq_invD(5) [OF inv(1)] by blast
    then show ?thesis by (auto simp: timer_id_of_def deref_def)
  qed
  ultimately show ?thesis using good by (simp add: tq_good_def)
qed

text \<open>The sample queue, after another thread has handed over a third timer.\<close>

theorem timer_queue_safe_witness:
  "\<exists>q. hand_over_timer 2 (Timestamp 0) 11 (Timestamp 700) () (double_of_int 0) sample_queue = Inr q \<and> tq_inv {} q \<and> tq_armed q
   \<and> timer_id_of 11 q = Inr (11, 2) \<and> (\<exists>q'. HandleRead sample_run 1 (Timestamp 600) (Timestamp 601) q = Inr q')
   \<and> (\<exists>q'. run_queued 1 (Timestamp 100) q = Inr q')"
proof -
  define q where "q = sample_queue\<lparr>tq_heap := (tq_heap sample_queue)(11 \<mapsto> new_Timer (Timestamp 700) () (double_of_int 0) 2),
      tq_num_created := 3, tq_queued := [AddTask (Timestamp 700) 11]\<rparr>"
  have q: "hand_over_timer 2 (Timestamp 0) 11 (Timestamp 700) () (double_of_int 0) sample_queue = Inr q"
    by (simp add: hand_over_timer_def q_def sample_queue_def sample_queue1_def)
  then have "tq_call sample_queue q"
    by (intro call_hand_over [OF _ _ _ q]) (simp_all add: sample_queue_def sample_queue1_def UINTPTR_MAX_def)
  then have "(tq_step sample_run)\<^sup>*\<^sup>* (new_TimerQueue 1) q" using sample_reach [of sample_run] by (meson rtranclp.rtrancl_into_rtrancl step_call)
  note safe = timer_queue_safe [OF sample_run_calls this]
  have "timer_id_of 11 q = Inr (11, 2)" by (simp add: timer_id_of_def deref_def q_def new_Timer_def)
  then show ?thesis using safe q by blast
qed

text \<open>What a tick does to one scheduled entry.\<close>

lemma tick_entry:
  assumes inv: "tq_inv {} q" and inv': "tq_inv {} q'" and queued: "tq_queued q' = tq_queued q2"
    and heap: "tq_heap q' = heap_after_reset now (snd ` set (expired_at now q)) (tq_heap q2)"
    and le: "tq_heap q \<subseteq>\<^sub>m tq_heap q2" and inv2: "tq_inv (snd ` set (expired_at now q)) q2"
    and later: "set (filter (\<lambda>(e, a). \<not> e \<le> now) (tq_timers q)) \<subseteq> set (tq_timers q')"
    and e: "(e, a) \<in> set (tq_timers q)" and t: "tq_heap q a = Some t"
  shows "if now < e then (e, a) \<in> set (tq_timers q') \<and> tq_heap q' a = Some t
        else if ti_repeat t
        then (AddTime now (ti_interval t), a) \<in> set (tq_timers q')
           \<and> tq_heap q' a = Some (t\<lparr>ti_expiration := AddTime now (ti_interval t)\<rparr>)
        else tq_heap q' a = None \<and> a \<notin> scheduled q'"
proof -
  have t2: "tq_heap q2 a = Some t" using le t by (force simp: map_le_def)
  show ?thesis
  proof (cases "now < e")
    case True
    then have "a \<notin> snd ` set (expired_at now q)"
      using tq_invD(2) [OF inv] e by (fastforce simp: distinct_map inj_on_def)
    then show ?thesis using True e later heap t2 by (auto simp: heap_after_reset_def)
  next
    case False
    then have due: "a \<in> snd ` set (expired_at now q)" using e by force
    show ?thesis
    proof (cases "ti_repeat t")
      case True
      define t' where "t' = t\<lparr>ti_expiration := AddTime now (ti_interval t)\<rparr>"
      have h: "tq_heap q' a = Some t'"
        using heap due t2 True by (simp add: heap_after_reset_def Timer_Reset_def t'_def)
      have "a \<notin> adds q'" using tq_invD(8) [OF inv2] due unfolding queued by blast
      then have "a \<in> scheduled q'" using tq_invD(5) [OF inv'] h by blast
      then obtain e' where e': "(e', a) \<in> set (tq_timers q')" by auto
      then have "e' = AddTime now (ti_interval t)" using tq_invD(3) [OF inv' e'] h by (simp add: t'_def)
      then show ?thesis using False True h e' by (simp add: t'_def)
    next
      case no_repeat: False
      then have "tq_heap q' a = None" using heap due t2 by (simp add: heap_after_reset_def)
      moreover then have "a \<notin> scheduled q'" using tq_invD(5) [OF inv'] by blast
      ultimately show ?thesis using False no_repeat by simp
    qed
  qed
qed

text \<open>
  Property C14. A tick runs the callbacks of exactly the timers due by \<open>now\<close>, each once, in order of
  expiration; then a periodic one is scheduled again \<open>interval\<close> after \<open>now\<close>, a one-shot one is
  deleted, and every other timer stays scheduled as it was.
\<close>

theorem HandleRead_effect:
  assumes "calls_only run" and "tq_inv {} q" and "tid = tq_loop_tid q"
  shows "\<exists>q1 q2 q'. HandleRead run tid now now2 q = Inr q'
    \<and> GetExpired now q = Inr (expired_at now q, q1)
    \<and> q2 = fold run (callbacks_of q (expired_at now q)) (q1\<lparr>tq_calling := True\<rparr>)
    \<and> HandleRead run tid now now2 q = bindE (TimerQueue_Reset tid now2 (expired_at now q) now q2)
         (\<lambda>q3. Inr (q3\<lparr>tq_calling := False\<rparr>))
    \<and> (\<forall>e a t. (e, a) \<in> set (tq_timers q) \<and> tq_heap q a = Some t \<longrightarrow>
         (if now < e then (e, a) \<in> set (tq_timers q') \<and> tq_heap q' a = Some t
          else if ti_repeat t
          then (AddTime now (ti_interval t), a) \<in> set (tq_timers q')
             \<and> tq_heap q' a = Some (t\<lparr>ti_expiration := AddTime now (ti_interval t)\<rparr>)
          else tq_heap q' a = None \<and> a \<notin> scheduled q'))"
proof -
  let ?E = "snd ` set (expired_at now q)"
  obtain q1 q2 q' where *: "GetExpired now q = Inr (expired_at now q, q1)"
      "q2 = fold run (callbacks_of q (expired_at now q)) (q1\<lparr>tq_calling := True\<rparr>)"
      "HandleRead run tid now now2 q = bindE (TimerQueue_Reset tid now2 (expired_at now q) now q2)
         (\<lambda>q3. Inr (q3\<lparr>tq_calling := False\<rparr>))"
      "HandleRead run tid now now2 q = Inr q'" "tq_inv {} q'" "tq_queued q' = tq_queued q2"
      "tq_heap q' = heap_after_reset now ?E (tq_heap q2)" "tq_heap q \<subseteq>\<^sub>m tq_heap q2" "tq_inv ?E q2"
      "set (filter (\<lambda>(e, a). \<not> e \<le> now) (tq_timers q)) \<subseteq> set (tq_timers q')"
    using HandleRead_Inr [OF assms, of now now2] by blast
  have "if now < e then (e, a) \<in> set (tq_timers q') \<and> tq_heap q' a = Some t
        else if ti_repeat t
        then (AddTime now (ti_interval t), a) \<in> set (tq_timers q')
           \<and> tq_heap q' a = Some (t\<lparr>ti_expiration := AddTime now (ti_interval t)\<rparr>)
        else tq_heap q' a = None \<and> a \<notin> scheduled q'"
    if "(e, a) \<in> set (tq_timers q)" "tq_heap q a = Some t" for e a t
    using tick_entry [OF assms(2) *(5-10)] that by blast
  then show ?thesis using *(1-4) by blast
qed

theorem HandleRead_effect_witness:
  "\<exists>q'. HandleRead sample_run 1 (Timestamp 600) (Timestamp 601) sample_queue = Inr q'
     \<and> (AddTime (Timestamp 600) (double_of_int 1), 7) \<in> set (tq_timers q')
     \<and> (Timestamp 900, 9) \<in> set (tq_timers q')"
proof -
  have "tq_inv {} sample_queue" "1 = tq_loop_tid sample_queue"
    using sample_good by (simp_all add: tq_good_def)
  from HandleRead_effect [OF sample_run_calls this, of "Timestamp 600" "Timestamp 601"] obtain q' where
    q': "HandleRead sample_run 1 (Timestamp 600) (Timestamp 601) sample_queue = Inr q'"
    and entry: "\<forall>e a t. (e, a) \<in> set (tq_timers sample_queue) \<and> tq_heap sample_queue a = Some t \<longrightarrow>
         (if Timestamp 600 < e then (e, a) \<in> set (tq_timers q') \<and> tq_heap q' a = Some t
          else if ti_repeat t
          then (AddTime (Timestamp 600) (ti_interval t), a) \<in> set (tq_timers q')
             \<and> tq_heap q' a = Some (t\<lparr>ti_expiration := AddTime (Timestamp 600) (ti_interval t)\<rparr>)
          else tq_heap q' a = None \<and> a \<notin> scheduled q')"
    by blast
  have "(AddTime (Timestamp 600) (double_of_int 1), 7) \<in> set (tq_timers q')"
    using entry [rule_format, of "Timestamp 500" 7]
    by (simp add: sample_queue_def new_Timer_def double_pos_def double_of_int_def Timestamp_order)
  moreover have "(Timestamp 900, 9) \<in> set (tq_timers q')"
    using entry [rule_format, of "Timestamp 900" 9] by (simp add: sample_queue_def Timestamp_order)
  ultimately show ?thesis using q' by blast
qed

text \<open>
  Property C30. Cancelling an active timer deletes it, removes it from both sets and leaves the rest;
  and it is final: in no later state is that identity active again, even when the address is
  reused for a new timer, and cancelling it again then changes nothing.
\<close>

theorem cancel_is_final:
  assumes "calls_only run" and "tq_good tid q" and "i \<in> tq_active q"
  shows "\<exists>q1. CancelTimerInLoop tid now i q = Inr q1 \<and> tq_good tid q1
    \<and> tq_active q1 = tq_active q - {i} \<and> tq_heap q1 = (tq_heap q)(fst i := None)
    \<and> set (tq_timers q1) = {x \<in> set (tq_timers q). snd x \<noteq> fst i}
    \<and> (\<forall>q' now'. (tq_step run)\<^sup>*\<^sup>* q1 q' \<longrightarrow> i \<notin> tq_active q' \<and> CancelTimerInLoop tid now' i q' = Inr q')"
proof -
  have inv: "tq_inv {} q" and tid: "tid = tq_loop_tid q" using assms(2) by (simp_all add: tq_good_def)
  have good0: "tq_armed q" "\<not> tq_calling q" using assms(2) by (simp_all add: tq_good_def)
  obtain a n where i: "i = (a, n)" by (cases i)
  obtain t q1 where t: "tq_heap q a = Some t" "ti_sequence t = n"
    and q1: "CancelTimerInLoop tid now i q = Inr q1" "tq_inv {} q1" "tq_armed q1"
      "tq_heap q1 = (tq_heap q)(a := None)" "set (tq_timers q1) = set (tq_timers q) - {(ti_expiration t, a)}"
      "tq_active q1 = tq_active q - {i}" "tq_loop_tid q1 = tq_loop_tid q" "tq_num_created q1 = tq_num_created q"
      "tq_calling q1 = tq_calling q"
    using CancelTimerInLoop_Inr [OF inv tid assms(3) [unfolded i], of now] good0 tid unfolding i by blast
  have good: "tq_good tid q1" using q1 assms(2) by (simp add: tq_good_def issued_def)
  have spent: "spent i q1" using t q1(4,8) assms(2) by (auto simp: spent_def i tq_good_def issued_def)
  have timers: "set (tq_timers q1) = {x \<in> set (tq_timers q). snd x \<noteq> a}"
  proof -
    have "snd x \<noteq> a" if "x \<in> set (tq_timers q)" "x \<noteq> (ti_expiration t, a)" for x
      using tq_invD(3) [OF inv, of "fst x" "snd x"] that t(1) by (cases x) auto
    then show ?thesis unfolding q1(5) by auto
  qed
  have "i \<notin> tq_active q' \<and> CancelTimerInLoop tid now' i q' = Inr q'" if "(tq_step run)\<^sup>*\<^sup>* q1 q'" for q' now'
  proof -
    have good': "tq_good tid q'" "spent i q'" using tq_reach_spent [OF assms(1) good that] spent by blast+
    then have "i \<notin> tq_active q'" using spent_inactive [of "{}" q' i] by (simp add: tq_good_def)
    then show ?thesis using CancelTimerInLoop_stale [of tid q' i now'] good'(1) by (simp add: tq_good_def)
  qed
  then show ?thesis using q1(1,4,6) good timers by (intro exI [of _ q1]) (simp add: i)
qed

theorem cancel_is_final_witness:
  "\<exists>q1. CancelTimerInLoop 1 (Timestamp 10) (7, 0) sample_queue = Inr q1 \<and> tq_active q1 = {(9, 1)}"
  using cancel_is_final [OF sample_run_calls sample_good, of "(7, 0)" "Timestamp 10"]
  by (auto simp: sample_queue_def)

text \<open>
  Remark. The relative time given to the descriptor is the time to the expiration, but at
  least 100 microseconds: its nanosecond field is in range and the pair is never zero, so arming
  never disarms by accident.
\<close>

theorem HowMuchTimeFromNow_bounds:
  "case HowMuchTimeFromNow (Timestamp now) (Timestamp w) of (tv_sec, tv_nsec) \<Rightarrow>
     0 \<le> tv_sec \<and> 0 \<le> tv_nsec \<and> tv_nsec < 1000000000
   \<and> tv_sec * 1000000000 + tv_nsec = max 100 (w - now) * 1000"
proof -
  define d where "d = (if w - now < 100 then 100 else w - now)"
  have d: "0 \<le> d" "d = max 100 (w - now)" by (auto simp: d_def)
  have h: "HowMuchTimeFromNow (Timestamp now) (Timestamp w) = (d div 1000000, (d mod 1000000) * 1000)"
    using d(1) unfolding HowMuchTimeFromNow_def Let_def
    by (simp add: kMicroSecondsPerSecond_def sdiv_nonneg smod_nonneg d_def)
  have "d div 1000000 * 1000000 + d mod 1000000 = d" by (rule div_mult_mod_eq)
  then have "d div 1000000 * 1000000000 + d mod 1000000 * 1000 = d * 1000" by linarith
  moreover have "d mod 1000000 < 1000000" by simp
  then have "d mod 1000000 * 1000 < 1000000000" by linarith
  ultimately show ?thesis using d by (simp add: h div_int_pos_iff)
qed

text \<open>
  Remark. \<open>AddTimer\<close> called off the loop's thread reads the sequence number through the
  pointer after handing the timer over. When the loop runs the queued insertion and a tick before
  that read, a one-shot timer is already deleted: the read is of freed memory.
\<close>

theorem AddTimer_race:
  "\<exists>q1 q2 q3. hand_over_timer 2 (Timestamp 0) 7 (Timestamp 0) cb (double_of_int 0) (new_TimerQueue 1) = Inr q1
    \<and> run_queued 1 (Timestamp 0) q1 = Inr q2 \<and> HandleRead (\<lambda>cb q. q) 1 (Timestamp 100) now2 q2 = Inr q3
    \<and> timer_id_of 7 q3 = Inl UseAfterFree"
  by (simp add: sample_eval new_TimerQueue_def run_queued_def run_task_def HandleRead_def GetExpired_def
      TimerQueue_Reset_def less_prod_def UINTPTR_MAX_def double_pos_def double_of_int_def delete_timer_def)

end
