(* ===== verification/EventLoop.thy ===== *)
theory EventLoop
  imports Transitions TimerQueue
begin

text \<open>
  The event loop (\<open>include/mini_muduo/EventLoop.h\<close>, \<open>src/EventLoop.cc\<close>): task queue, wake-up
  descriptor, quit flag and the loop itself. First the operations as functions on the loop's
  state, run by one thread; then the loop thread and any number of other threads interleaved, at
  the grain of the accesses to the mutex-protected queue, the descriptor and the atomic flag.
\<close>

section \<open>State and operations\<close>

record 't event_loop =
  el_tid :: int
  el_looping :: bool
  el_quit :: bool
  el_calling :: bool
  el_wakeup :: nat
  el_pending :: "'t list"

text \<open>
  The constructor: \<open>eventfd\<close> is what the system call returns, \<open>t_loop\<close> whether this thread already
  has a loop (which is only logged); the flag afterwards is the third component.
\<close>

definition CreateEventfd :: "int \<Rightarrow> int res" where
  "CreateEventfd evtfd = (if evtfd < 0 then Inl Aborted else Inr evtfd)"

definition new_EventLoop :: "int \<Rightarrow> int \<Rightarrow> bool \<Rightarrow> (int \<times> 't event_loop \<times> bool) res" where
  "new_EventLoop tid evtfd t_loop =
     bindE (CreateEventfd evtfd) (\<lambda>fd.
       Inr (fd, \<lparr>el_tid = tid, el_looping = False, el_quit = False, el_calling = False,
                 el_wakeup = 0, el_pending = []\<rparr>, True))"

definition IsInLoopThread :: "int \<Rightarrow> ('t, 'x) event_loop_scheme \<Rightarrow> bool" where
  "IsInLoopThread tid l \<longleftrightarrow> el_tid l = tid"

text \<open>
  An eventfd counter holds at most \<open>2^64 - 2\<close>; a write that would exceed it fails with \<open>EAGAIN\<close>
  on this non-blocking descriptor, which is only logged. A read takes the whole count.
\<close>

definition eventfd_max :: nat where
  "eventfd_max = 2 ^ 64 - 2"

definition WakeUp :: "('t, 'x) event_loop_scheme \<Rightarrow> ('t, 'x) event_loop_scheme" where
  "WakeUp l = (if el_wakeup l < eventfd_max then l\<lparr>el_wakeup := el_wakeup l + 1\<rparr> else l)"

definition WakeUpHandleRead :: "('t, 'x) event_loop_scheme \<Rightarrow> ('t, 'x) event_loop_scheme" where
  "WakeUpHandleRead l = l\<lparr>el_wakeup := 0\<rparr>"

definition push_functor :: "'t \<Rightarrow> ('t, 'x) event_loop_scheme \<Rightarrow> ('t, 'x) event_loop_scheme" where
  "push_functor task l = l\<lparr>el_pending := el_pending l @ [task]\<rparr>"

definition QueueInLoop :: "int \<Rightarrow> 't \<Rightarrow> ('t, 'x) event_loop_scheme \<Rightarrow> ('t, 'x) event_loop_scheme" where
  "QueueInLoop tid task l =
     (let l1 = push_functor task l
      in if \<not> IsInLoopThread tid l1 \<or> el_calling l1 then WakeUp l1 else l1)"

definition RunInLoop :: "('t \<Rightarrow> ('t, 'x) event_loop_scheme \<Rightarrow> ('t, 'x) event_loop_scheme) \<Rightarrow> int \<Rightarrow> 't \<Rightarrow>
    ('t, 'x) event_loop_scheme \<Rightarrow> ('t, 'x) event_loop_scheme" where
  "RunInLoop run tid task l = (if IsInLoopThread tid l then run task l else QueueInLoop tid task l)"

definition Quit :: "int \<Rightarrow> ('t, 'x) event_loop_scheme \<Rightarrow> ('t, 'x) event_loop_scheme" where
  "Quit tid l = (let l1 = l\<lparr>el_quit := True\<rparr> in if \<not> IsInLoopThread tid l1 then WakeUp l1 else l1)"

definition DoPendingFunctors :: "('t \<Rightarrow> ('t, 'x) event_loop_scheme \<Rightarrow> ('t, 'x) event_loop_scheme) \<Rightarrow>
    ('t, 'x) event_loop_scheme \<Rightarrow> ('t, 'x) event_loop_scheme" where
  "DoPendingFunctors run l =
     (let l1 = l\<lparr>el_calling := True\<rparr>;
          funtors = el_pending l1;
          l2 = l1\<lparr>el_pending := []\<rparr>;
          l3 = fold run funtors l2
      in l3\<lparr>el_calling := False\<rparr>)"

text \<open>
  \<open>Loop\<close>: the supply \<open>polls\<close> gives the active channels each call of \<open>Poll\<close> returns, \<open>handle\<close> is
  \<open>HandleEvent\<close>. \<open>None\<close> means that the loop is still running when the supply ends.
\<close>

fun loop_while :: "('t \<Rightarrow> ('t, 'x) event_loop_scheme \<Rightarrow> ('t, 'x) event_loop_scheme) \<Rightarrow>
    ('c \<Rightarrow> ('t, 'x) event_loop_scheme \<Rightarrow> ('t, 'x) event_loop_scheme) \<Rightarrow> 'c list list \<Rightarrow>
    ('t, 'x) event_loop_scheme \<Rightarrow> ('t, 'x) event_loop_scheme option" where
  "loop_while run handle polls l =
     (if el_quit l then Some l
      else (case polls of [] \<Rightarrow> None
            | active # polls' \<Rightarrow> loop_while run handle polls' (DoPendingFunctors run (fold handle active l))))"

definition Loop :: "('t \<Rightarrow> ('t, 'x) event_loop_scheme \<Rightarrow> ('t, 'x) event_loop_scheme) \<Rightarrow>
    ('c \<Rightarrow> ('t, 'x) event_loop_scheme \<Rightarrow> ('t, 'x) event_loop_scheme) \<Rightarrow> 'c list list \<Rightarrow>
    ('t, 'x) event_loop_scheme \<Rightarrow> ('t, 'x) event_loop_scheme option" where
  "Loop run handle polls l =
     map_option (\<lambda>l'. l'\<lparr>el_looping := False\<rparr>)
       (loop_while run handle polls (l\<lparr>el_looping := True, el_quit := False\<rparr>))"

text \<open>The timer interface: \<open>now\<close> is \<open>Timestamp::Now()\<close> where the code reads it.\<close>

definition RunAt :: "int \<Rightarrow> Timestamp \<Rightarrow> nat \<Rightarrow> Timestamp \<Rightarrow> 'cb \<Rightarrow> ('cb, 'z) timer_queue_scheme \<Rightarrow>
    (timer_id \<times> ('cb, 'z) timer_queue_scheme) res" where
  "RunAt tid now a time cb q = AddTimer tid now a time cb (double_of_int 0) q"

definition RunAfter :: "int \<Rightarrow> Timestamp \<Rightarrow> nat \<Rightarrow> double \<Rightarrow> 'cb \<Rightarrow> ('cb, 'z) timer_queue_scheme \<Rightarrow>
    (timer_id \<times> ('cb, 'z) timer_queue_scheme) res" where
  "RunAfter tid now a delay cb q = RunAt tid now a (AddTime now delay) cb q"

definition RunEvery :: "int \<Rightarrow> Timestamp \<Rightarrow> nat \<Rightarrow> double \<Rightarrow> 'cb \<Rightarrow> ('cb, 'z) timer_queue_scheme \<Rightarrow>
    (timer_id \<times> ('cb, 'z) timer_queue_scheme) res" where
  "RunEvery tid now a interval cb q = AddTimer tid now a (AddTime now interval) cb interval q"

section \<open>Threads\<close>

text \<open>
  Where the loop's thread is: before \<open>Loop\<close> or after it, at the test of \<open>quit_\<close>, at the poll,
  handling active channels, with \<open>calling_pending_functors_\<close> set but the queue not yet taken, or
  running the tasks taken. \<open>Wake\<close> is the wake-up channel, \<open>Chan c\<close> any other.
\<close>

datatype 'c active = Wake | Chan 'c

datatype ('t, 'c) pc = Outside | AtTest | AtPoll | Handling "'c active list" | Flagged | Running "'t list"

text \<open>
  \<open>sys_waking\<close> counts other threads that have pushed a task or set \<open>quit_\<close> and have not yet
  written the descriptor; \<open>sys_submitted\<close> and \<open>sys_executed\<close> record the tasks pushed and run, and
  \<open>sys_early\<close> how many were submitted when the owner thread last queued one outside \<open>Loop\<close>.
\<close>

record ('t, 'c) el_sys = "'t event_loop" +
  sys_pc :: "('t, 'c) pc"
  sys_waking :: nat
  sys_submitted :: "'t list"
  sys_executed :: "'t list"
  sys_early :: nat

abbreviation submit :: "'t \<Rightarrow> ('t, 'c) el_sys \<Rightarrow> ('t, 'c) el_sys" where
  "submit task s \<equiv> s\<lparr>sys_submitted := sys_submitted s @ [task]\<rparr>"

definition in_callback :: "('t, 'c) pc \<Rightarrow> bool" where
  "in_callback p \<longleftrightarrow> (\<exists>c cs. p = Handling (Chan c # cs)) \<or> (\<exists>f fs. p = Running (f # fs))"

text \<open>Steps of the program itself, with no timeout and no I/O: the loop's thread and late wakers.\<close>

inductive sys_step :: "('t, 'c) el_sys \<Rightarrow> ('t, 'c) el_sys \<Rightarrow> bool" where
  test_go: "sys_pc s = AtTest \<Longrightarrow> \<not> el_quit s \<Longrightarrow> sys_step s (s\<lparr>sys_pc := AtPoll\<rparr>)"
| test_exit: "sys_pc s = AtTest \<Longrightarrow> el_quit s \<Longrightarrow> sys_step s (s\<lparr>sys_pc := Outside, el_looping := False\<rparr>)"
| poll_wake: "sys_pc s = AtPoll \<Longrightarrow> el_wakeup s > 0 \<Longrightarrow> sys_step s (s\<lparr>sys_pc := Handling [Wake]\<rparr>)"
| handle_wake: "sys_pc s = Handling (Wake # cs) \<Longrightarrow> sys_step s ((WakeUpHandleRead s)\<lparr>sys_pc := Handling cs\<rparr>)"
| handle_chan: "sys_pc s = Handling (Chan c # cs) \<Longrightarrow> sys_step s (s\<lparr>sys_pc := Handling cs\<rparr>)"
| handled: "sys_pc s = Handling [] \<Longrightarrow> sys_step s (s\<lparr>sys_pc := Flagged, el_calling := True\<rparr>)"
| swap: "sys_pc s = Flagged \<Longrightarrow> sys_step s (s\<lparr>sys_pc := Running (el_pending s), el_pending := []\<rparr>)"
| ran: "sys_pc s = Running (f # fs) \<Longrightarrow>
    sys_step s (s\<lparr>sys_pc := Running fs, sys_executed := sys_executed s @ [f]\<rparr>)"
| ran_all: "sys_pc s = Running [] \<Longrightarrow> sys_step s (s\<lparr>sys_pc := AtTest, el_calling := False\<rparr>)"
| wake: "sys_waking s > 0 \<Longrightarrow> sys_step s ((WakeUp s)\<lparr>sys_waking := sys_waking s - 1\<rparr>)"

text \<open>Steps of the environment: what callbacks, other threads, the user and the kernel may do.\<close>

inductive env_step :: "('t, 'c) el_sys \<Rightarrow> ('t, 'c) el_sys \<Rightarrow> bool" where
  start_loop: "sys_pc s = Outside \<Longrightarrow> env_step s (s\<lparr>sys_pc := AtTest, el_looping := True, el_quit := False\<rparr>)"
| poll_io: "sys_pc s = AtPoll \<Longrightarrow> (Wake \<in> set cs \<longleftrightarrow> el_wakeup s > 0) \<Longrightarrow> env_step s (s\<lparr>sys_pc := Handling cs\<rparr>)"
| queue_own: "in_callback (sys_pc s) \<Longrightarrow> env_step s (submit task (QueueInLoop (el_tid s) task s))"
| quit_own: "in_callback (sys_pc s) \<Longrightarrow> env_step s (Quit (el_tid s) s)"
| queue_other: "env_step s (submit task (push_functor task s)\<lparr>sys_waking := sys_waking s + 1\<rparr>)"
| quit_other: "env_step s (s\<lparr>el_quit := True, sys_waking := sys_waking s + 1\<rparr>)"
| queue_outside: "sys_pc s = Outside \<Longrightarrow>
    env_step s (submit task (QueueInLoop (el_tid s) task s)\<lparr>sys_early := length (sys_submitted s) + 1\<rparr>)"
| quit_outside: "sys_pc s = Outside \<Longrightarrow> env_step s (Quit (el_tid s) s)"

definition el_step :: "('t, 'c) el_sys \<Rightarrow> ('t, 'c) el_sys \<Rightarrow> bool" where
  "el_step s s' \<longleftrightarrow> sys_step s s' \<or> env_step s s'"

definition init_sys :: "int \<Rightarrow> ('t, 'c) el_sys" where
  "init_sys tid = \<lparr>el_tid = tid, el_looping = False, el_quit = False, el_calling = False, el_wakeup = 0,
     el_pending = [], sys_pc = Outside, sys_waking = 0, sys_submitted = [], sys_executed = [], sys_early = 0\<rparr>"

section \<open>Invariant\<close>

primrec running :: "('t, 'c) pc \<Rightarrow> 't list" where
  "running Outside = []"
| "running AtTest = []"
| "running AtPoll = []"
| "running (Handling cs) = []"
| "running Flagged = []"
| "running (Running fs) = fs"

text \<open>
  Tasks run in the order pushed, each once; wherever the thread will poll before it next takes the
  queue, a non-empty queue has a wake-up written or about to be, unless it holds a task that the
  owner queued outside \<open>Loop\<close>, which writes none; and so has a \<open>quit_\<close> set while it is at the poll.
\<close>

primrec polls_first :: "('t, 'c) pc \<Rightarrow> bool" where
  "polls_first Outside = True"
| "polls_first AtTest = True"
| "polls_first AtPoll = True"
| "polls_first (Handling cs) = False"
| "polls_first Flagged = False"
| "polls_first (Running fs) = True"

definition early_pending :: "('t, 'c) el_sys \<Rightarrow> bool" where
  "early_pending s \<longleftrightarrow> length (sys_executed s @ running (sys_pc s)) < sys_early s"

definition wakeable :: "('t, 'c) el_sys \<Rightarrow> bool" where
  "wakeable s \<longleftrightarrow> el_wakeup s > 0 \<or> sys_waking s > 0"

definition el_inv :: "('t, 'c) el_sys \<Rightarrow> bool" where
  "el_inv s \<longleftrightarrow> sys_submitted s = sys_executed s @ running (sys_pc s) @ el_pending s
     \<and> (polls_first (sys_pc s) \<longrightarrow> el_pending s \<noteq> [] \<longrightarrow> wakeable s \<or> early_pending s)
     \<and> (sys_pc s = AtPoll \<longrightarrow> el_quit s \<longrightarrow> wakeable s)
     \<and> (el_calling s \<longleftrightarrow> sys_pc s = Flagged \<or> (\<exists>fs. sys_pc s = Running fs))
     \<and> el_wakeup s \<le> eventfd_max"

lemma WakeUp_simps [simp]:
  "el_pending (WakeUp l) = el_pending l" "el_quit (WakeUp l) = el_quit l" "el_calling (WakeUp l) = el_calling l"
  "el_looping (WakeUp l) = el_looping l" "el_tid (WakeUp l) = el_tid l" "event_loop.more (WakeUp l) = event_loop.more l"
  by (simp_all add: WakeUp_def)

lemma sys_WakeUp_simps [simp]:
  "sys_pc (WakeUp s) = sys_pc s" "sys_waking (WakeUp s) = sys_waking s"
  "sys_submitted (WakeUp s) = sys_submitted s" "sys_executed (WakeUp s) = sys_executed s" "sys_early (WakeUp s) = sys_early s"
  by (simp_all add: WakeUp_def)

lemma WakeUp_pos: "0 < el_wakeup (WakeUp l)"
  by (auto simp: WakeUp_def eventfd_max_def)

lemma WakeUp_max: "el_wakeup l \<le> eventfd_max \<Longrightarrow> el_wakeup (WakeUp l) \<le> eventfd_max"
  by (simp add: WakeUp_def)

lemma el_inv_init: "el_inv (init_sys tid)"
  by (simp add: el_inv_def init_sys_def)

lemma sys_step_inv: "sys_step s s' \<Longrightarrow> el_inv s \<Longrightarrow> el_inv s'"
proof (induction rule: sys_step.induct)
  case (wake s)
  then show ?case using WakeUp_max [of s] WakeUp_pos [of s] by (auto simp: el_inv_def wakeable_def)
qed (auto simp: el_inv_def wakeable_def early_pending_def WakeUpHandleRead_def)

lemma env_step_inv: "env_step s s' \<Longrightarrow> el_inv s \<Longrightarrow> el_inv s'"
proof (induction rule: env_step.induct)
  case (queue_own s task)
  show ?case
  proof (cases "el_calling s")
    case True
    then obtain f fs where pc: "sys_pc s = Running (f # fs)"
      using queue_own by (auto simp: el_inv_def in_callback_def)
    have eq: "QueueInLoop (el_tid s) task s = WakeUp (push_functor task s)"
      using True by (simp add: QueueInLoop_def push_functor_def)
    define u where "u = WakeUp (push_functor task s)"
    have "sys_pc u = sys_pc s" "el_pending u = el_pending s @ [task]" "0 < el_wakeup u" "el_calling u = el_calling s"
      "sys_executed u = sys_executed s" "sys_submitted u = sys_submitted s" "el_wakeup u \<le> eventfd_max"
      using queue_own(2) WakeUp_pos [of "push_functor task s"] WakeUp_max [of "push_functor task s"]
      by (simp_all add: u_def push_functor_def el_inv_def)
    with queue_own(2) pc True have "el_inv (submit task u)" by (simp add: el_inv_def wakeable_def)
    then show ?thesis unfolding eq u_def .
  next
    case False
    then show ?thesis using queue_own
      by (auto simp: el_inv_def wakeable_def early_pending_def QueueInLoop_def IsInLoopThread_def push_functor_def in_callback_def)
  qed
next
  case (quit_own s)
  have eq: "Quit (el_tid s) s = s\<lparr>el_quit := True\<rparr>" by (simp add: Quit_def IsInLoopThread_def)
  from quit_own(1) have "sys_pc s \<noteq> AtPoll" by (auto simp: in_callback_def)
  with quit_own(2) show ?case unfolding eq by (simp add: el_inv_def wakeable_def early_pending_def)
next
  case (queue_outside s task)
  then have "\<not> el_calling s" by (auto simp: el_inv_def)
  then have eq: "QueueInLoop (el_tid s) task s = push_functor task s" by (simp add: QueueInLoop_def IsInLoopThread_def push_functor_def)
  from queue_outside show ?case unfolding eq
    by (simp add: el_inv_def wakeable_def early_pending_def push_functor_def)
next
  case (quit_outside s)
  have eq: "Quit (el_tid s) s = s\<lparr>el_quit := True\<rparr>" by (simp add: Quit_def IsInLoopThread_def)
  from quit_outside show ?case unfolding eq by (simp add: el_inv_def wakeable_def early_pending_def)
qed (auto simp: el_inv_def wakeable_def early_pending_def push_functor_def)

interpretation els: transition_system el_step el_inv
  by unfold_locales (auto simp: el_step_def intro: sys_step_inv env_step_inv)

text \<open>
  The program is never stuck while it loops and has work: with a task queued (and none from before
  \<open>Loop\<close>) or \<open>quit_\<close> set, a step that needs neither a poll timeout nor I/O is possible.
\<close>

interpretation elp: live_system sys_step el_inv
  "\<lambda>s. sys_pc s \<noteq> Outside \<and> (el_pending s \<noteq> [] \<and> \<not> early_pending s \<or> el_quit s \<or> sys_pc s \<noteq> AtPoll)"
proof unfold_locales
  fix s :: "('t, 'c) el_sys"
  assume inv: "el_inv s"
    and todo: "sys_pc s \<noteq> Outside \<and> (el_pending s \<noteq> [] \<and> \<not> early_pending s \<or> el_quit s \<or> sys_pc s \<noteq> AtPoll)"
  show "\<exists>s'. sys_step s s'"
  proof (cases "sys_pc s")
    case AtPoll
    with inv todo have "wakeable s" by (auto simp: el_inv_def)
    with AtPoll show ?thesis using sys_step.poll_wake sys_step.wake unfolding wakeable_def by blast
  next
    case (Handling cs)
    then show ?thesis using sys_step.handled sys_step.handle_wake sys_step.handle_chan
      by (metis active.exhaust list.exhaust)
  next
    case (Running fs)
    then show ?thesis using sys_step.ran sys_step.ran_all by (metis list.exhaust)
  next
    case AtTest
    then show ?thesis using sys_step.test_go sys_step.test_exit by blast
  next
    case Flagged
    then show ?thesis using sys_step.swap by blast
  qed (use todo in simp)
qed (rule sys_step_inv)

section \<open>Draining the queue\<close>

text \<open>From each point of the loop the program's own steps lead to the next.\<close>

lemma reach_step: "sys_step s s' \<Longrightarrow> sys_step\<^sup>*\<^sup>* s' s'' \<Longrightarrow> sys_step\<^sup>*\<^sup>* s s''"
  by (rule converse_rtranclp_into_rtranclp)

lemma run_tasks:
  "sys_pc s = Running fs \<Longrightarrow>
   sys_step\<^sup>*\<^sup>* s (s\<lparr>sys_pc := AtTest, el_calling := False, sys_executed := sys_executed s @ fs\<rparr>)"
proof (induction fs arbitrary: s)
  case Nil
  then show ?case using sys_step.ran_all [of s] by (auto simp: r_into_rtranclp)
next
  case (Cons f fs)
  let ?s = "s\<lparr>sys_pc := Running fs, sys_executed := sys_executed s @ [f]\<rparr>"
  have "sys_step\<^sup>*\<^sup>* ?s (?s\<lparr>sys_pc := AtTest, el_calling := False, sys_executed := sys_executed ?s @ fs\<rparr>)"
    by (rule Cons.IH) simp
  then show ?case using sys_step.ran [OF Cons.prems] by (auto intro: reach_step)
qed

lemma run_batch:
  assumes "sys_pc s = Handling []"
  shows "sys_step\<^sup>*\<^sup>* s (s\<lparr>el_pending := [], sys_pc := AtTest, el_calling := False,
           sys_executed := sys_executed s @ el_pending s\<rparr>)"
proof -
  let ?a = "s\<lparr>sys_pc := Flagged, el_calling := True\<rparr>"
  let ?b = "?a\<lparr>sys_pc := Running (el_pending s), el_pending := []\<rparr>"
  have "sys_step s ?a" by (rule sys_step.handled [OF assms])
  moreover have "sys_step ?a ?b" using sys_step.swap [of ?a] by simp
  moreover have "sys_step\<^sup>*\<^sup>* ?b (?b\<lparr>sys_pc := AtTest, el_calling := False, sys_executed := sys_executed ?b @ el_pending s\<rparr>)"
    by (rule run_tasks) simp
  ultimately show ?thesis by (auto intro: reach_step)
qed

text \<open>\<open>drained s s'\<close>: \<open>s'\<close> is back at the test, with everything that was queued in \<open>s\<close> run.\<close>

definition drained :: "('t, 'c) el_sys \<Rightarrow> ('t, 'c) el_sys \<Rightarrow> bool" where
  "drained s s' \<longleftrightarrow> sys_pc s' = AtTest \<and> el_quit s' = el_quit s \<and> el_pending s' = []
     \<and> sys_submitted s' = sys_submitted s \<and> sys_executed s' = sys_submitted s"

lemma drain_handling:
  "el_inv s \<Longrightarrow> sys_pc s = Handling cs \<Longrightarrow> \<exists>s'. sys_step\<^sup>*\<^sup>* s s' \<and> drained s s'"
proof (induction cs arbitrary: s)
  case Nil
  then show ?case using run_batch [of s]
    by (intro exI conjI) (assumption, auto simp: drained_def el_inv_def)
next
  case (Cons c cs)
  obtain s1 where s1: "sys_step s s1" "sys_pc s1 = Handling cs" "el_quit s1 = el_quit s"
      "sys_submitted s1 = sys_submitted s"
  proof (cases c)
    case Wake
    with Cons.prems that show thesis using sys_step.handle_wake [of s cs] by (simp add: WakeUpHandleRead_def)
  next
    case (Chan x)
    with Cons.prems that show thesis using sys_step.handle_chan [of s x cs] by simp
  qed
  then obtain s' where "sys_step\<^sup>*\<^sup>* s1 s'" "drained s1 s'"
    using Cons.IH sys_step_inv Cons.prems(1) by blast
  then show ?case using s1 reach_step [of s s1 s'] by (auto simp: drained_def)
qed

lemma drain_polling:
  assumes "el_inv s" and "sys_pc s = AtPoll" and "wakeable s"
  shows "\<exists>s'. sys_step\<^sup>*\<^sup>* s s' \<and> drained s s'"
proof -
  obtain s1 where s1: "sys_step\<^sup>*\<^sup>* s s1" "sys_pc s1 = AtPoll" "0 < el_wakeup s1" "el_quit s1 = el_quit s"
      "sys_submitted s1 = sys_submitted s"
  proof (cases "0 < el_wakeup s")
    case True
    with assms(2) that [of s] show thesis by simp
  next
    case False
    then have "0 < sys_waking s" using assms(3) by (simp add: wakeable_def)
    then have "sys_step s ((WakeUp s)\<lparr>sys_waking := sys_waking s - 1\<rparr>)" by (rule sys_step.wake)
    then show thesis using that [OF r_into_rtranclp] assms(2) WakeUp_pos [of s] by simp
  qed
  let ?s2 = "s1\<lparr>sys_pc := Handling [Wake]\<rparr>"
  have step: "sys_step s1 ?s2" by (rule sys_step.poll_wake [OF s1(2,3)])
  have "el_inv ?s2" using sys_step_inv [OF step] elp.steps_inv [OF s1(1) assms(1)] by blast
  then obtain s' where "sys_step\<^sup>*\<^sup>* ?s2 s'" "drained ?s2 s'" using drain_handling [of ?s2] by auto
  moreover have "sys_step\<^sup>*\<^sup>* s ?s2" using s1(1) step by (rule rtranclp.rtrancl_into_rtrancl)
  ultimately show ?thesis using s1(4,5) by (auto simp: drained_def intro: rtranclp_trans)
qed

text \<open>To the test, from anywhere in the loop.\<close>

lemma reach_test:
  assumes "el_inv s" and "sys_pc s \<noteq> Outside" and "sys_pc s = AtPoll \<longrightarrow> wakeable s"
  shows "\<exists>s'. sys_step\<^sup>*\<^sup>* s s' \<and> sys_pc s' = AtTest \<and> el_quit s' = el_quit s
    \<and> sys_submitted s' = sys_submitted s \<and> el_inv s'"
proof -
  have "\<exists>s'. sys_step\<^sup>*\<^sup>* s s' \<and> sys_pc s' = AtTest \<and> el_quit s' = el_quit s \<and> sys_submitted s' = sys_submitted s"
  proof (cases "sys_pc s")
    case AtPoll
    then show ?thesis using drain_polling assms by (auto simp: drained_def)
  next
    case (Handling cs)
    then show ?thesis using drain_handling assms(1) by (fastforce simp: drained_def)
  next
    case Flagged
    let ?b = "s\<lparr>sys_pc := Running (el_pending s), el_pending := []\<rparr>"
    have "sys_step\<^sup>*\<^sup>* ?b (?b\<lparr>sys_pc := AtTest, el_calling := False, sys_executed := sys_executed ?b @ el_pending s\<rparr>)"
      by (rule run_tasks) simp
    from reach_step [OF sys_step.swap [OF Flagged] this] show ?thesis by (intro exI conjI) (assumption, simp_all)
  next
    case (Running fs)
    from run_tasks [OF this] show ?thesis by (intro exI conjI) (assumption, simp_all)
  qed (use assms(2) in auto)
  then show ?thesis using elp.steps_inv [OF _ assms(1)] by blast
qed

text \<open>The program takes the early tasks as it takes the others, and queues none.\<close>

lemma early_step: "sys_step s s' \<Longrightarrow> early_pending s' \<Longrightarrow> early_pending s"
  by (induction rule: sys_step.induct) (auto simp: early_pending_def WakeUpHandleRead_def)

lemma early_steps: "sys_step\<^sup>*\<^sup>* s s' \<Longrightarrow> early_pending s' \<Longrightarrow> early_pending s"
  by (induction rule: rtranclp_induct) (auto dest: early_step)

lemma drain:
  assumes "el_inv s" and "sys_pc s \<noteq> Outside" and "\<not> el_quit s" and early: "\<not> early_pending s"
  shows "\<exists>s'. sys_step\<^sup>*\<^sup>* s s' \<and> sys_submitted s' = sys_submitted s \<and> sys_executed s' = sys_submitted s
    \<and> \<not> el_quit s'"
proof (cases "sys_pc s = AtPoll \<and> \<not> wakeable s")
  case True
  then have "el_pending s = []" using assms(1) early by (auto simp: el_inv_def)
  then show ?thesis using assms True by (intro exI [of _ s]) (simp add: el_inv_def)
next
  case False
  then obtain s1 where s1: "sys_step\<^sup>*\<^sup>* s s1" "sys_pc s1 = AtTest" "\<not> el_quit s1"
      "sys_submitted s1 = sys_submitted s" "el_inv s1"
    using reach_test [OF assms(1,2)] assms(3) by auto
  show ?thesis
  proof (cases "el_pending s1 = []")
    case True
    then have "sys_executed s1 = sys_submitted s" using s1(2,4,5) by (simp add: el_inv_def)
    with s1 show ?thesis by blast
  next
    case False
    let ?s2 = "s1\<lparr>sys_pc := AtPoll\<rparr>"
    have step: "sys_step s1 ?s2" by (rule sys_step.test_go [OF s1(2,3)])
    have "\<not> early_pending s1" using early_steps [OF s1(1)] early by blast
    then have "wakeable ?s2" using s1(2,5) False by (simp add: el_inv_def wakeable_def)
    then obtain s' where "sys_step\<^sup>*\<^sup>* ?s2 s'" "drained ?s2 s'"
      using drain_polling [of ?s2] sys_step_inv [OF step s1(5)] by auto
    then show ?thesis using s1 step
      by (auto simp: drained_def intro!: exI [of _ s'] intro: rtranclp_trans reach_step)
  qed
qed

text \<open>With polls that return on a timeout, everything queued is run, early tasks included.\<close>

definition timeout_step :: "('t, 'c) el_sys \<Rightarrow> ('t, 'c) el_sys \<Rightarrow> bool" where
  "timeout_step s s' \<longleftrightarrow> sys_step s s' \<or> sys_pc s = AtPoll \<and> s' = s\<lparr>sys_pc := Handling []\<rparr>"

lemma timeout_steps: "sys_step\<^sup>*\<^sup>* s s' \<Longrightarrow> timeout_step\<^sup>*\<^sup>* s s'"
  by (erule rtranclp_mono [THEN predicate2D, rotated]) (auto simp: timeout_step_def)

lemma drain_poll_timeout:
  assumes "el_inv s" and "sys_pc s = AtPoll"
  shows "\<exists>s'. timeout_step\<^sup>*\<^sup>* s s' \<and> drained s s'"
proof -
  let ?s1 = "s\<lparr>sys_pc := Handling []\<rparr>"
  have "el_inv ?s1" using assms by (auto simp: el_inv_def)
  then obtain s' where s': "sys_step\<^sup>*\<^sup>* ?s1 s'" "drained ?s1 s'" using drain_handling [of ?s1] by auto
  have "timeout_step s ?s1" using assms(2) by (simp add: timeout_step_def)
  with timeout_steps [OF s'(1)] have "timeout_step\<^sup>*\<^sup>* s s'" by (rule converse_rtranclp_into_rtranclp [rotated])
  moreover have "drained s s'" using s'(2) by (simp add: drained_def)
  ultimately show ?thesis by blast
qed

lemma drain_timeout:
  assumes "el_inv s" and "sys_pc s \<noteq> Outside" and "\<not> el_quit s"
  shows "\<exists>s'. timeout_step\<^sup>*\<^sup>* s s' \<and> sys_submitted s' = sys_submitted s \<and> sys_executed s' = sys_submitted s"
proof (cases "sys_pc s = AtPoll")
  case True
  then show ?thesis using drain_poll_timeout [OF assms(1)] by (auto simp: drained_def)
next
  case False
  then obtain s1 where s1: "sys_step\<^sup>*\<^sup>* s s1" "sys_pc s1 = AtTest" "\<not> el_quit s1"
      "sys_submitted s1 = sys_submitted s" "el_inv s1"
    using reach_test [OF assms(1,2)] assms(3) by auto
  let ?s2 = "s1\<lparr>sys_pc := AtPoll\<rparr>"
  have step: "sys_step s1 ?s2" by (rule sys_step.test_go [OF s1(2,3)])
  obtain s' where s': "timeout_step\<^sup>*\<^sup>* ?s2 s'" "drained ?s2 s'" using drain_poll_timeout [OF sys_step_inv [OF step s1(5)]] by auto
  have "timeout_step\<^sup>*\<^sup>* s ?s2" using timeout_steps s1(1) step by (meson rtranclp.rtrancl_into_rtrancl)
  then have "timeout_step\<^sup>*\<^sup>* s s'" using s'(1) by (rule rtranclp_trans)
  then show ?thesis using s'(2) s1(4) by (auto simp: drained_def)
qed

section \<open>The sequential code refines the steps\<close>

text \<open>
  \<open>DoPendingFunctors\<close>, with tasks that only queue further tasks and ask to quit, is one run of the
  interleaved system with no other thread in between. \<open>own\<close> are the calls a task makes.
\<close>

datatype 't own_call = Queue 't | AskQuit

fun own_effect :: "'t own_call list \<Rightarrow> ('t, 'c) el_sys \<Rightarrow> ('t, 'c) el_sys" where
  "own_effect [] s = s"
| "own_effect (Queue t # cs) s = own_effect cs (submit t (QueueInLoop (el_tid s) t s))"
| "own_effect (AskQuit # cs) s = own_effect cs (Quit (el_tid s) s)"

lemma QueueInLoop_frame [simp]:
  "sys_pc (QueueInLoop tid t s) = sys_pc s" "sys_executed (QueueInLoop tid t s) = sys_executed s"
  "el_tid (QueueInLoop tid t l) = el_tid l" "el_calling (QueueInLoop tid t l) = el_calling l"
  by (simp_all add: QueueInLoop_def push_functor_def Let_def)

lemma Quit_frame [simp]:
  "sys_pc (Quit tid s) = sys_pc s" "sys_executed (Quit tid s) = sys_executed s" "el_calling (Quit tid l) = el_calling l"
  by (simp_all add: Quit_def Let_def)

lemma own_effect_steps:
  "in_callback (sys_pc s) \<Longrightarrow> el_step\<^sup>*\<^sup>* s (own_effect cs s) \<and> sys_pc (own_effect cs s) = sys_pc s
     \<and> sys_executed (own_effect cs s) = sys_executed s"
proof (induction cs s rule: own_effect.induct)
  case (2 t cs s)
  have "el_step s (submit t (QueueInLoop (el_tid s) t s))"
    using env_step.queue_own [OF 2(2), of t] by (simp add: el_step_def)
  then show ?case using 2 by (auto intro: converse_rtranclp_into_rtranclp)
next
  case (3 cs s)
  have "el_step s (Quit (el_tid s) s)" using env_step.quit_own [OF 3(2)] by (simp add: el_step_def)
  then show ?case using 3 by (auto intro: converse_rtranclp_into_rtranclp)
qed simp

definition run_own :: "('t \<Rightarrow> 't own_call list) \<Rightarrow> 't \<Rightarrow> ('t, 'c) el_sys \<Rightarrow> ('t, 'c) el_sys" where
  "run_own calls f s = (let s1 = own_effect (calls f) s in s1\<lparr>sys_executed := sys_executed s1 @ [f]\<rparr>)"

lemma sys_pc_commute:
  "submit t (QueueInLoop tid t (s\<lparr>sys_pc := p\<rparr>)) = (submit t (QueueInLoop tid t s))\<lparr>sys_pc := p\<rparr>"
  "Quit tid (s\<lparr>sys_pc := p\<rparr>) = (Quit tid s)\<lparr>sys_pc := p\<rparr>"
  by (cases s, simp add: QueueInLoop_def push_functor_def IsInLoopThread_def WakeUp_def Let_def)
    (cases s, simp add: Quit_def IsInLoopThread_def WakeUp_def Let_def)

lemma sys_pc_fields:
  "s\<lparr>sys_pc := p, el_pending := ts\<rparr> = s\<lparr>el_pending := ts, sys_pc := p\<rparr>"
  "s\<lparr>sys_pc := p, el_calling := b\<rparr> = s\<lparr>el_calling := b, sys_pc := p\<rparr>"
  by (cases s, simp)+

lemma own_effect_pc: "own_effect cs (s\<lparr>sys_pc := p\<rparr>) = (own_effect cs s)\<lparr>sys_pc := p\<rparr>"
proof (induction cs s rule: own_effect.induct)
  case (2 t cs s)
  then show ?case using sys_pc_commute(1) [where t = t and tid = "el_tid s" and s = s and p = p] by simp
next
  case (3 cs s)
  then show ?case using sys_pc_commute(2) [where tid = "el_tid s" and s = s and p = p] by simp
qed simp

lemma run_own_steps:
  "el_step\<^sup>*\<^sup>* (s\<lparr>sys_pc := Running fs\<rparr>) ((fold (run_own calls) fs s)\<lparr>sys_pc := Running []\<rparr>)"
proof (induction fs arbitrary: s)
  case (Cons f fs)
  let ?s = "s\<lparr>sys_pc := Running (f # fs)\<rparr>"
  let ?e = "own_effect (calls f) ?s"
  have e: "el_step\<^sup>*\<^sup>* ?s ?e" "sys_pc ?e = Running (f # fs)"
    using own_effect_steps [of ?s "calls f"] by (auto simp: in_callback_def)
  have "el_step ?e (?e\<lparr>sys_pc := Running fs, sys_executed := sys_executed ?e @ [f]\<rparr>)"
    using sys_step.ran [OF e(2)] by (simp add: el_step_def)
  also have "?e\<lparr>sys_pc := Running fs, sys_executed := sys_executed ?e @ [f]\<rparr> = (run_own calls f s)\<lparr>sys_pc := Running fs\<rparr>"
    by (simp add: run_own_def own_effect_pc Let_def)
  finally have "el_step\<^sup>*\<^sup>* ?s ((run_own calls f s)\<lparr>sys_pc := Running fs\<rparr>)"
    using e(1) by (rule rtranclp.rtrancl_into_rtrancl [rotated])
  from rtranclp_trans [OF this Cons.IH] show ?case by simp
qed simp

section \<open>A sample run\<close>

text \<open>A loop at its poll, where another thread has queued task 5 and has not yet written the descriptor.\<close>

definition sample_sys :: "(nat, nat) el_sys" where
  "sample_sys = \<lparr>el_tid = 1, el_looping = True, el_quit = False, el_calling = False, el_wakeup = 0,
     el_pending = [5], sys_pc = AtPoll, sys_waking = 1, sys_submitted = [5], sys_executed = [], sys_early = 0\<rparr>"

lemma sample_sys_reach: "el_step\<^sup>*\<^sup>* (init_sys 1) sample_sys"
proof -
  let ?s0 = "init_sys 1 :: (nat, nat) el_sys"
  let ?s1 = "?s0\<lparr>sys_pc := AtTest, el_looping := True, el_quit := False\<rparr>"
  let ?s2 = "?s1\<lparr>sys_pc := AtPoll\<rparr>"
  have "el_step ?s0 ?s1" using env_step.start_loop [of ?s0] by (simp add: el_step_def init_sys_def)
  moreover have "el_step ?s1 ?s2" using sys_step.test_go [of ?s1] by (simp add: el_step_def init_sys_def)
  moreover have "el_step ?s2 sample_sys"
    using env_step.queue_other [of ?s2 5] by (simp add: el_step_def init_sys_def sample_sys_def push_functor_def)
  ultimately show ?thesis by (simp add: converse_rtranclp_into_rtranclp)
qed

section \<open>Properties\<close>

text \<open>
  Property C6. Tasks are run exactly once and in the order in which they were queued, whatever
  threads queue them: at every moment the tasks run, then those of the batch being run, then those
  pending, are the tasks submitted.
\<close>

theorem tasks_fifo_exactly_once:
  assumes "el_step\<^sup>*\<^sup>* (init_sys tid) s"
  shows "sys_submitted s = sys_executed s @ running (sys_pc s) @ el_pending s"
  using els.steps_inv [OF assms el_inv_init] by (simp add: el_inv_def)

theorem tasks_fifo_exactly_once_witness:
  "sys_submitted sample_sys = sys_executed sample_sys @ running (sys_pc sample_sys) @ el_pending sample_sys
   \<and> el_pending sample_sys = [5]"
  using tasks_fifo_exactly_once [OF sample_sys_reach] by (simp add: sample_sys_def)

text \<open>
  Property C7. No wake-up is lost, whatever threads queue tasks and ask to quit, before \<open>Loop\<close> or
  while it runs: in every reachable state of a running loop that is not asked to quit, the tasks
  queued are all run by steps of the program alone, with no poll timeout and no other event, unless
  one that the owner thread queued outside \<open>Loop\<close> is still pending; in that case too they are all
  run, but a poll may first have to return on its timeout. Asked to quit, the loop leaves by steps of
  the program alone.
\<close>

theorem no_lost_wakeup:
  assumes "el_step\<^sup>*\<^sup>* (init_sys tid) s" and "sys_pc s \<noteq> Outside"
  shows "if el_quit s then \<exists>s'. sys_step\<^sup>*\<^sup>* s s' \<and> sys_pc s' = Outside \<and> \<not> el_looping s'
         else if early_pending s then \<exists>s'. timeout_step\<^sup>*\<^sup>* s s' \<and> sys_executed s' = sys_submitted s
         else \<exists>s'. sys_step\<^sup>*\<^sup>* s s' \<and> sys_executed s' = sys_submitted s"
proof -
  have inv: "el_inv s" by (rule els.steps_inv [OF assms(1) el_inv_init])
  show ?thesis
  proof (cases "el_quit s")
    case True
    then have "sys_pc s = AtPoll \<longrightarrow> wakeable s" using inv by (simp add: el_inv_def)
    then obtain s1 where s1: "sys_step\<^sup>*\<^sup>* s s1" "sys_pc s1 = AtTest" "el_quit s1"
      using reach_test [OF inv assms(2)] True by auto
    from sys_step.test_exit [OF s1(2,3)] have "sys_step\<^sup>*\<^sup>* s (s1\<lparr>sys_pc := Outside, el_looping := False\<rparr>)"
      using s1(1) by (simp add: rtranclp.rtrancl_into_rtrancl)
    with True show ?thesis by (auto intro!: exI)
  next
    case False
    then show ?thesis using drain [OF inv assms(2)] drain_timeout [OF inv assms(2)] by auto
  qed
qed

theorem no_lost_wakeup_witness:
  "\<exists>s'. sys_step\<^sup>*\<^sup>* sample_sys s' \<and> sys_executed s' = [5]"
  using no_lost_wakeup [OF sample_sys_reach] by (simp add: sample_sys_def early_pending_def)

text \<open>
  Remark. \<open>DoPendingFunctors\<close> as written, run by the loop's thread with tasks that queue tasks
  and ask to quit, is an execution of the interleaved system: it takes the batch that is pending
  and leaves what its tasks queue for the next round.
\<close>

theorem DoPendingFunctors_refines:
  assumes "sys_pc s = Handling []"
  shows "el_step\<^sup>*\<^sup>* s ((DoPendingFunctors (run_own calls) s)\<lparr>sys_pc := AtTest\<rparr>)"
proof -
  let ?l2 = "s\<lparr>el_calling := True, el_pending := []\<rparr>"
  let ?l3 = "fold (run_own calls) (el_pending s) ?l2"
  have "el_step s (s\<lparr>sys_pc := Flagged, el_calling := True\<rparr>)"
    using sys_step.handled [OF assms] by (simp add: el_step_def)
  moreover have "el_step (s\<lparr>sys_pc := Flagged, el_calling := True\<rparr>) (?l2\<lparr>sys_pc := Running (el_pending s)\<rparr>)"
    using sys_step.swap [of "s\<lparr>sys_pc := Flagged, el_calling := True\<rparr>"]
    by (simp add: el_step_def sys_pc_fields)
  moreover have "el_step\<^sup>*\<^sup>* (?l2\<lparr>sys_pc := Running (el_pending s)\<rparr>) (?l3\<lparr>sys_pc := Running []\<rparr>)"
    by (rule run_own_steps)
  moreover have "el_step (?l3\<lparr>sys_pc := Running []\<rparr>) (?l3\<lparr>el_calling := False, sys_pc := AtTest\<rparr>)"
    using sys_step.ran_all [of "?l3\<lparr>sys_pc := Running []\<rparr>"] by (simp add: el_step_def sys_pc_fields)
  moreover have "(DoPendingFunctors (run_own calls) s)\<lparr>sys_pc := AtTest\<rparr> = ?l3\<lparr>el_calling := False, sys_pc := AtTest\<rparr>"
    by (simp add: DoPendingFunctors_def Let_def)
  ultimately show ?thesis
    by (metis (no_types, lifting) converse_rtranclp_into_rtranclp rtranclp.rtrancl_into_rtrancl)
qed

theorem DoPendingFunctors_refines_witness:
  "\<exists>s. el_step\<^sup>*\<^sup>* (sample_sys\<lparr>sys_pc := Handling []\<rparr>) s \<and> sys_executed s = [5] \<and> el_pending s = [7]"
  using DoPendingFunctors_refines [of "sample_sys\<lparr>sys_pc := Handling []\<rparr>" "\<lambda>f. [Queue 7]"]
  by (auto intro!: exI simp: DoPendingFunctors_def run_own_def sample_sys_def QueueInLoop_def push_functor_def
      IsInLoopThread_def WakeUp_def eventfd_max_def)

text \<open>
  Remark. A \<open>Quit\<close> that comes before \<open>Loop\<close> starts has no effect: \<open>Loop\<close> clears the flag.
  A thread that destroys an \<open>EventLoopThread\<close> in that window then joins a loop that never ends.
\<close>

theorem quit_before_Loop_is_lost:
  "Loop run handle polls (l\<lparr>el_quit := True\<rparr>) = Loop run handle polls l"
  by (simp add: Loop_def)

text \<open>
  Remark. A task the owner thread queues before it calls \<open>Loop\<close> is not followed by a wake-up:
  the loop reaches its poll with the task pending and only a timeout or an event continues it.
\<close>

theorem queue_before_Loop_waits:
  "\<exists>s. el_step\<^sup>*\<^sup>* (init_sys tid) s \<and> sys_pc s = AtPoll \<and> el_pending s = [task] \<and> (\<nexists>s'. sys_step s s')"
proof -
  define s0 :: "('a, 'b) el_sys" where "s0 = submit task (QueueInLoop tid task (init_sys tid))\<lparr>sys_early := 1\<rparr>"
  have early: "el_step (init_sys tid) s0"
    using env_step.queue_outside [of "init_sys tid :: ('a, 'b) el_sys" task] by (simp add: el_step_def s0_def init_sys_def)
  have s0: "sys_pc s0 = Outside" "el_wakeup s0 = 0" "sys_waking s0 = 0" "el_pending s0 = [task]"
    by (simp_all add: s0_def QueueInLoop_def push_functor_def IsInLoopThread_def init_sys_def)
  define s1 where "s1 = s0\<lparr>sys_pc := AtTest, el_looping := True, el_quit := False\<rparr>"
  define s2 where "s2 = s1\<lparr>sys_pc := AtPoll\<rparr>"
  have "el_step s0 s1" using env_step.start_loop [OF s0(1)] by (simp add: el_step_def s1_def)
  moreover have "el_step s1 s2" using sys_step.test_go [of s1] by (simp add: el_step_def s2_def s1_def)
  ultimately have "el_step\<^sup>*\<^sup>* (init_sys tid) s2" using early by (simp add: converse_rtranclp_into_rtranclp)
  moreover have "\<nexists>s'. sys_step s2 s'" using s0 by (auto simp: s2_def s1_def elim!: sys_step.cases)
  ultimately show ?thesis using s0(4) by (auto simp: s1_def s2_def intro!: exI [of _ s2])
qed

end
