(* ===== verification/Channel.thy ===== *)
theory Channel
  imports Prelude
begin

unbundle bit_operations_syntax

text \<open>
  A channel (\<open>include/mini_muduo/Channel.h\<close>, \<open>src/Channel.cc\<close>): the events a descriptor is
  watched for, the events that happened, and the callbacks they lead to. Callbacks are values of
  a type \<open>'cb\<close>, run by an argument \<open>call\<close> on the state the channel lives in; the setters
  that also update the poller are in \<open>EpollPoller\<close>.
\<close>

section \<open>State\<close>

type_synonym u32 = "32 word"

definition EPOLLIN :: u32 where "EPOLLIN = 0x001"
definition EPOLLPRI :: u32 where "EPOLLPRI = 0x002"
definition EPOLLOUT :: u32 where "EPOLLOUT = 0x004"
definition EPOLLERR :: u32 where "EPOLLERR = 0x008"
definition EPOLLHUP :: u32 where "EPOLLHUP = 0x010"
definition EPOLLRDHUP :: u32 where "EPOLLRDHUP = 0x2000"

lemmas epoll_flags = EPOLLIN_def EPOLLPRI_def EPOLLOUT_def EPOLLERR_def EPOLLHUP_def EPOLLRDHUP_def

definition kNoneEvent :: u32 where "kNoneEvent = 0"
definition kReadEvent :: u32 where "kReadEvent = EPOLLIN OR EPOLLPRI"
definition kWriteEvent :: u32 where "kWriteEvent = EPOLLOUT"

lemmas channel_flags = kNoneEvent_def kReadEvent_def kWriteEvent_def epoll_flags

text \<open>A \<open>weak_ptr\<close> is the identity of the object it refers to.\<close>

record 'cb channel =
  ch_tie :: "nat option"
  ch_tied :: bool
  ch_fd :: int
  ch_events :: u32
  ch_revents :: u32
  ch_index :: int
  ch_read_callback :: "'cb option"
  ch_write_callback :: "'cb option"
  ch_error_callback :: "'cb option"
  ch_close_callback :: "'cb option"

definition new_Channel :: "int \<Rightarrow> 'cb channel" where
  "new_Channel fd =
     \<lparr>ch_tie = None, ch_tied = False, ch_fd = fd, ch_events = kNoneEvent, ch_revents = kNoneEvent,
      ch_index = - 1, ch_read_callback = None, ch_write_callback = None,
      ch_error_callback = None, ch_close_callback = None\<rparr>"

definition Tie :: "nat \<Rightarrow> 'cb channel \<Rightarrow> 'cb channel" where
  "Tie obj ch = ch\<lparr>ch_tie := Some obj, ch_tied := True\<rparr>"

definition is_none_event :: "'cb channel \<Rightarrow> bool" where
  "is_none_event ch \<longleftrightarrow> ch_events ch = kNoneEvent"

definition is_writing :: "'cb channel \<Rightarrow> bool" where
  "is_writing ch \<longleftrightarrow> ch_events ch AND kWriteEvent \<noteq> 0"

definition is_reading :: "'cb channel \<Rightarrow> bool" where
  "is_reading ch \<longleftrightarrow> ch_events ch AND kReadEvent \<noteq> 0"

text \<open>The changes of \<open>events_\<close> made by the five setters.\<close>

definition set_reading :: "'cb channel \<Rightarrow> 'cb channel" where
  "set_reading ch = ch\<lparr>ch_events := ch_events ch OR kReadEvent\<rparr>"

definition set_writing :: "'cb channel \<Rightarrow> 'cb channel" where
  "set_writing ch = ch\<lparr>ch_events := ch_events ch OR kWriteEvent\<rparr>"

definition clear_writing :: "'cb channel \<Rightarrow> 'cb channel" where
  "clear_writing ch = ch\<lparr>ch_events := ch_events ch AND NOT kWriteEvent\<rparr>"

definition clear_all :: "'cb channel \<Rightarrow> 'cb channel" where
  "clear_all ch = ch\<lparr>ch_events := kNoneEvent\<rparr>"

section \<open>Event dispatch\<close>

text \<open>
  \<open>chan s\<close> is the channel as it is in state \<open>s\<close>: \<open>revents_\<close> and the callbacks are read again
  before each test, as the code does.
\<close>

definition call_if :: "('cb \<Rightarrow> 's \<Rightarrow> 's res) \<Rightarrow> bool \<Rightarrow> 'cb option \<Rightarrow> 's \<Rightarrow> 's res" where
  "call_if call b cb s = (if b then (case cb of Some f \<Rightarrow> call f s | None \<Rightarrow> Inr s) else Inr s)"

definition HandleEventWithGuard ::
    "('cb \<Rightarrow> 's \<Rightarrow> 's res) \<Rightarrow> ('s \<Rightarrow> 'cb channel) \<Rightarrow> 's \<Rightarrow> 's res" where
  "HandleEventWithGuard call chan s =
     bindE (call_if call
              (ch_revents (chan s) AND EPOLLHUP \<noteq> 0 \<and> \<not> ch_revents (chan s) AND EPOLLIN \<noteq> 0)
              (ch_close_callback (chan s)) s)
      (\<lambda>s. bindE (call_if call (ch_revents (chan s) AND EPOLLERR \<noteq> 0) (ch_error_callback (chan s)) s)
      (\<lambda>s. bindE (call_if call (ch_revents (chan s) AND EPOLLOUT \<noteq> 0) (ch_write_callback (chan s)) s)
      (\<lambda>s. call_if call (ch_revents (chan s) AND (EPOLLIN OR EPOLLPRI OR EPOLLRDHUP) \<noteq> 0)
             (ch_read_callback (chan s)) s)))"

text \<open>\<open>alive\<close> says whether the object of the weak pointer can still be locked.\<close>

definition HandleEvent ::
    "('cb \<Rightarrow> 's \<Rightarrow> 's res) \<Rightarrow> (nat \<Rightarrow> 's \<Rightarrow> bool) \<Rightarrow> ('s \<Rightarrow> 'cb channel) \<Rightarrow> 's \<Rightarrow> 's res" where
  "HandleEvent call alive chan s =
     (if ch_tied (chan s)
      then (case ch_tie (chan s) of
              Some obj \<Rightarrow> if alive obj s then HandleEventWithGuard call chan s else Inr s
            | None \<Rightarrow> Inr s)
      else HandleEventWithGuard call chan s)"

text \<open>Callbacks that always return and keep \<open>P\<close> make a dispatch that does.\<close>

lemma call_if_keeps:
  assumes "\<And>cb s. P s \<Longrightarrow> \<exists>s'. call cb s = Inr s' \<and> P s'" and "P s"
  shows "\<exists>s'. call_if call b cb s = Inr s' \<and> P s'"
  using assms by (cases cb) (auto simp: call_if_def)

lemma HandleEventWithGuard_keeps:
  assumes "\<And>cb s. P s \<Longrightarrow> \<exists>s'. call cb s = Inr s' \<and> P s'" and "P s"
  shows "\<exists>s'. HandleEventWithGuard call chan s = Inr s' \<and> P s'"
proof -
  note keeps = call_if_keeps [of P call, OF assms(1)]
  have bind: "\<exists>s'. bindE m f = Inr s' \<and> P s'"
    if "\<exists>s'. m = Inr s' \<and> P s'" "\<And>s. P s \<Longrightarrow> \<exists>s'. f s = Inr s' \<and> P s'" for m f
    using that by auto
  show ?thesis unfolding HandleEventWithGuard_def by (intro bind keeps assms(2))
qed

lemma HandleEvent_keeps:
  assumes "\<And>cb s. P s \<Longrightarrow> \<exists>s'. call cb s = Inr s' \<and> P s'" and "P s"
  shows "\<exists>s'. HandleEvent call alive chan s = Inr s' \<and> P s'"
  using HandleEventWithGuard_keeps [of P call s chan, OF assms] assms(2)
  by (auto simp: HandleEvent_def split: option.splits)

text \<open>A channel with a read callback only.\<close>

lemma call_if_None [simp]: "call_if call b None s = Inr s"
  by (simp add: call_if_def)

lemma HandleEvent_read_only:
  assumes "\<not> ch_tied (chan s)" "ch_write_callback (chan s) = None" "ch_error_callback (chan s) = None"
    "ch_close_callback (chan s) = None"
  shows "HandleEvent call alive chan s =
    call_if call (ch_revents (chan s) AND (EPOLLIN OR EPOLLPRI OR EPOLLRDHUP) \<noteq> 0) (ch_read_callback (chan s)) s"
  using assms by (simp add: HandleEvent_def HandleEventWithGuard_def)

section \<open>Lemmas on the event masks\<close>

lemma is_writing_set_writing [simp]: "is_writing (set_writing ch)"
proof -
  have "bit (ch_events ch OR kWriteEvent) 2" by (simp add: channel_flags bit_simps)
  then have "bit ((ch_events ch OR kWriteEvent) AND kWriteEvent) 2"
    by (simp add: channel_flags bit_simps)
  then show ?thesis by (auto simp: is_writing_def set_writing_def)
qed

lemma is_writing_clear_writing [simp]: "\<not> is_writing (clear_writing ch)"
  by (simp add: is_writing_def clear_writing_def and.assoc)

lemma is_writing_clear_all [simp]: "\<not> is_writing (clear_all ch)"
  by (simp add: is_writing_def clear_all_def kNoneEvent_def)

lemma is_writing_new [simp]: "\<not> is_writing (new_Channel fd)"
  by (simp add: is_writing_def new_Channel_def kNoneEvent_def)

lemma is_none_clear_all [simp]: "is_none_event (clear_all ch)"
  by (simp add: is_none_event_def clear_all_def)

lemma read_and_write: "kReadEvent AND kWriteEvent = 0"
  by (simp add: channel_flags)

lemma is_writing_events: "ch_events ch = ch_events ch' \<Longrightarrow> is_writing ch = is_writing ch'"
  by (simp add: is_writing_def)

lemma is_reading_events: "ch_events ch = ch_events ch' \<Longrightarrow> is_reading ch = is_reading ch'"
  by (simp add: is_reading_def)

lemma is_reading_setters [simp]:
  "is_reading (set_reading ch)" "is_reading (set_writing ch) \<longleftrightarrow> is_reading ch"
  "is_reading (clear_writing ch) \<longleftrightarrow> is_reading ch"
proof -
  have "bit (ch_events ch OR kReadEvent) 0" by (simp add: channel_flags bit_simps)
  then have "bit ((ch_events ch OR kReadEvent) AND kReadEvent) 0" by (simp add: channel_flags bit_simps)
  then show "is_reading (set_reading ch)" by (auto simp: is_reading_def set_reading_def)
  show "is_reading (set_writing ch) \<longleftrightarrow> is_reading ch"
    by (simp add: is_reading_def set_writing_def bit.conj_disj_distrib2 and.commute [of kWriteEvent] read_and_write)
  have "NOT kWriteEvent AND kReadEvent = kReadEvent"
    by (rule bit_eqI) (auto simp: channel_flags bit_simps)
  then show "is_reading (clear_writing ch) \<longleftrightarrow> is_reading ch"
    by (simp add: is_reading_def clear_writing_def and.assoc)
qed

lemma is_reading_none: "is_reading ch \<Longrightarrow> \<not> is_none_event ch"
  by (auto simp: is_reading_def is_none_event_def kNoneEvent_def)

lemma is_writing_set_reading [simp]: "is_writing (set_reading ch) = is_writing ch"
  by (simp add: is_writing_def set_reading_def bit.conj_disj_distrib2 read_and_write)

lemma not_none_set_writing [simp]: "\<not> is_none_event (set_writing ch)"
  using is_writing_set_writing [of ch] by (auto simp: is_none_event_def is_writing_def kNoneEvent_def)

lemma not_none_writing: "is_writing ch \<Longrightarrow> \<not> is_none_event ch"
  by (auto simp: is_none_event_def is_writing_def kNoneEvent_def)

lemma setters_frame [simp]:
  "ch_fd (set_reading ch) = ch_fd ch" "ch_fd (set_writing ch) = ch_fd ch"
  "ch_fd (clear_writing ch) = ch_fd ch" "ch_fd (clear_all ch) = ch_fd ch"
  "ch_index (set_reading ch) = ch_index ch" "ch_index (set_writing ch) = ch_index ch"
  "ch_index (clear_writing ch) = ch_index ch" "ch_index (clear_all ch) = ch_index ch"
  by (simp_all add: set_reading_def set_writing_def clear_writing_def clear_all_def)

section \<open>The callbacks an event leads to\<close>

definition sel_close :: "'cb channel \<Rightarrow> 'cb list" where
  "sel_close ch = (if ch_revents ch AND EPOLLHUP \<noteq> 0 \<and> \<not> ch_revents ch AND EPOLLIN \<noteq> 0
     then case_option [] (\<lambda>f. [f]) (ch_close_callback ch) else [])"

definition sel_error :: "'cb channel \<Rightarrow> 'cb list" where
  "sel_error ch = (if ch_revents ch AND EPOLLERR \<noteq> 0
     then case_option [] (\<lambda>f. [f]) (ch_error_callback ch) else [])"

definition sel_write :: "'cb channel \<Rightarrow> 'cb list" where
  "sel_write ch = (if ch_revents ch AND EPOLLOUT \<noteq> 0
     then case_option [] (\<lambda>f. [f]) (ch_write_callback ch) else [])"

definition sel_read :: "'cb channel \<Rightarrow> 'cb list" where
  "sel_read ch = (if ch_revents ch AND (EPOLLIN OR EPOLLPRI OR EPOLLRDHUP) \<noteq> 0
     then case_option [] (\<lambda>f. [f]) (ch_read_callback ch) else [])"

definition dispatch :: "'cb channel \<Rightarrow> 'cb list" where
  "dispatch ch = sel_close ch @ sel_error ch @ sel_write ch @ sel_read ch"

lemmas sel_defs = sel_close_def sel_error_def sel_write_def sel_read_def

fun run_calls :: "('cb \<Rightarrow> 's \<Rightarrow> 's res) \<Rightarrow> 'cb list \<Rightarrow> 's \<Rightarrow> 's res" where
  "run_calls call [] s = Inr s"
| "run_calls call (f # fs) s = bindE (call f s) (run_calls call fs)"

lemma run_calls_append:
  "run_calls call (fs @ gs) s = bindE (run_calls call fs s) (run_calls call gs)"
proof (induction fs arbitrary: s)
  case (Cons f fs)
  then show ?case by (cases "call f s") simp_all
qed simp

text \<open>A callback that leaves the channel's revents and callbacks alone.\<close>

definition same_handlers :: "'cb channel \<Rightarrow> 'cb channel \<Rightarrow> bool" where
  "same_handlers c d \<longleftrightarrow> ch_revents c = ch_revents d
     \<and> ch_read_callback c = ch_read_callback d \<and> ch_write_callback c = ch_write_callback d
     \<and> ch_error_callback c = ch_error_callback d \<and> ch_close_callback c = ch_close_callback d"

lemma call_if_run: "call_if call b cb s = run_calls call (if b then case_option [] (\<lambda>f. [f]) cb else []) s"
  by (cases cb) (auto simp: call_if_def bindE_def split: sum.splits)

lemma run_calls_same:
  assumes "\<And>f s s'. call f s = Inr s' \<Longrightarrow> same_handlers (chan s') (chan s)"
  shows "run_calls call fs s = Inr s' \<Longrightarrow> same_handlers (chan s') (chan s)"
proof (induction fs arbitrary: s)
  case Nil
  then show ?case by (simp add: same_handlers_def)
next
  case (Cons f fs)
  then obtain s1 where "call f s = Inr s1" "run_calls call fs s1 = Inr s'"
    by (auto simp: bindE_Inr_iff)
  with Cons.IH [of s1] assms [of f s s1] show ?case by (simp add: same_handlers_def)
qed

lemma sel_same:
  assumes "same_handlers c d"
  shows "sel_error c = sel_error d" "sel_write c = sel_write d" "sel_read c = sel_read d"
  using assms by (simp_all add: same_handlers_def sel_defs)

lemma same_handlers_trans: "same_handlers a b \<Longrightarrow> same_handlers b c \<Longrightarrow> same_handlers a c"
  by (simp add: same_handlers_def)

lemma HandleEventWithGuard_sel:
  "HandleEventWithGuard call chan s =
     bindE (run_calls call (sel_close (chan s)) s)
      (\<lambda>s. bindE (run_calls call (sel_error (chan s)) s)
      (\<lambda>s. bindE (run_calls call (sel_write (chan s)) s)
      (\<lambda>s. run_calls call (sel_read (chan s)) s)))"
  by (simp add: HandleEventWithGuard_def call_if_run sel_defs)

lemma HandleEventWithGuard_dispatch:
  assumes "\<And>f s s'. call f s = Inr s' \<Longrightarrow> same_handlers (chan s') (chan s)"
  shows "HandleEventWithGuard call chan s = run_calls call (dispatch (chan s)) s"
proof -
  have same: "same_handlers (chan s') (chan s)" if "run_calls call fs s = Inr s'" for fs s s'
    using run_calls_same [of call chan fs s s'] assms that by blast
  show ?thesis
  proof (cases "run_calls call (sel_close (chan s)) s")
    case (Inr s1)
    note 1 = Inr and same1 = same [OF Inr]
    show ?thesis
    proof (cases "run_calls call (sel_error (chan s)) s1")
      case (Inr s2)
      note same2 = same_handlers_trans [OF same [OF Inr] same1]
      show ?thesis
      proof (cases "run_calls call (sel_write (chan s)) s2")
        case (Inr s3)
        note same3 = same_handlers_trans [OF same [OF Inr] same2]
        from 1 \<open>run_calls call (sel_error (chan s)) s1 = Inr s2\<close> Inr same1 same2 same3
        show ?thesis
          by (simp add: HandleEventWithGuard_sel dispatch_def run_calls_append sel_same)
      qed (use 1 \<open>run_calls call (sel_error (chan s)) s1 = Inr s2\<close> same1 same2 in
          \<open>simp add: HandleEventWithGuard_sel dispatch_def run_calls_append sel_same\<close>)
    qed (use 1 same1 in \<open>simp add: HandleEventWithGuard_sel dispatch_def run_calls_append sel_same\<close>)
  qed (simp add: HandleEventWithGuard_sel dispatch_def run_calls_append)
qed

section \<open>Properties\<close>

text \<open>
  Property C29. Event dispatch: when the callbacks leave the channel's own fields alone,
  \<open>HandleEvent\<close> runs exactly the callbacks the reported events select, at most one of each kind,
  in the order close (hang-up without input), error, write, read, and stops at the first fault;
  if the channel is tied to an object that no longer exists, it runs none.
\<close>

theorem HandleEvent_dispatch:
  assumes "\<And>f s s'. call f s = Inr s' \<Longrightarrow> same_handlers (chan s') (chan s)"
  shows "HandleEvent call alive chan s =
    (if \<not> ch_tied (chan s) \<or> (\<exists>obj. ch_tie (chan s) = Some obj \<and> alive obj s)
     then run_calls call (dispatch (chan s)) s else Inr s)"
  using HandleEventWithGuard_dispatch [of call chan s] assms
  by (auto simp: HandleEvent_def split: option.splits)

definition demo_channel :: "string channel" where
  "demo_channel = (new_Channel 5)\<lparr>ch_revents := EPOLLHUP OR EPOLLOUT OR EPOLLERR,
     ch_close_callback := Some ''close'', ch_error_callback := Some ''error'',
     ch_write_callback := Some ''write'', ch_read_callback := Some ''read''\<rparr>"

theorem HandleEvent_dispatch_witness:
  "HandleEvent (\<lambda>f s. Inr (s @ [f])) (\<lambda>_ _. True) (\<lambda>_. demo_channel) [] =
     Inr [''close'', ''error'', ''write'']"
proof -
  have "dispatch demo_channel = [''close'', ''error'', ''write'']"
    by (simp add: dispatch_def sel_defs demo_channel_def new_Channel_def channel_flags)
  moreover have "\<not> ch_tied demo_channel" by (simp add: demo_channel_def new_Channel_def)
  ultimately show ?thesis
    using HandleEvent_dispatch [of "\<lambda>f s. Inr (s @ [f])" "\<lambda>_. demo_channel" "\<lambda>_ _. True" "[]"]
    by (simp add: same_handlers_def)
qed

end
