(* ===== verification/EpollPoller.thy ===== *)
theory EpollPoller
  imports Channel
begin

text \<open>
  The poller (\<open>include/mini_muduo/Poller.h\<close>, \<open>src/Poller.cc\<close>,
  \<open>include/mini_muduo/EpollPoller.h\<close>, \<open>src/EpollPoller.cc\<close>), the two functions of
  \<open>EventLoop\<close> that lead to it, and the operations of \<open>Channel\<close> that call them. The kernel's
  epoll instance is a state of type \<open>'k\<close> with the system calls as arguments; \<open>interest\<close> reads
  its interest list. The record is extended by the layers above (connections, server), so every
  operation here also acts on their states.
\<close>

section \<open>State and system calls\<close>

type_synonym epoll_event = "u32 \<times> nat"

datatype ctl_op = EPOLL_CTL_ADD | EPOLL_CTL_DEL | EPOLL_CTL_MOD

type_synonym 'k epoll_ctl_fun = "'k \<Rightarrow> ctl_op \<Rightarrow> int \<Rightarrow> epoll_event \<Rightarrow> int \<times> 'k"

datatype wait_result = WaitErr int | WaitEvents "epoll_event list"

type_synonym 'k epoll_wait_fun = "'k \<Rightarrow> nat \<Rightarrow> int \<Rightarrow> wait_result"

definition kNew :: int where "kNew = - 1"
definition kAdded :: int where "kAdded = 1"
definition kDeleted :: int where "kDeleted = 2"
definition kInitEventListSize :: nat where "kInitEventListSize = 16"

lemmas index_defs = kNew_def kAdded_def kDeleted_def

text \<open>
  \<open>p_chans\<close> are the live \<open>Channel\<close> objects by address, \<open>p_channels\<close> is \<open>channels_\<close>, and the two
  numbers are \<open>events_.size()\<close> and \<open>events_.capacity()\<close>. \<open>p_loop_tid\<close> is the owner loop's
  \<open>thread_id_\<close>.
\<close>

record ('cb, 'k) poller =
  p_loop_tid :: int
  p_chans :: "nat \<rightharpoonup> 'cb channel"
  p_channels :: "int \<rightharpoonup> nat"
  p_kernel :: 'k
  p_events_size :: nat
  p_events_cap :: nat

definition new_EpollPoller :: "int \<Rightarrow> int \<Rightarrow> 'k \<Rightarrow> ('cb, 'k) poller res" where
  "new_EpollPoller epollfd loop_tid k =
     (if epollfd < 0 then Inl Aborted
      else Inr \<lparr>p_loop_tid = loop_tid, p_chans = Map.empty, p_channels = Map.empty, p_kernel = k,
                p_events_size = kInitEventListSize, p_events_cap = kInitEventListSize\<rparr>)"

definition hasChannel :: "nat \<Rightarrow> ('cb, 'k, 'z) poller_scheme \<Rightarrow> bool res" where
  "hasChannel c p =
     (case p_chans p c of None \<Rightarrow> Inl UseAfterFree
      | Some ch \<Rightarrow> Inr (p_channels p (ch_fd ch) = Some c))"

definition AssertInLoopThread :: "int \<Rightarrow> ('cb, 'k, 'z) poller_scheme \<Rightarrow> unit res" where
  "AssertInLoopThread tid p = (if tid = p_loop_tid p then Inr () else Inl Aborted)"

text \<open>Apply a change to a live channel object.\<close>

definition on_channel :: "nat \<Rightarrow> ('cb channel \<Rightarrow> 'cb channel) \<Rightarrow> ('cb, 'k, 'z) poller_scheme \<Rightarrow>
    ('cb, 'k, 'z) poller_scheme res" where
  "on_channel c f p =
     (case p_chans p c of None \<Rightarrow> Inl UseAfterFree
      | Some ch \<Rightarrow> Inr (p\<lparr>p_chans := (p_chans p)(c \<mapsto> f ch)\<rparr>))"

section \<open>EpollPoller\<close>

definition Update :: "'k epoll_ctl_fun \<Rightarrow> ctl_op \<Rightarrow> nat \<Rightarrow> ('cb, 'k, 'z) poller_scheme \<Rightarrow>
    ('cb, 'k, 'z) poller_scheme res" where
  "Update ctl operation c p =
     (case p_chans p c of None \<Rightarrow> Inl UseAfterFree
      | Some ch \<Rightarrow>
          (let r = ctl (p_kernel p) operation (ch_fd ch) (ch_events ch, c);
               p' = p\<lparr>p_kernel := snd r\<rparr>
           in if fst r < 0
              then (if operation = EPOLL_CTL_DEL then Inr p' else Inl Aborted)
              else Inr p'))"

definition UpdateChannel :: "'k epoll_ctl_fun \<Rightarrow> int \<Rightarrow> nat \<Rightarrow> ('cb, 'k, 'z) poller_scheme \<Rightarrow>
    ('cb, 'k, 'z) poller_scheme res" where
  "UpdateChannel ctl tid c p =
     bindE (AssertInLoopThread tid p) (\<lambda>_.
       case p_chans p c of None \<Rightarrow> Inl UseAfterFree
       | Some ch \<Rightarrow>
           if ch_index ch = kNew \<or> ch_index ch = kDeleted
           then bindE (on_channel c (\<lambda>ch. ch\<lparr>ch_index := kAdded\<rparr>)
                        (if ch_index ch = kNew
                         then p\<lparr>p_channels := (p_channels p)(ch_fd ch \<mapsto> c)\<rparr> else p))
                  (Update ctl EPOLL_CTL_ADD c)
           else if is_none_event ch
           then bindE (Update ctl EPOLL_CTL_DEL c p) (on_channel c (\<lambda>ch. ch\<lparr>ch_index := kDeleted\<rparr>))
           else Update ctl EPOLL_CTL_MOD c p)"

definition RemoveChannel :: "'k epoll_ctl_fun \<Rightarrow> int \<Rightarrow> nat \<Rightarrow> ('cb, 'k, 'z) poller_scheme \<Rightarrow>
    ('cb, 'k, 'z) poller_scheme res" where
  "RemoveChannel ctl tid c p =
     bindE (AssertInLoopThread tid p) (\<lambda>_.
       case p_chans p c of None \<Rightarrow> Inl UseAfterFree
       | Some ch \<Rightarrow>
           if ch_index ch = kAdded
           then bindE (Update ctl EPOLL_CTL_DEL c p) (on_channel c (\<lambda>ch. ch\<lparr>ch_index := kDeleted\<rparr>))
           else Inr p)"

text \<open>The loop of \<open>FillActiveChannels\<close> over the events the kernel stored; returns the active list.\<close>

fun FillActiveChannels :: "epoll_event list \<Rightarrow> ('cb, 'k, 'z) poller_scheme \<Rightarrow>
    (nat list \<times> ('cb, 'k, 'z) poller_scheme) res" where
  "FillActiveChannels [] p = Inr ([], p)"
| "FillActiveChannels ((ev, c) # evs) p =
     bindE (on_channel c (\<lambda>ch. ch\<lparr>ch_revents := ev\<rparr>) p)
       (\<lambda>p1. bindE (FillActiveChannels evs p1) (\<lambda>(active, p2). Inr (c # active, p2)))"

text \<open>\<open>vector::resize\<close>: the capacity grows when needed and never shrinks.\<close>

definition resize_events :: "nat \<Rightarrow> ('cb, 'k, 'z) poller_scheme \<Rightarrow> ('cb, 'k, 'z) poller_scheme" where
  "resize_events n p = p\<lparr>p_events_size := n, p_events_cap := max (p_events_cap p) n\<rparr>"

definition Poll :: "'k epoll_wait_fun \<Rightarrow> int \<Rightarrow> ('cb, 'k, 'z) poller_scheme \<Rightarrow>
    (nat list \<times> ('cb, 'k, 'z) poller_scheme) res" where
  "Poll wait timeoutMs p =
     (case wait (p_kernel p) (p_events_size p) timeoutMs of
        WaitErr e \<Rightarrow> Inl Aborted
      | WaitEvents evs \<Rightarrow>
          if evs = [] then Inr ([], p)
          else bindE (FillActiveChannels evs p)
            (\<lambda>(active, p1). Inr (active,
               if length evs = p_events_cap p1 then resize_events (p_events_cap p1 * 2) p1
               else if length evs \<le> kInitEventListSize then resize_events kInitEventListSize p1
               else p1)))"

section \<open>EventLoop's entry points and the channel operations that use them\<close>

text \<open>Off the loop thread \<open>EventLoop::UpdateChannel\<close> logs and returns; \<open>RemoveChannel\<close> aborts.\<close>

definition LoopUpdateChannel :: "'k epoll_ctl_fun \<Rightarrow> int \<Rightarrow> nat \<Rightarrow> ('cb, 'k, 'z) poller_scheme \<Rightarrow>
    ('cb, 'k, 'z) poller_scheme res" where
  "LoopUpdateChannel ctl tid c p =
     (if tid \<noteq> p_loop_tid p then Inr p else UpdateChannel ctl tid c p)"

definition LoopRemoveChannel :: "'k epoll_ctl_fun \<Rightarrow> int \<Rightarrow> nat \<Rightarrow> ('cb, 'k, 'z) poller_scheme \<Rightarrow>
    ('cb, 'k, 'z) poller_scheme res" where
  "LoopRemoveChannel ctl tid c p = RemoveChannel ctl tid c p"

definition EnableReading :: "'k epoll_ctl_fun \<Rightarrow> int \<Rightarrow> nat \<Rightarrow> ('cb, 'k, 'z) poller_scheme \<Rightarrow>
    ('cb, 'k, 'z) poller_scheme res" where
  "EnableReading ctl tid c p = bindE (on_channel c set_reading p) (LoopUpdateChannel ctl tid c)"

definition EnableWriting :: "'k epoll_ctl_fun \<Rightarrow> int \<Rightarrow> nat \<Rightarrow> ('cb, 'k, 'z) poller_scheme \<Rightarrow>
    ('cb, 'k, 'z) poller_scheme res" where
  "EnableWriting ctl tid c p = bindE (on_channel c set_writing p) (LoopUpdateChannel ctl tid c)"

definition DisableWriting :: "'k epoll_ctl_fun \<Rightarrow> int \<Rightarrow> nat \<Rightarrow> ('cb, 'k, 'z) poller_scheme \<Rightarrow>
    ('cb, 'k, 'z) poller_scheme res" where
  "DisableWriting ctl tid c p = bindE (on_channel c clear_writing p) (LoopUpdateChannel ctl tid c)"

definition DisableAll :: "'k epoll_ctl_fun \<Rightarrow> int \<Rightarrow> nat \<Rightarrow> ('cb, 'k, 'z) poller_scheme \<Rightarrow>
    ('cb, 'k, 'z) poller_scheme res" where
  "DisableAll ctl tid c p = bindE (on_channel c clear_all p) (LoopUpdateChannel ctl tid c)"

definition Remove :: "'k epoll_ctl_fun \<Rightarrow> int \<Rightarrow> nat \<Rightarrow> ('cb, 'k, 'z) poller_scheme \<Rightarrow>
    ('cb, 'k, 'z) poller_scheme res" where
  "Remove ctl tid c p =
     (case p_chans p c of None \<Rightarrow> Inl UseAfterFree
      | Some ch \<Rightarrow> bindE (assertE (is_none_event ch)) (\<lambda>_. LoopRemoveChannel ctl tid c p))"

text \<open>Construction and destruction of a channel object.\<close>

definition create_channel :: "nat \<Rightarrow> 'cb channel \<Rightarrow> ('cb, 'k, 'z) poller_scheme \<Rightarrow>
    ('cb, 'k, 'z) poller_scheme" where
  "create_channel c ch p = p\<lparr>p_chans := (p_chans p)(c \<mapsto> ch)\<rparr>"

definition destroy_channel :: "nat \<Rightarrow> ('cb, 'k, 'z) poller_scheme \<Rightarrow> ('cb, 'k, 'z) poller_scheme" where
  "destroy_channel c p = p\<lparr>p_chans := (p_chans p)(c := None)\<rparr>"

section \<open>What the kernel documents\<close>

text \<open>
  \<open>epoll_ctl\<close>: adding an unregistered descriptor, modifying or deleting a registered one
  succeeds and changes that entry of the interest list only. This is the documented behaviour for
  open descriptors on a kernel whose resources suffice: \<open>ENOSPC\<close> and \<open>ENOMEM\<close>, on which
  \<open>Update\<close> aborts the process, are not considered.
\<close>

definition epoll_ctl_spec :: "'k epoll_ctl_fun \<Rightarrow> ('k \<Rightarrow> int \<rightharpoonup> epoll_event) \<Rightarrow> bool" where
  "epoll_ctl_spec ctl interest \<longleftrightarrow>
     (\<forall>k fd ev. interest k fd = None \<longrightarrow>
        0 \<le> fst (ctl k EPOLL_CTL_ADD fd ev)
        \<and> interest (snd (ctl k EPOLL_CTL_ADD fd ev)) = (interest k)(fd \<mapsto> ev))
   \<and> (\<forall>k fd ev. interest k fd \<noteq> None \<longrightarrow>
        0 \<le> fst (ctl k EPOLL_CTL_MOD fd ev)
        \<and> interest (snd (ctl k EPOLL_CTL_MOD fd ev)) = (interest k)(fd \<mapsto> ev))
   \<and> (\<forall>k fd ev. interest k fd \<noteq> None \<longrightarrow>
        0 \<le> fst (ctl k EPOLL_CTL_DEL fd ev)
        \<and> interest (snd (ctl k EPOLL_CTL_DEL fd ev)) = (interest k)(fd := None))"

lemma epoll_add:
  assumes "epoll_ctl_spec ctl interest" and "interest k fd = None"
  shows "0 \<le> fst (ctl k EPOLL_CTL_ADD fd ev)"
    and "interest (snd (ctl k EPOLL_CTL_ADD fd ev)) = (interest k)(fd \<mapsto> ev)"
  using assms unfolding epoll_ctl_spec_def by blast+

lemma epoll_mod:
  assumes "epoll_ctl_spec ctl interest" and "interest k fd \<noteq> None"
  shows "0 \<le> fst (ctl k EPOLL_CTL_MOD fd ev)"
    and "interest (snd (ctl k EPOLL_CTL_MOD fd ev)) = (interest k)(fd \<mapsto> ev)"
  using assms unfolding epoll_ctl_spec_def by blast+

lemma epoll_del:
  assumes "epoll_ctl_spec ctl interest" and "interest k fd \<noteq> None"
  shows "0 \<le> fst (ctl k EPOLL_CTL_DEL fd ev)"
    and "interest (snd (ctl k EPOLL_CTL_DEL fd ev)) = (interest k)(fd := None)"
  using assms unfolding epoll_ctl_spec_def by blast+

text \<open>\<open>epoll_wait\<close> stores at most \<open>maxevents\<close> events, each with the data of a registered descriptor.\<close>

definition epoll_wait_spec :: "'k epoll_wait_fun \<Rightarrow> ('k \<Rightarrow> int \<rightharpoonup> epoll_event) \<Rightarrow> bool" where
  "epoll_wait_spec wait interest \<longleftrightarrow>
     (\<forall>k n t evs. wait k n t = WaitEvents evs \<longrightarrow> length evs \<le> n
        \<and> (\<forall>ev c. (ev, c) \<in> set evs \<longrightarrow> (\<exists>fd e. interest k fd = Some (e, c))))"

text \<open>A kernel that behaves as documented, for the witnesses: its state is the interest list.\<close>

fun ref_ctl :: "(int \<rightharpoonup> epoll_event) epoll_ctl_fun" where
  "ref_ctl k EPOLL_CTL_ADD fd ev = (case k fd of None \<Rightarrow> (0, k(fd \<mapsto> ev)) | Some _ \<Rightarrow> (- 1, k))"
| "ref_ctl k EPOLL_CTL_MOD fd ev = (case k fd of None \<Rightarrow> (- 1, k) | Some _ \<Rightarrow> (0, k(fd \<mapsto> ev)))"
| "ref_ctl k EPOLL_CTL_DEL fd ev = (case k fd of None \<Rightarrow> (- 1, k) | Some _ \<Rightarrow> (0, k(fd := None)))"

lemma ref_ctl_spec: "epoll_ctl_spec ref_ctl (\<lambda>k. k)"
  by (auto simp: epoll_ctl_spec_def split: option.splits)

section \<open>The interest list mirrors the channels\<close>

definition poller_inv :: "('k \<Rightarrow> int \<rightharpoonup> epoll_event) \<Rightarrow> ('cb, 'k, 'z) poller_scheme \<Rightarrow> bool" where
  "poller_inv interest p \<longleftrightarrow>
     (\<forall>c ch. p_chans p c = Some ch \<longrightarrow> ch_index ch \<in> {kNew, kAdded, kDeleted}
        \<and> (ch_index ch = kAdded \<longrightarrow> interest (p_kernel p) (ch_fd ch) = Some (ch_events ch, c)))
   \<and> (\<forall>fd ev c. interest (p_kernel p) fd = Some (ev, c) \<longrightarrow>
        (\<exists>ch. p_chans p c = Some ch \<and> ch_fd ch = fd \<and> ch_index ch = kAdded))
   \<and> (\<forall>c d ch dh. p_chans p c = Some ch \<longrightarrow> p_chans p d = Some dh \<longrightarrow> ch_fd ch = ch_fd dh \<longrightarrow> c = d)"

lemma poller_inv_index: "poller_inv interest p \<Longrightarrow> p_chans p c = Some ch \<Longrightarrow> ch_index ch \<in> {kNew, kAdded, kDeleted}"
  by (auto simp: poller_inv_def)

lemma poller_inv_added:
  "poller_inv interest p \<Longrightarrow> p_chans p c = Some ch \<Longrightarrow> ch_index ch = kAdded \<Longrightarrow>
   interest (p_kernel p) (ch_fd ch) = Some (ch_events ch, c)"
  by (auto simp: poller_inv_def)

lemma poller_inv_registered:
  "poller_inv interest p \<Longrightarrow> interest (p_kernel p) fd = Some (ev, c) \<Longrightarrow>
   \<exists>ch. p_chans p c = Some ch \<and> ch_fd ch = fd \<and> ch_index ch = kAdded"
  unfolding poller_inv_def by blast

lemma poller_inv_unique:
  "poller_inv interest p \<Longrightarrow> p_chans p c = Some ch \<Longrightarrow> p_chans p d = Some dh \<Longrightarrow>
   ch_fd ch = ch_fd dh \<Longrightarrow> c = d"
  unfolding poller_inv_def by blast

lemma poller_invI:
  assumes "\<And>c ch. p_chans p c = Some ch \<Longrightarrow> ch_index ch \<in> {kNew, kAdded, kDeleted}"
    and "\<And>c ch. p_chans p c = Some ch \<Longrightarrow> ch_index ch = kAdded \<Longrightarrow>
           interest (p_kernel p) (ch_fd ch) = Some (ch_events ch, c)"
    and "\<And>fd ev c. interest (p_kernel p) fd = Some (ev, c) \<Longrightarrow>
           \<exists>ch. p_chans p c = Some ch \<and> ch_fd ch = fd \<and> ch_index ch = kAdded"
    and "\<And>c d ch dh. p_chans p c = Some ch \<Longrightarrow> p_chans p d = Some dh \<Longrightarrow> ch_fd ch = ch_fd dh \<Longrightarrow> c = d"
  shows "poller_inv interest p"
  unfolding poller_inv_def using assms by blast

lemma poller_inv_not_added:
  assumes "poller_inv interest p" and "p_chans p c = Some ch" and "ch_index ch \<noteq> kAdded"
  shows "interest (p_kernel p) (ch_fd ch) = None"
proof (cases "interest (p_kernel p) (ch_fd ch)")
  case (Some e)
  obtain ev d where "e = (ev, d)" by (cases e)
  with Some assms(1) obtain dh where d: "p_chans p d = Some dh" "ch_fd dh = ch_fd ch" "ch_index dh = kAdded"
    using poller_inv_registered by blast
  then have "d = c" using assms(1,2) poller_inv_unique by blast
  with d assms show ?thesis by simp
qed simp

text \<open>Replacing one channel together with its own entry of the interest list keeps the invariant.\<close>

lemma poller_inv_replace:
  assumes inv: "poller_inv interest p" and c: "p_chans p c = Some ch" and fd: "ch_fd ch' = ch_fd ch"
    and idx: "ch_index ch' \<in> {kNew, kAdded, kDeleted}"
    and k: "interest k' = (interest (p_kernel p))
       (ch_fd ch := (if ch_index ch' = kAdded then Some (ch_events ch', c) else None))"
  shows "poller_inv interest (p\<lparr>p_chans := (p_chans p)(c \<mapsto> ch'), p_channels := m, p_kernel := k'\<rparr>)"
    (is "poller_inv interest ?p")
proof (rule poller_invI)
  have uniq: "d = c" if "p_chans p d = Some dh" "ch_fd dh = ch_fd ch" for d dh
    using poller_inv_unique [OF inv that(1) c that(2)] .
  fix d dh
  assume d: "p_chans ?p d = Some dh"
  then show "ch_index dh \<in> {kNew, kAdded, kDeleted}"
    using idx poller_inv_index [OF inv] by (cases "d = c") auto
  show "interest (p_kernel ?p) (ch_fd dh) = Some (ch_events dh, d)" if a: "ch_index dh = kAdded"
  proof (cases "d = c")
    case True
    with d a fd show ?thesis by (simp add: k)
  next
    case False
    with d have "p_chans p d = Some dh" by simp
    with False a uniq poller_inv_added [OF inv] show ?thesis by (auto simp: k)
  qed
  show "d = e" if e: "p_chans ?p e = Some eh" and eq: "ch_fd dh = ch_fd eh" for e eh
  proof -
    have "\<exists>xh. p_chans p x = Some xh \<and> ch_fd xh = ch_fd yh" if "p_chans ?p x = Some yh" for x yh
      using that c fd by (cases "x = c") auto
    from this [OF d] this [OF e] eq poller_inv_unique [OF inv] show ?thesis by metis
  qed
next
  fix f ev d
  assume f: "interest (p_kernel ?p) f = Some (ev, d)"
  show "\<exists>dh. p_chans ?p d = Some dh \<and> ch_fd dh = f \<and> ch_index dh = kAdded"
  proof (cases "f = ch_fd ch")
    case True
    with f show ?thesis by (auto simp: k fd split: if_splits)
  next
    case False
    with f have "interest (p_kernel p) f = Some (ev, d)" by (simp add: k)
    from poller_inv_registered [OF inv this] False c show ?thesis by (cases "d = c") auto
  qed
qed

lemma channel_same_index:
  "ch_index ch = i \<Longrightarrow> ch\<lparr>ch_events := e, ch_index := i\<rparr> = ch\<lparr>ch_events := e\<rparr>"
  by (cases ch) simp

lemma Update_Inr:
  assumes "p_chans p c = Some ch" and "0 \<le> fst (ctl (p_kernel p) op (ch_fd ch) (ch_events ch, c))"
  shows "Update ctl op c p = Inr (p\<lparr>p_kernel := snd (ctl (p_kernel p) op (ch_fd ch) (ch_events ch, c))\<rparr>)"
  using assms by (simp add: Update_def Let_def)

text \<open>
  The five setters have one shape: change \<open>events_\<close>, then \<open>Update()\<close>. Afterwards the channel is
  registered with its new events, unless it was registered and now wants none.
\<close>

lemma change_events:
  assumes spec: "epoll_ctl_spec ctl interest" and inv: "poller_inv interest p"
    and c: "p_chans p c = Some ch" and t: "tid = p_loop_tid p" and f: "f ch = ch\<lparr>ch_events := ev\<rparr>"
  defines "del \<equiv> ch_index ch = kAdded \<and> ev = kNoneEvent"
  defines "ch' \<equiv> ch\<lparr>ch_events := ev, ch_index := (if del then kDeleted else kAdded)\<rparr>"
  shows "\<exists>k' m. bindE (on_channel c f p) (LoopUpdateChannel ctl tid c) =
       Inr (p\<lparr>p_chans := (p_chans p)(c \<mapsto> ch'), p_channels := m, p_kernel := k'\<rparr>)
     \<and> interest k' = (interest (p_kernel p))(ch_fd ch := if del then None else Some (ev, c))
     \<and> poller_inv interest (p\<lparr>p_chans := (p_chans p)(c \<mapsto> ch'), p_channels := m, p_kernel := k'\<rparr>)"
proof -
  let ?k = "p_kernel p"
  let ?op = "if ch_index ch = kAdded then if ev = kNoneEvent then EPOLL_CTL_DEL else EPOLL_CTL_MOD
             else EPOLL_CTL_ADD"
  let ?r = "ctl ?k ?op (ch_fd ch) (ev, c)"
  have idx: "ch_index ch \<in> {kNew, kAdded, kDeleted}" using inv c by (rule poller_inv_index)
  have reg: "interest ?k (ch_fd ch) = None \<longleftrightarrow> ch_index ch \<noteq> kAdded"
    using poller_inv_added [OF inv c] poller_inv_not_added [OF inv c] by auto
  have ok: "0 \<le> fst ?r"
    using epoll_add(1) [OF spec] epoll_mod(1) [OF spec] epoll_del(1) [OF spec] reg
    by (cases "ch_index ch = kAdded"; cases "ev = kNoneEvent") simp_all
  have k': "interest (snd ?r) = (interest ?k)(ch_fd ch := if del then None else Some (ev, c))"
    using epoll_add(2) [OF spec] epoll_mod(2) [OF spec] epoll_del(2) [OF spec] reg
    by (cases "ch_index ch = kAdded"; cases "ev = kNoneEvent") (simp_all add: del_def)
  have upd: "\<exists>m. UpdateChannel ctl tid c (p\<lparr>p_chans := (p_chans p)(c \<mapsto> ch\<lparr>ch_events := ev\<rparr>)\<rparr>) =
      Inr (p\<lparr>p_chans := (p_chans p)(c \<mapsto> ch'), p_channels := m, p_kernel := snd ?r\<rparr>)"
  proof (cases "ch_index ch = kAdded")
    case True
    then show ?thesis using ok t
      by (cases "ev = kNoneEvent"; intro exI [of _ "p_channels p"])
        (simp_all add: UpdateChannel_def AssertInLoopThread_def Update_def Let_def on_channel_def
          is_none_event_def ch'_def del_def index_defs channel_same_index)
  next
    case False
    then show ?thesis using ok t idx
      by (intro exI [of _ "if ch_index ch = kNew then (p_channels p)(ch_fd ch \<mapsto> c) else p_channels p"])
        (auto simp: UpdateChannel_def AssertInLoopThread_def Update_def Let_def on_channel_def
          ch'_def del_def index_defs)
  qed
  then have run: "\<exists>m. bindE (on_channel c f p) (LoopUpdateChannel ctl tid c) =
      Inr (p\<lparr>p_chans := (p_chans p)(c \<mapsto> ch'), p_channels := m, p_kernel := snd ?r\<rparr>)"
    using c t f by (simp add: on_channel_def LoopUpdateChannel_def)
  have "poller_inv interest (p\<lparr>p_chans := (p_chans p)(c \<mapsto> ch'), p_channels := m, p_kernel := snd ?r\<rparr>)" for m
    by (rule poller_inv_replace [OF inv c])
      (unfold k', simp_all add: ch'_def index_defs)
  with run k' show ?thesis by blast
qed

lemma setters_events:
  "set_reading ch = ch\<lparr>ch_events := ch_events ch OR kReadEvent\<rparr>"
  "set_writing ch = ch\<lparr>ch_events := ch_events ch OR kWriteEvent\<rparr>"
  "clear_writing ch = ch\<lparr>ch_events := ch_events ch AND NOT kWriteEvent\<rparr>"
  "clear_all ch = ch\<lparr>ch_events := kNoneEvent\<rparr>"
  by (simp_all add: set_reading_def set_writing_def clear_writing_def clear_all_def)

lemma new_Channel_fields:
  "ch_index (new_Channel fd) = kNew" "ch_events (new_Channel fd) = kNoneEvent" "ch_fd (new_Channel fd) = fd"
  by (simp_all add: new_Channel_def index_defs)

text \<open>\<open>EnableReading\<close> on a channel not yet registered.\<close>

lemma EnableReading_new:
  assumes spec: "epoll_ctl_spec ctl interest" and inv: "poller_inv interest p"
    and c: "p_chans p c = Some ch" "ch_index ch = kNew" "ch_events ch = kNoneEvent" and t: "tid = p_loop_tid p"
  defines "ch' \<equiv> ch\<lparr>ch_events := kReadEvent, ch_index := kAdded\<rparr>"
  shows "\<exists>k m. EnableReading ctl tid c p = Inr (p\<lparr>p_chans := (p_chans p)(c \<mapsto> ch'), p_channels := m, p_kernel := k\<rparr>)
    \<and> poller_inv interest (p\<lparr>p_chans := (p_chans p)(c \<mapsto> ch'), p_channels := m, p_kernel := k\<rparr>)"
proof -
  have f: "set_reading ch = ch\<lparr>ch_events := kReadEvent\<rparr>" using c(3) by (simp add: set_reading_def kNoneEvent_def)
  have k: "\<not> (ch_index ch = kAdded \<and> kReadEvent = kNoneEvent)" using c(2) by (simp add: index_defs)
  from change_events [of ctl interest p c ch tid set_reading kReadEvent, OF spec inv c(1) t f] k show ?thesis
    by (auto simp: EnableReading_def ch'_def)
qed

text \<open>\<open>RemoveChannel\<close> leaves a channel unregistered, and so does \<open>Remove\<close> of one that wants nothing.\<close>

lemma RemoveChannel_Inr:
  assumes spec: "epoll_ctl_spec ctl interest" and inv: "poller_inv interest p"
    and c: "p_chans p c = Some ch" and t: "tid = p_loop_tid p"
  defines "ch' \<equiv> (if ch_index ch = kAdded then ch\<lparr>ch_index := kDeleted\<rparr> else ch)"
  shows "\<exists>k'. LoopRemoveChannel ctl tid c p = Inr (p\<lparr>p_chans := (p_chans p)(c \<mapsto> ch'), p_kernel := k'\<rparr>)
     \<and> interest k' = (interest (p_kernel p))(ch_fd ch := None)
     \<and> poller_inv interest (p\<lparr>p_chans := (p_chans p)(c \<mapsto> ch'), p_kernel := k'\<rparr>)"
proof -
  let ?r = "ctl (p_kernel p) EPOLL_CTL_DEL (ch_fd ch) (ch_events ch, c)"
  define k' where "k' = (if ch_index ch = kAdded then snd ?r else p_kernel p)"
  have idx: "ch_index ch \<in> {kNew, kAdded, kDeleted}" using inv c by (rule poller_inv_index)
  have k: "interest k' = (interest (p_kernel p))(ch_fd ch := None)"
    using epoll_del(2) [OF spec] poller_inv_added [OF inv c] poller_inv_not_added [OF inv c]
    by (cases "ch_index ch = kAdded") (auto simp: k'_def)
  have ok: "ch_index ch = kAdded \<Longrightarrow> 0 \<le> fst ?r"
    using epoll_del(1) [OF spec] poller_inv_added [OF inv c] by auto
  have run: "LoopRemoveChannel ctl tid c p = Inr (p\<lparr>p_chans := (p_chans p)(c \<mapsto> ch'), p_kernel := k'\<rparr>)"
    using ok c t
    by (cases "ch_index ch = kAdded")
      (auto simp: LoopRemoveChannel_def RemoveChannel_def AssertInLoopThread_def Update_def
        Let_def on_channel_def k'_def ch'_def map_upd_triv)
  have "poller_inv interest (p\<lparr>p_chans := (p_chans p)(c \<mapsto> ch'), p_channels := p_channels p, p_kernel := k'\<rparr>)"
    by (rule poller_inv_replace [OF inv c]) (use idx in \<open>auto simp: ch'_def k index_defs\<close>)
  with run k show ?thesis by (simp add: exI [of _ k'])
qed

lemma Remove_Inr:
  assumes spec: "epoll_ctl_spec ctl interest" and inv: "poller_inv interest p"
    and c: "p_chans p c = Some ch" and t: "tid = p_loop_tid p" and n: "is_none_event ch"
  defines "ch' \<equiv> (if ch_index ch = kAdded then ch\<lparr>ch_index := kDeleted\<rparr> else ch)"
  shows "\<exists>k'. Remove ctl tid c p = Inr (p\<lparr>p_chans := (p_chans p)(c \<mapsto> ch'), p_kernel := k'\<rparr>)
     \<and> interest k' = (interest (p_kernel p))(ch_fd ch := None)
     \<and> poller_inv interest (p\<lparr>p_chans := (p_chans p)(c \<mapsto> ch'), p_kernel := k'\<rparr>)"
  using RemoveChannel_Inr [OF spec inv c t] c n by (simp add: Remove_def ch'_def)

lemma create_channel_inv:
  assumes "poller_inv interest p" and "p_chans p c = None" and "ch_index ch = kNew"
    and "\<And>d dh. p_chans p d = Some dh \<Longrightarrow> ch_fd dh \<noteq> ch_fd ch"
  shows "poller_inv interest (create_channel c ch p)"
proof (rule poller_invI)
  fix d dh
  assume d: "p_chans (create_channel c ch p) d = Some dh"
  then show "ch_index dh \<in> {kNew, kAdded, kDeleted}"
    using assms(3) poller_inv_index [OF assms(1)] by (cases "d = c") (auto simp: create_channel_def)
  show "interest (p_kernel (create_channel c ch p)) (ch_fd dh) = Some (ch_events dh, d)"
    if "ch_index dh = kAdded"
    using that d assms(3) poller_inv_added [OF assms(1)]
    by (cases "d = c") (auto simp: create_channel_def index_defs)
  show "d = e" if "p_chans (create_channel c ch p) e = Some eh" "ch_fd dh = ch_fd eh" for e eh
    using that d assms(4) poller_inv_unique [OF assms(1), of d dh e eh]
    by (cases "d = c"; cases "e = c") (force simp: create_channel_def)+
next
  fix fd ev d
  assume "interest (p_kernel (create_channel c ch p)) fd = Some (ev, d)"
  then have "interest (p_kernel p) fd = Some (ev, d)" by (simp add: create_channel_def)
  from poller_inv_registered [OF assms(1) this] assms(2)
  show "\<exists>dh. p_chans (create_channel c ch p) d = Some dh \<and> ch_fd dh = fd \<and> ch_index dh = kAdded"
    by (cases "d = c") (auto simp: create_channel_def)
qed

lemma destroy_channel_inv:
  assumes "poller_inv interest p" and "p_chans p c = Some ch" and "ch_index ch \<noteq> kAdded"
  shows "poller_inv interest (destroy_channel c p)"
proof (rule poller_invI)
  fix d dh
  assume "p_chans (destroy_channel c p) d = Some dh"
  then have d: "p_chans p d = Some dh" by (cases "d = c") (auto simp: destroy_channel_def)
  from poller_inv_index [OF assms(1) d] show "ch_index dh \<in> {kNew, kAdded, kDeleted}" .
  show "interest (p_kernel (destroy_channel c p)) (ch_fd dh) = Some (ch_events dh, d)"
    if "ch_index dh = kAdded"
    using poller_inv_added [OF assms(1) d that] by (simp add: destroy_channel_def)
  show "d = e" if "p_chans (destroy_channel c p) e = Some eh" "ch_fd dh = ch_fd eh" for e eh
    using that d poller_inv_unique [OF assms(1), of d dh e eh]
    by (cases "e = c") (auto simp: destroy_channel_def)
next
  fix fd ev d
  assume "interest (p_kernel (destroy_channel c p)) fd = Some (ev, d)"
  then have "interest (p_kernel p) fd = Some (ev, d)" by (simp add: destroy_channel_def)
  from poller_inv_registered [OF assms(1) this] assms(2,3)
  show "\<exists>dh. p_chans (destroy_channel c p) d = Some dh \<and> ch_fd dh = fd \<and> ch_index dh = kAdded"
    by (cases "d = c") (auto simp: destroy_channel_def)
qed

lemma set_revents_inv:
  assumes "poller_inv interest p" and "p_chans p c = Some ch"
  shows "poller_inv interest (p\<lparr>p_chans := (p_chans p)(c \<mapsto> ch\<lparr>ch_revents := ev\<rparr>)\<rparr>)"
proof -
  have "poller_inv interest (p\<lparr>p_chans := (p_chans p)(c \<mapsto> ch\<lparr>ch_revents := ev\<rparr>),
      p_channels := p_channels p, p_kernel := p_kernel p\<rparr>)"
    using poller_inv_index [OF assms] poller_inv_added [OF assms] poller_inv_not_added [OF assms]
    by (intro poller_inv_replace [OF assms]) (auto simp: fun_eq_iff)
  then show ?thesis by simp
qed

lemma FillActiveChannels_Inr:
  assumes "poller_inv interest p" and "\<And>ev c. (ev, c) \<in> set evs \<Longrightarrow> p_chans p c \<noteq> None"
  shows "\<exists>p'. FillActiveChannels evs p = Inr (map snd evs, p') \<and> poller_inv interest p'
    \<and> dom (p_chans p') = dom (p_chans p) \<and> p_kernel p' = p_kernel p
    \<and> p_events_size p' = p_events_size p \<and> p_events_cap p' = p_events_cap p"
  using assms
proof (induction evs arbitrary: p)
  case Nil
  then show ?case by simp
next
  case (Cons e evs)
  obtain ev c where e: "e = (ev, c)" by (cases e)
  with Cons.prems(2) obtain ch where ch: "p_chans p c = Some ch" by fastforce
  define p1 where "p1 = p\<lparr>p_chans := (p_chans p)(c \<mapsto> ch\<lparr>ch_revents := ev\<rparr>)\<rparr>"
  have "poller_inv interest p1" unfolding p1_def using Cons.prems(1) ch by (rule set_revents_inv)
  moreover have "p_chans p1 d \<noteq> None" if "(f, d) \<in> set evs" for f d
    using that Cons.prems(2) [of f d] by (auto simp: p1_def)
  ultimately obtain p' where "FillActiveChannels evs p1 = Inr (map snd evs, p')" "poller_inv interest p'"
    "dom (p_chans p') = dom (p_chans p1)" "p_kernel p' = p_kernel p1"
    "p_events_size p' = p_events_size p1" "p_events_cap p' = p_events_cap p1"
    using Cons.IH [of p1] by blast
  then show ?case using e ch by (auto simp: p1_def on_channel_def)
qed

lemma resize_events_frame [simp]:
  "poller_inv interest (resize_events n q) = poller_inv interest q"
  "p_chans (resize_events n q) = p_chans q" "p_loop_tid (resize_events n q) = p_loop_tid q"
  "poller.more (resize_events n q) = poller.more q"
  "p_events_size (resize_events n q) = n" "p_events_cap (resize_events n q) = max (p_events_cap q) n"
  by (simp_all add: resize_events_def poller_inv_def)

lemma FillActiveChannels_frame:
  "FillActiveChannels es q = Inr (a, q') \<Longrightarrow>
   p_events_size q' = p_events_size q \<and> p_events_cap q' = p_events_cap q"
proof (induction es arbitrary: q a)
  case (Cons e es)
  then show ?case
    by (cases e) (fastforce simp: bindE_Inr_iff on_channel_def split: option.splits)
qed simp

section \<open>Properties\<close>

text \<open>What a setter of a channel does to its own events, and the poller operation that follows.\<close>

datatype setter = SetReading | SetWriting | ClearWriting | ClearAll

fun apply_setter :: "setter \<Rightarrow> 'cb channel \<Rightarrow> 'cb channel" where
  "apply_setter SetReading = set_reading"
| "apply_setter SetWriting = set_writing"
| "apply_setter ClearWriting = clear_writing"
| "apply_setter ClearAll = clear_all"

fun run_setter :: "'k epoll_ctl_fun \<Rightarrow> int \<Rightarrow> nat \<Rightarrow> setter \<Rightarrow> ('cb, 'k, 'z) poller_scheme \<Rightarrow>
    ('cb, 'k, 'z) poller_scheme res" where
  "run_setter ctl tid c SetReading = EnableReading ctl tid c"
| "run_setter ctl tid c SetWriting = EnableWriting ctl tid c"
| "run_setter ctl tid c ClearWriting = DisableWriting ctl tid c"
| "run_setter ctl tid c ClearAll = DisableAll ctl tid c"

lemma run_setter_eq: "run_setter ctl tid c op p = bindE (on_channel c (apply_setter op) p) (LoopUpdateChannel ctl tid c)"
  by (cases op) (simp_all add: EnableReading_def EnableWriting_def DisableWriting_def DisableAll_def)

lemma apply_setter_events: "apply_setter op ch = ch\<lparr>ch_events := ch_events (apply_setter op ch)\<rparr>"
  by (cases op) (simp_all add: setters_events)

text \<open>A setter, run on any state that extends the poller's.\<close>

lemma run_setter_Inr:
  assumes spec: "epoll_ctl_spec ctl interest" and inv: "poller_inv interest s"
    and c: "p_chans s c = Some ch" and t: "tid = p_loop_tid s"
  shows "\<exists>k' m ch'. run_setter ctl tid c op s =
      Inr (s\<lparr>p_chans := (p_chans s)(c \<mapsto> ch'), p_channels := m, p_kernel := k'\<rparr>)
    \<and> ch_events ch' = ch_events (apply_setter op ch) \<and> ch_fd ch' = ch_fd ch
    \<and> (ch_index ch' = kAdded \<longleftrightarrow> \<not> (ch_index ch = kAdded \<and> is_none_event (apply_setter op ch)))
    \<and> poller_inv interest (s\<lparr>p_chans := (p_chans s)(c \<mapsto> ch'), p_channels := m, p_kernel := k'\<rparr>)"
proof -
  let ?ev = "ch_events (apply_setter op ch)"
  let ?ch = "ch\<lparr>ch_events := ?ev, ch_index := if ch_index ch = kAdded \<and> ?ev = kNoneEvent then kDeleted else kAdded\<rparr>"
  obtain k' m where "run_setter ctl tid c op s =
        Inr (s\<lparr>p_chans := (p_chans s)(c \<mapsto> ?ch), p_channels := m, p_kernel := k'\<rparr>)"
      "poller_inv interest (s\<lparr>p_chans := (p_chans s)(c \<mapsto> ?ch), p_channels := m, p_kernel := k'\<rparr>)"
    using change_events [OF spec inv c t, of "apply_setter op" ?ev, OF apply_setter_events]
    unfolding run_setter_eq by blast
  then show ?thesis by (intro exI [of _ k'] exI [of _ m] exI [of _ ?ch]) (simp add: is_none_event_def index_defs)
qed

text \<open>\<open>DisableAll\<close> and then \<open>Remove\<close>, whatever the channel wanted before.\<close>

lemma teardown_Inr:
  assumes spec: "epoll_ctl_spec ctl interest" and inv: "poller_inv interest s"
    and c: "p_chans s c = Some ch" and t: "tid = p_loop_tid s"
  shows "\<exists>k' m ch'. bindE (DisableAll ctl tid c s) (Remove ctl tid c) =
      Inr (s\<lparr>p_chans := (p_chans s)(c \<mapsto> ch'), p_channels := m, p_kernel := k'\<rparr>)
    \<and> is_none_event ch' \<and> ch_fd ch' = ch_fd ch \<and> ch_index ch' \<noteq> kAdded \<and> interest k' (ch_fd ch) = None
    \<and> poller_inv interest (s\<lparr>p_chans := (p_chans s)(c \<mapsto> ch'), p_channels := m, p_kernel := k'\<rparr>)"
proof -
  obtain k1 m ch1 where s1: "DisableAll ctl tid c s = Inr (s\<lparr>p_chans := (p_chans s)(c \<mapsto> ch1), p_channels := m, p_kernel := k1\<rparr>)"
      "ch_events ch1 = ch_events (clear_all ch)" "ch_fd ch1 = ch_fd ch"
      "poller_inv interest (s\<lparr>p_chans := (p_chans s)(c \<mapsto> ch1), p_channels := m, p_kernel := k1\<rparr>)"
    using run_setter_Inr [OF assms, of ClearAll] by auto
  define ch2 where "ch2 = (if ch_index ch1 = kAdded then ch1\<lparr>ch_index := kDeleted\<rparr> else ch1)"
  have n: "is_none_event ch1" using s1(2) by (simp add: is_none_event_def clear_all_def)
  let ?s1 = "s\<lparr>p_chans := (p_chans s)(c \<mapsto> ch1), p_channels := m, p_kernel := k1\<rparr>"
  have c1: "p_chans ?s1 c = Some ch1" and t1: "tid = p_loop_tid ?s1" using t by simp_all
  from Remove_Inr [OF spec s1(4) c1 t1 n, folded ch2_def]
  obtain k2 where s2: "Remove ctl tid c ?s1 = Inr (?s1\<lparr>p_chans := (p_chans ?s1)(c \<mapsto> ch2), p_kernel := k2\<rparr>)"
      "interest k2 = (interest (p_kernel ?s1))(ch_fd ch1 := None)"
      "poller_inv interest (?s1\<lparr>p_chans := (p_chans ?s1)(c \<mapsto> ch2), p_kernel := k2\<rparr>)"
    by blast
  have eq: "?s1\<lparr>p_chans := (p_chans ?s1)(c \<mapsto> ch2), p_kernel := k2\<rparr> = s\<lparr>p_chans := (p_chans s)(c \<mapsto> ch2), p_channels := m, p_kernel := k2\<rparr>"
    by simp
  have "is_none_event ch2" "ch_fd ch2 = ch_fd ch" "ch_index ch2 \<noteq> kAdded"
    using n s1(3) by (auto simp: ch2_def is_none_event_def index_defs)
  with s1(1,3) s2(1,2) s2(3) [unfolded eq] show ?thesis
    by (intro exI [of _ k2] exI [of _ m] exI [of _ ch2]) simp
qed

lemma poller_inv_cong:
  "p_chans a = p_chans b \<Longrightarrow> p_kernel a = p_kernel b \<Longrightarrow> poller_inv interest a = poller_inv interest b"
  by (simp add: poller_inv_def)

text \<open>
  Property C10. The kernel's interest list mirrors the channels. On the loop's thread, with an
  epoll instance that behaves as documented, \<open>EnableReading\<close>, \<open>EnableWriting\<close>, \<open>DisableWriting\<close>
  and \<open>DisableAll\<close> never abort; afterwards the descriptor is registered with exactly the
  channel's new events and the channel's address, or not at all when a registered channel wants
  nothing; no other descriptor's entry changes; and the invariant (an added channel is
  registered with its events, every registered pointer is a live added channel) is kept.
\<close>

theorem channel_setters_mirror_kernel:
  assumes "epoll_ctl_spec ctl interest" and "poller_inv interest p"
    and "p_chans p c = Some ch" and "tid = p_loop_tid p"
  shows "\<exists>p' ch'. run_setter ctl tid c op p = Inr p' \<and> poller_inv interest p'
    \<and> p_chans p' = (p_chans p)(c \<mapsto> ch') \<and> ch_events ch' = ch_events (apply_setter op ch)
    \<and> interest (p_kernel p') = (interest (p_kernel p))
        (ch_fd ch := if ch_index ch = kAdded \<and> is_none_event ch' then None else Some (ch_events ch', c))"
  using change_events [OF assms, of "apply_setter op" "ch_events (apply_setter op ch)",
      OF apply_setter_events]
  unfolding run_setter_eq is_none_event_def by fastforce

definition witness_poller :: "(string, int \<rightharpoonup> epoll_event) poller" where
  "witness_poller = \<lparr>p_loop_tid = 1, p_chans = [7 \<mapsto> new_Channel 5], p_channels = Map.empty,
     p_kernel = Map.empty, p_events_size = 16, p_events_cap = 16\<rparr>"

lemma witness_poller_inv: "poller_inv (\<lambda>k. k) witness_poller"
  by (auto simp: poller_inv_def witness_poller_def new_Channel_def index_defs split: if_splits)

theorem channel_setters_mirror_kernel_witness:
  "\<exists>p'. run_setter ref_ctl 1 7 SetReading witness_poller = Inr p' \<and> poller_inv (\<lambda>k. k) p'
    \<and> p_kernel p' 5 = Some (kReadEvent, 7)"
proof -
  have "p_chans witness_poller 7 = Some (new_Channel 5)" "(1 :: int) = p_loop_tid witness_poller"
    by (simp_all add: witness_poller_def)
  from channel_setters_mirror_kernel [OF ref_ctl_spec witness_poller_inv this, of SetReading]
  show ?thesis by (auto simp: new_Channel_def set_reading_def index_defs kNoneEvent_def)
qed

text \<open>
  Remark. Teardown leaves nothing behind: \<open>DisableAll\<close> followed by \<open>Remove\<close>, in any state
  of the channel (never added, added, or deleted before), neither fails its assertion nor aborts,
  ends with the descriptor unregistered and the channel not added, and the object can then be
  destroyed without leaving a pointer to it in the kernel.
\<close>

theorem teardown_unregisters:
  assumes "epoll_ctl_spec ctl interest" and "poller_inv interest p"
    and "p_chans p c = Some ch" and "tid = p_loop_tid p"
  shows "\<exists>p'. bindE (DisableAll ctl tid c p) (Remove ctl tid c) = Inr p'
    \<and> interest (p_kernel p') (ch_fd ch) = None \<and> poller_inv interest p'
    \<and> poller_inv interest (destroy_channel c p')"
proof -
  from change_events [OF assms, of clear_all kNoneEvent, OF setters_events(4)]
  obtain p1 ch1 where p1: "DisableAll ctl tid c p = Inr p1" and inv1: "poller_inv interest p1"
    and c1: "p_chans p1 c = Some ch1" and n1: "is_none_event ch1" and fd1: "ch_fd ch1 = ch_fd ch"
    and t1: "tid = p_loop_tid p1"
    unfolding DisableAll_def is_none_event_def using assms(4) by fastforce
  from Remove_Inr [OF assms(1) inv1 c1 t1 n1]
  obtain p2 ch2 where p2: "Remove ctl tid c p1 = Inr p2" and inv2: "poller_inv interest p2"
    and k2: "interest (p_kernel p2) (ch_fd ch1) = None" and c2: "p_chans p2 c = Some ch2"
    and fd2: "ch_fd ch2 = ch_fd ch1"
    by (auto split: if_splits)
  have "ch_index ch2 \<noteq> kAdded"
    using poller_inv_added [OF inv2 c2] k2 fd2 by auto
  with p1 p2 k2 fd1 inv2 c2 show ?thesis by (auto intro: destroy_channel_inv)
qed

theorem teardown_unregisters_witness:
  "\<exists>p'. bindE (DisableAll ref_ctl 1 7 witness_poller) (Remove ref_ctl 1 7) = Inr p'
    \<and> p_kernel p' 5 = None"
proof -
  have "p_chans witness_poller 7 = Some (new_Channel 5)" "(1 :: int) = p_loop_tid witness_poller"
    by (simp_all add: witness_poller_def)
  from teardown_unregisters [OF ref_ctl_spec witness_poller_inv this]
  show ?thesis by (auto simp: new_Channel_def)
qed

text \<open>
  A successful \<open>Poll\<close> changes nothing of the channels but the \<open>revents_\<close> of those reported, the
  last report of a channel standing.
\<close>

definition with_revents :: "epoll_event list \<Rightarrow> nat \<Rightarrow> 'cb channel \<Rightarrow> 'cb channel" where
  "with_revents evs c ch = fold (\<lambda>(ev, d) ch. if d = c then ch\<lparr>ch_revents := ev\<rparr> else ch) evs ch"

lemma with_revents_frame [simp]:
  "ch_events (with_revents evs c ch) = ch_events ch" "ch_index (with_revents evs c ch) = ch_index ch"
  "ch_fd (with_revents evs c ch) = ch_fd ch" "ch_tied (with_revents evs c ch) = ch_tied ch" "ch_tie (with_revents evs c ch) = ch_tie ch"
  "ch_read_callback (with_revents evs c ch) = ch_read_callback ch"
  "ch_write_callback (with_revents evs c ch) = ch_write_callback ch"
  "ch_error_callback (with_revents evs c ch) = ch_error_callback ch"
  "ch_close_callback (with_revents evs c ch) = ch_close_callback ch"
  by (induction evs arbitrary: ch) (auto simp: with_revents_def split: if_splits)

lemma FillActiveChannels_chans:
  "FillActiveChannels evs p = Inr (active, p') \<Longrightarrow> p_loop_tid p' = p_loop_tid p \<and> poller.more p' = poller.more p
   \<and> (\<forall>c. p_chans p' c = map_option (with_revents evs c) (p_chans p c))"
proof (induction evs arbitrary: p active)
  case Nil
  then show ?case by (simp add: with_revents_def map_option.id [unfolded id_def])
next
  case (Cons e evs)
  obtain ev d where e: "e = (ev, d)" by (cases e)
  with Cons.prems obtain ch active' where d: "p_chans p d = Some ch"
      "FillActiveChannels evs (p\<lparr>p_chans := (p_chans p)(d \<mapsto> ch\<lparr>ch_revents := ev\<rparr>)\<rparr>) = Inr (active', p')"
    by (auto simp: bindE_Inr_iff on_channel_def split: option.splits)
  show ?case using Cons.IH [OF d(2)] d(1) by (auto simp: e with_revents_def map_option_case split: option.splits)
qed

text \<open>The size and the capacity of the event vector after a poll that stored \<open>n\<close> events.\<close>

fun events_after :: "nat \<Rightarrow> nat \<times> nat \<Rightarrow> nat \<times> nat" where
  "events_after n (sz, cap) =
     (if n = 0 then (sz, cap) else if n = cap then (2 * cap, 2 * cap)
      else if n \<le> 16 then (16, max cap 16) else (sz, cap))"

lemma Poll_Inr:
  assumes "epoll_wait_spec wait interest" and "poller_inv interest p"
    and "wait (p_kernel p) (p_events_size p) t = WaitEvents evs"
  shows "\<exists>p'. Poll wait t p = Inr (map snd evs, p') \<and> poller_inv interest p' \<and> p_loop_tid p' = p_loop_tid p
    \<and> poller.more p' = poller.more p
    \<and> (\<forall>c. p_chans p' c = map_option (with_revents evs c) (p_chans p c))
    \<and> (\<forall>c \<in> set (map snd evs). p_chans p' c \<noteq> None)
    \<and> (p_events_size p', p_events_cap p') = events_after (length evs) (p_events_size p, p_events_cap p)"
proof -
  have live: "p_chans p c \<noteq> None" if "(ev, c) \<in> set evs" for ev c
    using assms that poller_inv_registered [OF assms(2)]
    unfolding epoll_wait_spec_def by fastforce
  from FillActiveChannels_Inr [OF assms(2), of evs] live
  obtain p1 where p1: "FillActiveChannels evs p = Inr (map snd evs, p1)" "poller_inv interest p1" by blast
  note frame = FillActiveChannels_chans [OF p1(1)]
  have "p_chans p1 c \<noteq> None" if "c \<in> set (map snd evs)" for c
    using that live frame by auto
  then show ?thesis using assms(3) p1 frame FillActiveChannels_frame [OF p1(1)]
    by (cases "evs = []") (auto simp: Poll_def kInitEventListSize_def)
qed

lemma with_revents_simps:
  "with_revents [] c ch = ch"
  "with_revents ((ev, d) # evs) c ch = with_revents evs c (if d = c then ch\<lparr>ch_revents := ev\<rparr> else ch)"
  by (simp_all add: with_revents_def)

lemma with_revents_other: "c \<notin> snd ` set evs \<Longrightarrow> with_revents evs c ch = ch"
  by (induction evs arbitrary: ch) (auto simp: with_revents_simps)

lemma with_revents_once: "distinct (map snd evs) \<Longrightarrow> (ev, c) \<in> set evs \<Longrightarrow> with_revents evs c ch = ch\<lparr>ch_revents := ev\<rparr>"
proof (induction evs arbitrary: ch)
  case (Cons x evs)
  then show ?case by (cases x; cases "x = (ev, c)") (force simp: with_revents_simps with_revents_other)+
qed simp

text \<open>
  Property C28. \<open>Poll\<close> with an \<open>epoll_wait\<close> that behaves as documented: the active list is the
  reported channels in the kernel's order, every one of them a live object; a channel reported
  once has exactly its \<open>revents_\<close> set to what was reported, an unreported one is not touched; the
  event vector doubles when it was filled to its capacity and otherwise goes back to 16 entries
  when at most so many were reported; the invariant is kept. A negative return, an interrupted
  call included, aborts the process.
\<close>

theorem Poll_reports_live_channels:
  assumes "epoll_wait_spec wait interest" and "poller_inv interest p"
  shows "case wait (p_kernel p) (p_events_size p) t of
      WaitErr e \<Rightarrow> Poll wait t p = Inl Aborted
    | WaitEvents evs \<Rightarrow> \<exists>p'. Poll wait t p = Inr (map snd evs, p') \<and> poller_inv interest p'
        \<and> (\<forall>c \<in> set (map snd evs). p_chans p c \<noteq> None)
        \<and> (\<forall>c. c \<notin> set (map snd evs) \<longrightarrow> p_chans p' c = p_chans p c)
        \<and> (\<forall>ev c ch. (ev, c) \<in> set evs \<and> distinct (map snd evs) \<and> p_chans p c = Some ch \<longrightarrow>
             p_chans p' c = Some (ch\<lparr>ch_revents := ev\<rparr>))
        \<and> (p_events_size p', p_events_cap p') = events_after (length evs) (p_events_size p, p_events_cap p)"
proof (cases "wait (p_kernel p) (p_events_size p) t")
  case (WaitErr e)
  then show ?thesis by (simp add: Poll_def)
next
  case (WaitEvents evs)
  from Poll_Inr [OF assms WaitEvents] obtain p' where p': "Poll wait t p = Inr (map snd evs, p')" "poller_inv interest p'"
      "\<forall>c. p_chans p' c = map_option (with_revents evs c) (p_chans p c)" "\<forall>c \<in> set (map snd evs). p_chans p' c \<noteq> None"
      "(p_events_size p', p_events_cap p') = events_after (length evs) (p_events_size p, p_events_cap p)" by blast
  have "p_chans p' c = p_chans p c" if "c \<notin> set (map snd evs)" for c
    using that p'(3) with_revents_other [of c evs] by (cases "p_chans p c") auto
  moreover have "p_chans p' c = Some (ch\<lparr>ch_revents := ev\<rparr>)"
    if "(ev, c) \<in> set evs \<and> distinct (map snd evs) \<and> p_chans p c = Some ch" for ev c ch
    using that p'(3) with_revents_once [of evs ev c ch] by simp
  moreover have "\<forall>c \<in> set (map snd evs). p_chans p c \<noteq> None" using p'(3,4) by fastforce
  ultimately show ?thesis using p' WaitEvents by auto
qed

text \<open>An \<open>epoll_wait\<close> that reports descriptor 5 as often as it is asked for, up to 16 times.\<close>

definition demo_wait :: "(int \<rightharpoonup> epoll_event) epoll_wait_fun" where
  "demo_wait k n t = WaitEvents (case k 5 of None \<Rightarrow> [] | Some e \<Rightarrow> take n (replicate 16 (EPOLLIN, snd e)))"

lemma demo_wait_spec: "epoll_wait_spec demo_wait (\<lambda>k. k)"
  unfolding epoll_wait_spec_def demo_wait_def
  by (auto split: option.splits)

definition ready_wait :: "(int \<rightharpoonup> epoll_event) epoll_wait_fun" where
  "ready_wait k n t = WaitEvents (case k 5 of None \<Rightarrow> [] | Some e \<Rightarrow> take n [(EPOLLIN, snd e)])"

lemma ready_wait_spec: "epoll_wait_spec ready_wait (\<lambda>k. k)"
  unfolding epoll_wait_spec_def ready_wait_def
  by (auto simp: take_Cons' split: option.splits if_splits)

definition watched_poller :: "(string, int \<rightharpoonup> epoll_event) poller" where
  "watched_poller = witness_poller\<lparr>p_chans := [7 \<mapsto> (new_Channel 5)\<lparr>ch_events := kReadEvent, ch_index := kAdded\<rparr>],
     p_channels := [5 \<mapsto> 7], p_kernel := [5 \<mapsto> (kReadEvent, 7)]\<rparr>"

lemma watched_poller_inv: "poller_inv (\<lambda>k. k) watched_poller"
  by (auto simp: poller_inv_def watched_poller_def witness_poller_def new_Channel_def split: if_splits)

theorem Poll_reports_live_channels_witness:
  "\<exists>p'. Poll ready_wait 10000 watched_poller = Inr ([7], p') \<and> poller_inv (\<lambda>k. k) p'
    \<and> p_chans p' 7 = Some ((new_Channel 5)\<lparr>ch_events := kReadEvent, ch_index := kAdded, ch_revents := EPOLLIN\<rparr>)"
proof -
  have w: "ready_wait (p_kernel watched_poller) (p_events_size watched_poller) 10000 = WaitEvents [(EPOLLIN, 7)]"
    by (simp add: ready_wait_def watched_poller_def witness_poller_def)
  show ?thesis
    using Poll_reports_live_channels [OF ready_wait_spec watched_poller_inv, of 10000] unfolding w wait_result.case
    by (auto simp: watched_poller_def)
qed

text \<open>
  Remark. The event list stops growing. \<open>Poll\<close> compares the number of events with
  \<open>events_.capacity()\<close>, which \<open>resize\<close> never lowers, while \<open>epoll_wait\<close> is given
  \<open>events_.size()\<close>: once the list has grown past 16 entries and shrunk back, every later poll,
  completely filled ones included, leaves it at 16 entries.
\<close>

theorem event_list_never_regrows:
  assumes "epoll_wait_spec wait interest" and "p_events_size p = 16" and "16 < p_events_cap p"
    and "Poll wait t p = Inr (active, p')"
  shows "p_events_size p' = 16 \<and> 16 < p_events_cap p'"
proof (cases "wait (p_kernel p) (p_events_size p) t")
  case (WaitErr e)
  with assms(4) show ?thesis by (simp add: Poll_def)
next
  case (WaitEvents evs)
  have sz: "length evs \<le> 16"
    using assms(1,2) WaitEvents unfolding epoll_wait_spec_def by metis
  show ?thesis
    using assms(2-4) WaitEvents sz FillActiveChannels_frame [of evs p]
    by (auto simp: Poll_def bindE_Inr_iff resize_events_def kInitEventListSize_def split: if_splits)
qed

theorem event_list_never_regrows_witness:
  "\<exists>a p'. Poll demo_wait 10000 (witness_poller\<lparr>p_events_cap := 32, p_kernel := [5 \<mapsto> (kReadEvent, 7)]\<rparr>)
      = Inr (a, p') \<and> length a = 16 \<and> p_events_size p' = 16"
proof -
  let ?p = "witness_poller\<lparr>p_events_cap := 32, p_kernel := [5 \<mapsto> (kReadEvent, 7)]\<rparr>"
  have "\<exists>a p'. Poll demo_wait 10000 ?p = Inr (a, p') \<and> length a = 16"
    by (simp add: Poll_def demo_wait_def witness_poller_def on_channel_def numeral_eq_Suc)
  then obtain a p' where "Poll demo_wait 10000 ?p = Inr (a, p')" "length a = 16" by blast
  moreover from event_list_never_regrows [OF demo_wait_spec _ _ this(1)]
  have "p_events_size p' = 16" by (simp add: witness_poller_def)
  ultimately show ?thesis by blast
qed

text \<open>
  Remark. \<open>hasChannel\<close> keeps answering yes after \<open>RemoveChannel\<close>: the poller never erases
  the channel from its map, although the channel is no longer registered with the kernel.
\<close>

theorem hasChannel_after_Remove:
  assumes "epoll_ctl_spec ctl interest" and "poller_inv interest p"
    and "p_chans p c = Some ch" and "tid = p_loop_tid p" and "is_none_event ch"
    and "hasChannel c p = Inr True"
  shows "\<exists>p'. Remove ctl tid c p = Inr p' \<and> hasChannel c p' = Inr True
    \<and> interest (p_kernel p') (ch_fd ch) = None"
  using Remove_Inr [OF assms(1-5)] assms(3,6) by (auto simp: hasChannel_def)

theorem hasChannel_after_Remove_witness:
  "\<exists>p'. Remove ref_ctl 1 7 (witness_poller\<lparr>p_channels := [5 \<mapsto> 7]\<rparr>) = Inr p' \<and> hasChannel 7 p' = Inr True"
proof -
  have "poller_inv (\<lambda>k. k) (witness_poller\<lparr>p_channels := [5 \<mapsto> 7]\<rparr>)"
    using witness_poller_inv by (simp add: poller_inv_def)
  from hasChannel_after_Remove [OF ref_ctl_spec this, of 7 "new_Channel 5" 1]
  show ?thesis by (auto simp: witness_poller_def new_Channel_def is_none_event_def hasChannel_def)
qed

end
