(* ===== verification/Fifo.thy ===== *)
theory Fifo
  imports Prelude
begin

text \<open>
  The interface a byte buffer offers its clients: a first-in-first-out sequence, observed
  through an abstraction function. The client lemma, that what comes out of any sequence of
  operations is a prefix of what went in, is proved once here; \<open>Buffer\<close> interprets the
  locale with the operations of the C++ class.
\<close>

datatype 'a fifo_op = Push "'a list" | Pull nat

text \<open>Run a sequence of operations; the first fault stops it. The result collects what was pulled.\<close>

fun fifo_run :: "('a list \<Rightarrow> 'q \<Rightarrow> 'q) \<Rightarrow> (nat \<Rightarrow> 'q \<Rightarrow> ('a list \<times> 'q) res) \<Rightarrow>
    'a fifo_op list \<Rightarrow> 'q \<Rightarrow> ('a list \<times> 'q) res" where
  "fifo_run push pull [] q = Inr ([], q)"
| "fifo_run push pull (Push d # ops) q = fifo_run push pull ops (push d q)"
| "fifo_run push pull (Pull n # ops) q =
     bindE (pull n q) (\<lambda>(x, q1). bindE (fifo_run push pull ops q1) (\<lambda>(y, q2). Inr (x @ y, q2)))"

text \<open>The specification: the same sequence on a plain list.\<close>

definition list_push :: "'a list \<Rightarrow> 'a list \<Rightarrow> 'a list" where
  "list_push d xs = xs @ d"

definition list_pull :: "nat \<Rightarrow> 'a list \<Rightarrow> ('a list \<times> 'a list) res" where
  "list_pull n xs = (if n \<le> length xs then Inr (take n xs, drop n xs) else Inl AssertFailed)"

fun pushed :: "'a fifo_op list \<Rightarrow> 'a list" where
  "pushed [] = []"
| "pushed (Push d # ops) = d @ pushed ops"
| "pushed (Pull n # ops) = pushed ops"

locale byte_fifo =
  fixes content :: "'q \<Rightarrow> 'a list"
    and invar :: "'q \<Rightarrow> bool"
    and push :: "'a list \<Rightarrow> 'q \<Rightarrow> 'q"
    and pull :: "nat \<Rightarrow> 'q \<Rightarrow> ('a list \<times> 'q) res"
    and avail :: "'q \<Rightarrow> nat"
  assumes avail_content: "invar q \<Longrightarrow> avail q = length (content q)"
    and invar_push: "invar q \<Longrightarrow> invar (push d q)"
    and content_push: "invar q \<Longrightarrow> content (push d q) = content q @ d"
    and pull_some: "invar q \<Longrightarrow> n \<le> length (content q) \<Longrightarrow>
      \<exists>q'. pull n q = Inr (take n (content q), q') \<and> invar q' \<and> content q' = drop n (content q)"
    and pull_fault: "invar q \<Longrightarrow> length (content q) < n \<Longrightarrow> pull n q = Inl AssertFailed"
begin

lemma pull_cases:
  assumes "invar q" and "pull n q = Inr (x, q')"
  shows "x @ content q' = content q \<and> invar q' \<and> length x = n"
proof -
  have "n \<le> length (content q)"
    using assms pull_fault by (metis Inl_Inr_False leI)
  with assms pull_some [of q n] show ?thesis by auto
qed

lemma run_stream:
  assumes "invar q" and "fifo_run push pull ops q = Inr (out, q')"
  shows "out @ content q' = content q @ pushed ops \<and> invar q'"
  using assms
proof (induction ops arbitrary: q out)
  case Nil
  then show ?case by simp
next
  case (Cons op ops)
  show ?case
  proof (cases op)
    case (Push d)
    with Cons.prems Cons.IH [of "push d q"] show ?thesis by (simp add: content_push invar_push)
  next
    case (Pull n)
    with Cons.prems obtain x q1 y where p: "pull n q = Inr (x, q1)" and o: "out = x @ y"
      and r: "fifo_run push pull ops q1 = Inr (y, q')"
      by (auto simp: bindE_Inr_iff)
    from p Cons.prems(1) have "x @ content q1 = content q" "invar q1"
      by (auto dest: pull_cases)
    with Cons.IH [OF _ r] Pull o show ?thesis by (metis append_assoc pushed.simps(3))
  qed
qed

lemma run_refines:
  assumes "invar q"
  shows "fifo_run list_push list_pull ops (content q) =
           map_sum id (map_prod id content) (fifo_run push pull ops q)"
  using assms
proof (induction ops arbitrary: q)
  case Nil
  then show ?case by simp
next
  case (Cons op ops)
  show ?case
  proof (cases op)
    case (Push d)
    with Cons.prems Cons.IH [of "push d q"] show ?thesis
      by (simp add: content_push invar_push list_push_def)
  next
    case (Pull n)
    show ?thesis
    proof (cases "n \<le> length (content q)")
      case True
      with Cons.prems obtain q' where "pull n q = Inr (take n (content q), q')" "invar q'"
        "content q' = drop n (content q)" using pull_some by blast
      with Cons.IH [of q'] Pull True show ?thesis
        by (cases "fifo_run push pull ops q'") (auto simp: list_pull_def)
    next
      case False
      with Cons.prems Pull pull_fault [of q n] show ?thesis by (simp add: list_pull_def)
    qed
  qed
qed

end

end
