(* ===== verification/Buffer.thy ===== *)
theory Buffer
  imports Fifo
begin

text \<open>
  The network byte buffer (\<open>include/mini_muduo/Buffer.h\<close>, \<open>src/Buffer.cc\<close>): a byte
  vector with a reader and a writer index. Every operation of the class is a definition of
  the same name. The theory proves that the representation invariant is kept, that the
  buffer refines a plain byte FIFO (an interpretation of the locale \<open>byte_fifo\<close>), and the
  exact effect of \<open>ReadFd\<close> on every outcome of \<open>readv\<close>.
\<close>

section \<open>State and operations\<close>

text \<open>
  Isabelle identifiers do not end in an underscore: the member \<open>read_index_\<close> is the field
  \<open>read_index\<close>, and \<open>buffer_\<close>, the vector, is \<open>buffer_mem\<close>.
\<close>

record buffer =
  buffer_mem :: "char list"
  read_index :: nat
  write_index :: nat

definition kInitialSize :: nat where
  "kInitialSize = 1024"

definition ReadableBytes :: "buffer \<Rightarrow> nat" where
  "ReadableBytes b = size_sub (write_index b) (read_index b)"

definition WriteableBytes :: "buffer \<Rightarrow> nat" where
  "WriteableBytes b = size_sub (length (buffer_mem b)) (write_index b)"

definition FreeSize :: "buffer \<Rightarrow> nat" where
  "FreeSize b = size_sub (length (buffer_mem b)) (write_index b) + read_index b"

text \<open>A vector of \<open>initial_size\<close> chars is value-initialised: all zero. The constructor asserts.\<close>

definition new_Buffer :: "nat \<Rightarrow> buffer res" where
  "new_Buffer initial_size =
     (let b = \<lparr>buffer_mem = replicate initial_size (CHR 0x00), read_index = 0, write_index = 0\<rparr>
      in bindE (assertE (ReadableBytes b = 0))
          (\<lambda>_. bindE (assertE (WriteableBytes b = initial_size)) (\<lambda>_. Inr b)))"

text \<open>\<open>Peek\<close> returns a pointer; the model returns the memory it points at.\<close>

definition Peek :: "buffer \<Rightarrow> char list" where
  "Peek b = drop (read_index b) (buffer_mem b)"

definition retrieve :: "nat \<Rightarrow> buffer \<Rightarrow> buffer res" where
  "retrieve len b =
     bindE (assertE (len \<le> ReadableBytes b))
       (\<lambda>_. if len < ReadableBytes b
            then Inr (b\<lparr>read_index := read_index b + len\<rparr>)
            else Inr (b\<lparr>read_index := 0, write_index := 0\<rparr>))"

definition RetrieveAsString :: "nat \<Rightarrow> buffer \<Rightarrow> (string \<times> buffer) res" where
  "RetrieveAsString len b =
     bindE (assertE (len \<le> ReadableBytes b))
       (\<lambda>_. let result = take len (Peek b)
            in bindE (retrieve len b) (\<lambda>b'. Inr (result, b')))"

definition RetrieveAllAsString :: "buffer \<Rightarrow> (string \<times> buffer) res" where
  "RetrieveAllAsString b = RetrieveAsString (ReadableBytes b) b"

text \<open>
  \<open>vector::resize\<close> appends zero bytes (or truncates). \<open>std::copy\<close> moves the readable
  bytes to the front.
\<close>

definition vec_resize :: "nat \<Rightarrow> char list \<Rightarrow> char list" where
  "vec_resize n xs = take n xs @ replicate (n - length xs) (CHR 0x00)"

definition MakeSpace :: "nat \<Rightarrow> buffer \<Rightarrow> buffer" where
  "MakeSpace len b =
     (if len > FreeSize b
      then b\<lparr>buffer_mem := vec_resize (write_index b + len) (buffer_mem b)\<rparr>
      else b\<lparr>buffer_mem := overwrite 0 (buffer_mem b) (segment (read_index b) (write_index b) (buffer_mem b)),
             write_index := size_sub (write_index b) (read_index b),
             read_index := 0\<rparr>)"

text \<open>
  The sum is one of \<open>size_t\<close>. \<open>Append\<close> asks for the size of an array that exists, and the vector
  exists too, so both terms are below $2^{63}$ there and the sum does not wrap; a caller of the
  public function may pass any \<open>size_t\<close>.
\<close>

definition MakeSpace_size_t :: "nat \<Rightarrow> buffer \<Rightarrow> buffer" where
  "MakeSpace_size_t len b =
     (if len > FreeSize b
      then b\<lparr>buffer_mem := vec_resize ((write_index b + len) mod 2 ^ 64) (buffer_mem b)\<rparr>
      else MakeSpace len b)"

definition Append :: "char list \<Rightarrow> buffer \<Rightarrow> buffer" where
  "Append data b =
     (let b1 = (if WriteableBytes b < length data then MakeSpace (length data) b else b)
      in b1\<lparr>buffer_mem := overwrite (write_index b1) (buffer_mem b1) data,
            write_index := write_index b1 + length data\<rparr>)"

text \<open>
  \<open>ReadFd\<close> reads with one \<open>readv\<close> into the writable tail and a 64 KiB stack buffer. The
  system call is a parameter: given the descriptor and the lengths of the two vectors it
  yields an errno or the bytes it delivered, which fill the vectors in order. The result is
  the return value \<open>n\<close>, the stored errno and the new buffer.
\<close>

datatype readv_result = ReadErr int | ReadData "char list"

type_synonym readv_fun = "int \<Rightarrow> nat list \<Rightarrow> readv_result"

definition kExtraBuf :: nat where
  "kExtraBuf = 64 * 1024"

fun readv_n :: "readv_result \<Rightarrow> int" where
  "readv_n (ReadErr e) = - 1"
| "readv_n (ReadData d) = int (length d)"

fun readv_bytes :: "readv_result \<Rightarrow> char list" where
  "readv_bytes (ReadErr e) = []"
| "readv_bytes (ReadData d) = d"

fun readv_errno :: "readv_result \<Rightarrow> int" where
  "readv_errno (ReadErr e) = e"
| "readv_errno (ReadData d) = 0"

definition ReadFd :: "readv_fun \<Rightarrow> int \<Rightarrow> int \<Rightarrow> buffer \<Rightarrow> int \<times> int \<times> buffer" where
  "ReadFd readv fd saveErrno b =
     (let writable = WriteableBytes b;
          r = readv fd [writable, kExtraBuf];
          n = readv_n r;
          b1 = b\<lparr>buffer_mem := overwrite (write_index b) (buffer_mem b) (take writable (readv_bytes r))\<rparr>;
          extra_buf = drop writable (readv_bytes r)
      in if size_of_ssize n \<le> writable
         then (n, saveErrno, b1\<lparr>write_index := write_index b1 + nat n\<rparr>)
         else if n < 0
         then (n, readv_errno r, b1)
         else (n, saveErrno, Append (take (nat n - writable) extra_buf) b1))"

section \<open>Invariant and abstraction\<close>

definition buffer_inv :: "buffer \<Rightarrow> bool" where
  "buffer_inv b \<longleftrightarrow> read_index b \<le> write_index b \<and> write_index b \<le> length (buffer_mem b)"

text \<open>The bytes that were appended and not yet retrieved.\<close>

definition contents :: "buffer \<Rightarrow> char list" where
  "contents b = segment (read_index b) (write_index b) (buffer_mem b)"

lemma buffer_invD:
  "buffer_inv b \<Longrightarrow> read_index b \<le> write_index b"
  "buffer_inv b \<Longrightarrow> write_index b \<le> length (buffer_mem b)"
  by (simp_all add: buffer_inv_def)

lemma ReadableBytes_contents: "buffer_inv b \<Longrightarrow> ReadableBytes b = length (contents b)"
  by (simp add: ReadableBytes_def contents_def buffer_inv_def)

lemma WriteableBytes_eq: "buffer_inv b \<Longrightarrow> WriteableBytes b = length (buffer_mem b) - write_index b"
  by (simp add: WriteableBytes_def buffer_inv_def)

lemma take_Peek: "buffer_inv b \<Longrightarrow> n \<le> ReadableBytes b \<Longrightarrow> take n (Peek b) = take n (contents b)"
  by (auto simp: Peek_def contents_def segment_def ReadableBytes_def buffer_inv_def take_drop
      min_def)

section \<open>Effect of each operation\<close>

lemma length_vec_resize [simp]: "length (vec_resize n xs) = n"
  by (simp add: vec_resize_def)

lemma segment_vec_resize:
  "j \<le> length xs \<Longrightarrow> j \<le> n \<Longrightarrow> segment i j (vec_resize n xs) = segment i j xs"
  by (simp add: vec_resize_def segment_def min_absorb1)

lemma MakeSpace_spec:
  assumes "buffer_inv b"
  shows "buffer_inv (MakeSpace len b)" and "contents (MakeSpace len b) = contents b"
    and "len \<le> WriteableBytes (MakeSpace len b)"
  using assms
  by (auto simp: MakeSpace_def buffer_inv_def contents_def FreeSize_def WriteableBytes_def
      segment_vec_resize) (simp add: overwrite_def segment_def)

lemma Append_room:
  assumes "buffer_inv b" and "length d \<le> WriteableBytes b"
  shows "buffer_inv (b\<lparr>buffer_mem := overwrite (write_index b) (buffer_mem b) d,
                       write_index := write_index b + length d\<rparr>)"
    and "contents (b\<lparr>buffer_mem := overwrite (write_index b) (buffer_mem b) d,
                       write_index := write_index b + length d\<rparr>) = contents b @ d"
  using assms
  by (auto simp: buffer_inv_def contents_def WriteableBytes_def segment_overwrite)

lemma Append_inv [inv_intros]: "buffer_inv b \<Longrightarrow> buffer_inv (Append d b)"
  using Append_room(1) MakeSpace_spec by (auto simp: Append_def Let_def)

lemma Append_contents [abs_simps]: "buffer_inv b \<Longrightarrow> contents (Append d b) = contents b @ d"
  using Append_room(2) MakeSpace_spec by (auto simp: Append_def Let_def)

lemma retrieve_Inr:
  assumes "buffer_inv b" and "n \<le> length (contents b)"
  shows "\<exists>b'. retrieve n b = Inr b' \<and> buffer_inv b' \<and> contents b' = drop n (contents b)"
  using assms
  by (auto simp: retrieve_def ReadableBytes_contents bindE_assertE buffer_inv_def contents_def
      drop_segment)

lemma retrieve_fault:
  "buffer_inv b \<Longrightarrow> length (contents b) < n \<Longrightarrow> retrieve n b = Inl AssertFailed"
  by (simp add: retrieve_def ReadableBytes_contents bindE_assertE)

lemma RetrieveAsString_Inr:
  assumes "buffer_inv b" and "n \<le> length (contents b)"
  shows "\<exists>b'. RetrieveAsString n b = Inr (take n (contents b), b') \<and> buffer_inv b'
    \<and> contents b' = drop n (contents b)"
  using retrieve_Inr [OF assms] assms
  by (auto simp: RetrieveAsString_def ReadableBytes_contents bindE_assertE take_Peek)

lemma RetrieveAsString_fault:
  "buffer_inv b \<Longrightarrow> length (contents b) < n \<Longrightarrow> RetrieveAsString n b = Inl AssertFailed"
  by (simp add: RetrieveAsString_def ReadableBytes_contents bindE_assertE)

lemma new_Buffer_Inr: "\<exists>b. new_Buffer n = Inr b \<and> buffer_inv b \<and> contents b = []"
  by (simp add: new_Buffer_def ReadableBytes_def WriteableBytes_def buffer_inv_def contents_def
      bindE_assertE)

interpretation buf: byte_fifo contents buffer_inv Append RetrieveAsString ReadableBytes
  by unfold_locales
    (auto simp: ReadableBytes_contents Append_contents RetrieveAsString_fault
      intro: Append_inv RetrieveAsString_Inr)

section \<open>ReadFd\<close>

lemma ReadFd_Err:
  assumes "readv fd [WriteableBytes b, kExtraBuf] = ReadErr e"
    and "WriteableBytes b < 2 ^ 63"
  shows "ReadFd readv fd se b = (- 1, e, b)"
  using assms by (simp add: ReadFd_def Let_def size_of_ssize_minus_one)

lemma ReadFd_fits:
  assumes "readv fd [WriteableBytes b, kExtraBuf] = ReadData d"
    and "length d \<le> WriteableBytes b" and "WriteableBytes b < 2 ^ 63"
  shows "ReadFd readv fd se b =
    (int (length d), se, b\<lparr>buffer_mem := overwrite (write_index b) (buffer_mem b) d,
                            write_index := write_index b + length d\<rparr>)"
  using assms by (simp add: ReadFd_def Let_def size_of_ssize_int)

lemma ReadFd_overflows:
  assumes "readv fd [WriteableBytes b, kExtraBuf] = ReadData d"
    and "WriteableBytes b < length d" and "length d < 2 ^ 63"
  shows "ReadFd readv fd se b =
    (int (length d), se,
     Append (drop (WriteableBytes b) d)
       (b\<lparr>buffer_mem := overwrite (write_index b) (buffer_mem b) (take (WriteableBytes b) d)\<rparr>))"
  using assms by (simp add: ReadFd_def Let_def size_of_ssize_int)

text \<open>Writing into the writable tail changes neither the invariant nor the readable bytes.\<close>

lemma tail_write:
  assumes "buffer_inv b" and "length d \<le> WriteableBytes b"
  shows "buffer_inv (b\<lparr>buffer_mem := overwrite (write_index b) (buffer_mem b) d\<rparr>)"
    and "contents (b\<lparr>buffer_mem := overwrite (write_index b) (buffer_mem b) d\<rparr>) = contents b"
  using assms
  by (auto simp: buffer_inv_def contents_def WriteableBytes_def segment_overwrite_before)

lemma ReadFd_overflow_contents:
  assumes "buffer_inv b" and "readv fd [WriteableBytes b, kExtraBuf] = ReadData d"
    and "WriteableBytes b < length d" and "length d < 2 ^ 63"
  shows "contents (snd (snd (ReadFd readv fd se b))) = contents b @ drop (WriteableBytes b) d"
    and "buffer_inv (snd (snd (ReadFd readv fd se b)))"
  using tail_write [OF assms(1), of "take (WriteableBytes b) d"] assms(3)
  by (simp_all add: ReadFd_overflows [of readv fd b d, OF assms(2-4)] Append_contents Append_inv)

lemma RetrieveAllAsString_Inr:
  "buffer_inv b \<Longrightarrow> \<exists>b'. RetrieveAllAsString b = Inr (contents b, b') \<and> buffer_inv b' \<and> contents b' = []"
  using RetrieveAsString_Inr [of b "length (contents b)"]
  by (auto simp: RetrieveAllAsString_def ReadableBytes_contents)

text \<open>\<open>ReadFd\<close> on every outcome; the sizes fit a \<open>ssize_t\<close>.\<close>

lemma ReadFd_cases:
  assumes "buffer_inv b" and "length (buffer_mem b) < 2 ^ 63"
    and "length (readv_bytes (readv fd [WriteableBytes b, kExtraBuf])) < 2 ^ 63"
  shows "case readv fd [WriteableBytes b, kExtraBuf] of
      ReadErr e \<Rightarrow> ReadFd readv fd se b = (- 1, e, b)
    | ReadData d \<Rightarrow> (\<exists>b'. ReadFd readv fd se b = (int (length d), se, b') \<and> buffer_inv b' \<and>
        contents b' = contents b @
          (if length d \<le> WriteableBytes b then d else drop (WriteableBytes b) d))"
proof -
  have w: "WriteableBytes b < 2 ^ 63"
    using assms(1,2) by (simp add: WriteableBytes_eq)
  show ?thesis
  proof (cases "readv fd [WriteableBytes b, kExtraBuf]")
    case (ReadErr e)
    with w show ?thesis by (simp add: ReadFd_Err)
  next
    case (ReadData d)
    with w assms show ?thesis
      using ReadFd_overflow_contents [of b readv fd d se, OF assms(1) ReadData]
      by (auto simp: ReadFd_fits ReadFd_overflows Append_room)
  qed
qed

lemma ReadFd_inv:
  assumes "buffer_inv b" and "length (buffer_mem b) < 2 ^ 63"
    and "length (readv_bytes (readv fd [WriteableBytes b, kExtraBuf])) < 2 ^ 63"
  shows "buffer_inv (snd (snd (ReadFd readv fd se b)))"
  using ReadFd_cases [where readv = readv, OF assms, of se] assms(1) by (auto split: readv_result.splits)

section \<open>Properties\<close>

text \<open>
  Property C9. The buffer refines a plain byte queue: for every sequence of \<open>Append\<close> and
  \<open>RetrieveAsString\<close> calls, on any well-formed buffer, the strings returned, the readable bytes
  left behind and the failed assertion (a retrieve of more than is readable) are those of the
  same sequence on the list of readable bytes.
\<close>

theorem buffer_refines_fifo:
  assumes "buffer_inv b"
  shows "fifo_run list_push list_pull ops (contents b) =
           map_sum id (map_prod id contents) (fifo_run Append RetrieveAsString ops b)"
  using assms by (rule buf.run_refines)

theorem buffer_refines_fifo_witness:
  "fifo_run list_push list_pull [Push ''ab'', Pull 1, Push ''c'', Pull 3]
      (contents \<lparr>buffer_mem = ''xyz'', read_index = 1, write_index = 2\<rparr>) =
   map_sum id (map_prod id contents)
     (fifo_run Append RetrieveAsString [Push ''ab'', Pull 1, Push ''c'', Pull 3]
       \<lparr>buffer_mem = ''xyz'', read_index = 1, write_index = 2\<rparr>)"
  by (rule buffer_refines_fifo) (simp add: buffer_inv_def)

text \<open>
  Property C26. Every operation of the buffer keeps its indices in order and inside the vector: the
  constructor establishes \<open>read_index \<le> write_index \<le> size\<close>; \<open>Append\<close>, \<open>retrieve\<close>, \<open>RetrieveAsString\<close>,
  \<open>RetrieveAllAsString\<close> and \<open>ReadFd\<close> (whatever \<open>readv\<close> returns) keep it, and so does \<open>MakeSpace\<close> of any
  size whose sum with the writer index does not wrap, which also keeps the readable bytes and
  makes the room it is asked for.
\<close>

theorem buffer_inv_preserved:
  assumes "buffer_inv b" and "length (buffer_mem b) < 2 ^ 63"
    and "length (readv_bytes (readv fd [WriteableBytes b, kExtraBuf])) < 2 ^ 63"
    and "write_index b + n < 2 ^ 64"
  shows "(\<exists>b0. new_Buffer n = Inr b0 \<and> buffer_inv b0)
    \<and> buffer_inv (MakeSpace_size_t n b) \<and> n \<le> WriteableBytes (MakeSpace_size_t n b)
    \<and> contents (MakeSpace_size_t n b) = contents b
    \<and> buffer_inv (Append d b)
    \<and> (\<forall>b'. retrieve n b = Inr b' \<longrightarrow> buffer_inv b')
    \<and> (\<forall>s b'. RetrieveAsString n b = Inr (s, b') \<longrightarrow> buffer_inv b')
    \<and> (\<exists>b'. RetrieveAllAsString b = Inr (contents b, b') \<and> buffer_inv b' \<and> contents b' = [])
    \<and> buffer_inv (snd (snd (ReadFd readv fd se b)))"
proof -
  have rt: "buffer_inv b'" if "retrieve n b = Inr b'" for b'
    using that retrieve_Inr [OF assms(1), of n] retrieve_fault [OF assms(1), of n]
    by (cases "n \<le> length (contents b)") auto
  have rs: "buffer_inv b'" if "RetrieveAsString n b = Inr (s, b')" for s b'
    using that RetrieveAsString_Inr [OF assms(1), of n] RetrieveAsString_fault [OF assms(1), of n]
    by (cases "n \<le> length (contents b)") auto
  have ms: "MakeSpace_size_t n b = MakeSpace n b"
    using assms(4) by (simp add: MakeSpace_size_t_def MakeSpace_def)
  show ?thesis
    unfolding ms using ReadFd_inv [where readv = readv, OF assms(1-3)] RetrieveAllAsString_Inr [OF assms(1)] rt rs assms(1)
      new_Buffer_Inr [of n] MakeSpace_spec [of b n] Append_inv [of b d]
    by blast
qed

theorem buffer_inv_preserved_witness:
  "buffer_inv (snd (snd (ReadFd (\<lambda>fd ls. ReadData ''hello'') 7 0
     \<lparr>buffer_mem = ''xyz'', read_index = 1, write_index = 2\<rparr>)))
   \<and> 9 \<le> WriteableBytes (MakeSpace_size_t 9 \<lparr>buffer_mem = ''xyz'', read_index = 1, write_index = 2\<rparr>)"
  using buffer_inv_preserved [of "\<lparr>buffer_mem = ''xyz'', read_index = 1, write_index = 2\<rparr>"
      "\<lambda>fd ls. ReadData ''hello''" 7 9 "''d''" 0]
  by (simp add: buffer_inv_def)

text \<open>
  Remark. A \<open>MakeSpace\<close> whose sum wraps shrinks the vector below the writer index.
\<close>

theorem MakeSpace_wraps:
  assumes "buffer_inv b" and "length (buffer_mem b) < 2 ^ 63" and "n < 2 ^ 64" and "2 ^ 64 \<le> write_index b + n"
  shows "\<not> buffer_inv (MakeSpace_size_t n b)"
proof -
  have "FreeSize b \<le> length (buffer_mem b)" using assms(1) by (auto simp: FreeSize_def buffer_inv_def)
  then have "FreeSize b < n" using assms buffer_invD(2) [OF assms(1)] by simp
  moreover have "(write_index b + n) mod 2 ^ 64 = write_index b + n - 2 ^ 64"
  proof -
    have "write_index b + n - 2 ^ 64 < 2 ^ 64" using assms(2,3) buffer_invD(2) [OF assms(1)] by simp
    then show ?thesis using assms(4) by (simp only: le_mod_geq mod_less)
  qed
  moreover have "write_index b + n - 2 ^ 64 < write_index b" using assms(3,4) by linarith
  ultimately show ?thesis by (simp add: MakeSpace_size_t_def buffer_inv_def)
qed

theorem MakeSpace_wraps_witness:
  "\<not> buffer_inv (MakeSpace_size_t 18446744073709551615 \<lparr>buffer_mem = ''hello'', read_index = 0, write_index = 5\<rparr>)"
  using MakeSpace_wraps [of "\<lparr>buffer_mem = ''hello'', read_index = 0, write_index = 5\<rparr>" 18446744073709551615]
  by (simp add: buffer_inv_def)

text \<open>
  Property C27. \<open>ReadFd\<close> on every outcome of \<open>readv\<close>: an error leaves the buffer alone and
  stores the errno; a delivery that fits the writable tail is appended whole; of a delivery
  \<open>d\<close> that runs over into the stack buffer only the part after the first \<open>WriteableBytes\<close>
  bytes becomes readable, because the writer index is not advanced over the tail before the
  stack buffer is appended.
\<close>

theorem ReadFd_effect:
  assumes "buffer_inv b" and "length (buffer_mem b) < 2 ^ 63"
    and "length (readv_bytes (readv fd [WriteableBytes b, kExtraBuf])) < 2 ^ 63"
  shows "case readv fd [WriteableBytes b, kExtraBuf] of
      ReadErr e \<Rightarrow> ReadFd readv fd se b = (- 1, e, b)
    | ReadData d \<Rightarrow> (\<exists>b'. ReadFd readv fd se b = (int (length d), se, b') \<and>
        contents b' = contents b @
          (if length d \<le> WriteableBytes b then d else drop (WriteableBytes b) d))"
  using ReadFd_cases [where readv = readv, OF assms, of se] by (auto split: readv_result.splits)

theorem ReadFd_effect_witness:
  "\<exists>b'. ReadFd (\<lambda>fd ls. ReadData ''hello'') 7 0
      \<lparr>buffer_mem = ''xyz'', read_index = 1, write_index = 2\<rparr> = (5, 0, b')
    \<and> contents b' = ''yello''"
  using ReadFd_effect [of "\<lparr>buffer_mem = ''xyz'', read_index = 1, write_index = 2\<rparr>"
      "\<lambda>fd ls. ReadData ''hello''" 7 0]
  by (simp add: buffer_inv_def WriteableBytes_def contents_def segment_def)

text \<open>
  Remark. The overrun branch of \<open>ReadFd\<close> loses data: whenever the writable tail is not
  empty and \<open>readv\<close> delivers more than fits it, the readable bytes afterwards are not the old
  ones followed by the delivery, although the returned length counts all of it; exactly
  \<open>WriteableBytes\<close> bytes are missing.
\<close>

theorem ReadFd_overrun_loses_bytes:
  assumes "buffer_inv b" and "readv fd [WriteableBytes b, kExtraBuf] = ReadData d"
    and "0 < WriteableBytes b" and "WriteableBytes b < length d" and "length d < 2 ^ 63"
  shows "fst (ReadFd readv fd se b) = int (length d)
    \<and> contents (snd (snd (ReadFd readv fd se b))) \<noteq> contents b @ d
    \<and> length (contents (snd (snd (ReadFd readv fd se b)))) + WriteableBytes b
        = length (contents b) + length d"
proof -
  have "length (drop (WriteableBytes b) d) \<noteq> length d"
    using assms(3,4) by simp
  then have "drop (WriteableBytes b) d \<noteq> d"
    by metis
  with assms show ?thesis
    by (simp add: ReadFd_overflow_contents(1)) (simp add: ReadFd_overflows)
qed

theorem ReadFd_overrun_loses_bytes_witness:
  "contents (snd (snd (ReadFd (\<lambda>fd ls. ReadData ''hello'') 7 0
      \<lparr>buffer_mem = ''xyz'', read_index = 1, write_index = 2\<rparr>))) \<noteq> ''y'' @ ''hello''"
  using ReadFd_overrun_loses_bytes [of "\<lparr>buffer_mem = ''xyz'', read_index = 1, write_index = 2\<rparr>"
      "\<lambda>fd ls. ReadData ''hello''" 7 "''hello''" 0]
  by (simp add: buffer_inv_def WriteableBytes_def contents_def segment_def)

end
