(* ===== verification/TcpConnection.thy ===== *)
theory TcpConnection
  imports EpollPoller Buffer
begin

unbundle bit_operations_syntax

text \<open>
  A TCP connection (\<open>include/mini_muduo/TcpConnection.h\<close>, \<open>src/TcpConnection.cc\<close>) on its loop's
  poller. The state extends the poller's record, so the channel operations the code calls act on
  it directly. The connection's socket is what the kernel took from it and whether its write half
  is shut. System calls and the calling thread are the fields of an environment; user callbacks
  are values run by an argument \<open>call\<close>. The code tests a failed \<open>write\<close> for \<open>EPIPE\<close>, which presumes
  that \<open>SIGPIPE\<close> is ignored, and the model presumes it too.
\<close>

section \<open>State\<close>

datatype StateE = kDisconnected | kConnecting | kConnected | kDisconnecting

datatype tc_callback = TcHandleRead | TcHandleWrite | TcHandleClose | TcHandleError

record ('u, 'k) tcp_connection = "(tc_callback, 'k) poller" +
  tc_self :: nat
  tc_name :: string
  tc_state :: StateE
  tc_chan :: nat
  tc_sent :: "char list"
  tc_shut :: bool
  tc_input :: buffer
  tc_output :: buffer
  tc_connection_callback :: "'u option"
  tc_close_callback :: "'u option"
  tc_write_complete_callback :: "'u option"
  tc_message_callback :: "'u option"
  tc_context :: "nat option"

datatype write_result = WriteErr int | Wrote nat

type_synonym write_fun = "int \<Rightarrow> char list \<Rightarrow> write_result"

record 'k tc_env =
  env_tid :: int
  env_ctl :: "'k epoll_ctl_fun"
  env_write :: write_fun
  env_readv :: readv_fun

definition EPIPE :: int where
  "EPIPE = 32"

text \<open>The channel the constructor makes, with the four handlers bound.\<close>

definition conn_channel :: "int \<Rightarrow> tc_callback channel" where
  "conn_channel sockfd = (new_Channel sockfd)
     \<lparr>ch_read_callback := Some TcHandleRead, ch_write_callback := Some TcHandleWrite,
      ch_close_callback := Some TcHandleClose, ch_error_callback := Some TcHandleError\<rparr>"

definition new_TcpConnection :: "(tc_callback, 'k) poller \<Rightarrow> nat \<Rightarrow> nat \<Rightarrow> string \<Rightarrow> int \<Rightarrow>
    ('u, 'k) tcp_connection res" where
  "new_TcpConnection loop self c name sockfd =
     bindE (new_Buffer kInitialSize) (\<lambda>input.
     bindE (new_Buffer kInitialSize) (\<lambda>output.
       Inr (poller.extend (create_channel c (conn_channel sockfd) loop)
         (tcp_connection.fields self name kConnecting c [] False input output None None None None None))))"

definition tc_deref :: "('u, 'k, 'z) tcp_connection_scheme \<Rightarrow> tc_callback channel res" where
  "tc_deref s = (case p_chans s (tc_chan s) of Some ch \<Rightarrow> Inr ch | None \<Rightarrow> Inl UseAfterFree)"

text \<open>\<open>if (cb) cb(...)\<close>, and a call with no test: an empty \<open>std::function\<close> throws.\<close>

definition call_opt :: "('u \<Rightarrow> 's \<Rightarrow> 's res) \<Rightarrow> 'u option \<Rightarrow> 's \<Rightarrow> 's res" where
  "call_opt call cb s = (case cb of Some f \<Rightarrow> call f s | None \<Rightarrow> Inr s)"

definition call_must :: "('u \<Rightarrow> 's \<Rightarrow> 's res) \<Rightarrow> 'u option \<Rightarrow> 's \<Rightarrow> 's res" where
  "call_must call cb s = (case cb of Some f \<Rightarrow> call f s | None \<Rightarrow> Inl (Thrown ''bad_function_call''))"

section \<open>Operations\<close>

type_synonym ('u, 'k, 'z) conn_op = "('u, 'k, 'z) tcp_connection_scheme \<Rightarrow> ('u, 'k, 'z) tcp_connection_scheme res"

definition Connected :: "('u, 'k, 'z) tcp_connection_scheme \<Rightarrow> bool" where
  "Connected s \<longleftrightarrow> tc_state s = kConnected"

definition ShutdownWrite :: "('u, 'k, 'z) tcp_connection_scheme \<Rightarrow> ('u, 'k, 'z) tcp_connection_scheme" where
  "ShutdownWrite s = s\<lparr>tc_shut := True\<rparr>"

definition HandleClose :: "'k tc_env \<Rightarrow> ('u \<Rightarrow> ('u, 'k, 'z) conn_op) \<Rightarrow> ('u, 'k, 'z) conn_op" where
  "HandleClose e call s =
     bindE (assertE (tc_state s = kConnected \<or> tc_state s = kDisconnecting)) (\<lambda>_.
     bindE (DisableAll (env_ctl e) (env_tid e) (tc_chan s) (s\<lparr>tc_state := kDisconnected\<rparr>)) (\<lambda>s.
     bindE (call_opt call (tc_connection_callback s) s) (\<lambda>s.
       call_opt call (tc_close_callback s) s)))"

text \<open>\<open>HandleError\<close> reads \<open>SO_ERROR\<close> and logs it.\<close>

definition HandleError :: "('u, 'k, 'z) conn_op" where
  "HandleError s = Inr s"

definition HandleRead :: "'k tc_env \<Rightarrow> ('u \<Rightarrow> ('u, 'k, 'z) conn_op) \<Rightarrow> ('u, 'k, 'z) conn_op" where
  "HandleRead e call s =
     bindE (tc_deref s) (\<lambda>ch.
       let (n, save_errno, input) = ReadFd (env_readv e) (ch_fd ch) 0 (tc_input s);
           s1 = s\<lparr>tc_input := input\<rparr>
       in if n > 0 then call_must call (tc_message_callback s1) s1
          else if n = 0 then HandleClose e call s1
          else HandleError s1)"

definition HandleWrite :: "'k tc_env \<Rightarrow> ('u \<Rightarrow> ('u, 'k, 'z) conn_op) \<Rightarrow> ('u, 'k, 'z) conn_op" where
  "HandleWrite e call s =
     bindE (tc_deref s) (\<lambda>ch.
       if is_writing ch
       then (let data = take (ReadableBytes (tc_output s)) (Peek (tc_output s))
             in case env_write e (ch_fd ch) data of
                  WriteErr err \<Rightarrow> Inr s
                | Wrote n \<Rightarrow>
                    if n > 0
                    then bindE (retrieve n (tc_output s)) (\<lambda>output.
                           let s1 = s\<lparr>tc_sent := tc_sent s @ take n data, tc_output := output\<rparr>
                           in if ReadableBytes (tc_output s1) = 0
                              then bindE (DisableWriting (env_ctl e) (env_tid e) (tc_chan s1) s1) (\<lambda>s2.
                                   bindE (call_opt call (tc_write_complete_callback s2) s2) (\<lambda>s3.
                                     Inr (if tc_state s3 = kDisconnecting then ShutdownWrite s3 else s3)))
                              else Inr s1)
                    else Inr s)
       else Inr s)"

definition ConnectEstablished :: "'k tc_env \<Rightarrow> ('u \<Rightarrow> ('u, 'k, 'z) conn_op) \<Rightarrow> ('u, 'k, 'z) conn_op" where
  "ConnectEstablished e call s =
     bindE (EnableReading (env_ctl e) (env_tid e) (tc_chan s) (s\<lparr>tc_state := kConnected\<rparr>)) (\<lambda>s.
     bindE (on_channel (tc_chan s) (Tie (tc_self s)) s) (\<lambda>s.
       call_opt call (tc_connection_callback s) s))"

definition ConnectDestroyed :: "'k tc_env \<Rightarrow> ('u \<Rightarrow> ('u, 'k, 'z) conn_op) \<Rightarrow> ('u, 'k, 'z) conn_op" where
  "ConnectDestroyed e call s =
     bindE (if tc_state s = kConnected \<or> tc_state s = kDisconnecting
            then bindE (DisableAll (env_ctl e) (env_tid e) (tc_chan s) (s\<lparr>tc_state := kDisconnected\<rparr>)) (\<lambda>s.
                   call_must call (tc_connection_callback s) s)
            else Inr s) (\<lambda>s.
     bindE (DisableAll (env_ctl e) (env_tid e) (tc_chan s) s) (\<lambda>s.
       Remove (env_ctl e) (env_tid e) (tc_chan s) s))"

text \<open>\<open>send\<close>: its second part buffers what was not written; \<open>rest\<close> is \<open>message + nwrote\<close>.\<close>

definition send_rest :: "'k tc_env \<Rightarrow> char list \<Rightarrow> ('u, 'k, 'z) conn_op" where
  "send_rest e rest s =
     (if rest \<noteq> []
      then (let s1 = s\<lparr>tc_output := Append rest (tc_output s)\<rparr>
            in bindE (tc_deref s1) (\<lambda>ch.
                 if \<not> is_writing ch then EnableWriting (env_ctl e) (env_tid e) (tc_chan s1) s1 else Inr s1))
      else Inr s)"

definition send :: "'k tc_env \<Rightarrow> ('u \<Rightarrow> ('u, 'k, 'z) conn_op) \<Rightarrow> char list \<Rightarrow> ('u, 'k, 'z) conn_op" where
  "send e call message s =
     (if tc_state s = kConnected
      then bindE (tc_deref s) (\<lambda>ch.
        if \<not> is_writing ch \<and> ReadableBytes (tc_output s) = 0
        then (case env_write e (ch_fd ch) message of
                Wrote nwrote \<Rightarrow>
                  (let s1 = s\<lparr>tc_sent := tc_sent s @ take nwrote message\<rparr>
                   in bindE (if length message - nwrote = 0
                             then call_opt call (tc_write_complete_callback s1) s1 else Inr s1)
                        (send_rest e (drop nwrote message)))
              | WriteErr err \<Rightarrow> if err = EPIPE then Inr s else send_rest e message s)
        else send_rest e message s)
      else Inr s)"

definition send_buffer :: "'k tc_env \<Rightarrow> ('u \<Rightarrow> ('u, 'k, 'z) conn_op) \<Rightarrow> buffer \<Rightarrow>
    ('u, 'k, 'z) tcp_connection_scheme \<Rightarrow> (buffer \<times> ('u, 'k, 'z) tcp_connection_scheme) res" where
  "send_buffer e call buf s =
     bindE (RetrieveAllAsString buf) (\<lambda>(data, buf').
     bindE (send e call data s) (\<lambda>s'. Inr (buf', s')))"

definition ShutDown :: "('u, 'k, 'z) conn_op" where
  "ShutDown s =
     (if tc_state s = kConnected
      then (let s1 = s\<lparr>tc_state := kDisconnecting\<rparr>
            in bindE (tc_deref s1) (\<lambda>ch. Inr (if \<not> is_writing ch then ShutdownWrite s1 else s1)))
      else Inr s)"

text \<open>What the channel's callbacks run, and the dispatch of an event on the connection.\<close>

fun tc_call :: "'k tc_env \<Rightarrow> ('u \<Rightarrow> ('u, 'k, 'z) conn_op) \<Rightarrow> tc_callback \<Rightarrow> ('u, 'k, 'z) conn_op" where
  "tc_call e call TcHandleRead = HandleRead e call"
| "tc_call e call TcHandleWrite = HandleWrite e call"
| "tc_call e call TcHandleClose = HandleClose e call"
| "tc_call e call TcHandleError = HandleError"

definition tc_HandleEvent :: "'k tc_env \<Rightarrow> ('u \<Rightarrow> ('u, 'k, 'z) conn_op) \<Rightarrow> (nat \<Rightarrow> ('u, 'k, 'z) tcp_connection_scheme \<Rightarrow> bool) \<Rightarrow>
    ('u, 'k, 'z) conn_op" where
  "tc_HandleEvent e call alive s =
     bindE (tc_deref s) (\<lambda>_. HandleEvent (tc_call e call) alive (\<lambda>s. the (p_chans s (tc_chan s))) s)"

section \<open>Invariant\<close>

text \<open>
  While the connection is up its channel is registered, watches for input, and watches for
  output exactly when there are bytes to send; otherwise it watches for nothing. The write half
  of a connected socket is open.
\<close>

definition tc_inv :: "('k \<Rightarrow> int \<rightharpoonup> epoll_event) \<Rightarrow> ('u, 'k, 'z) tcp_connection_scheme \<Rightarrow> bool" where
  "tc_inv interest s \<longleftrightarrow> poller_inv interest s \<and> buffer_inv (tc_input s) \<and> buffer_inv (tc_output s)
     \<and> (\<exists>ch. p_chans s (tc_chan s) = Some ch
          \<and> (if tc_state s = kConnected \<or> tc_state s = kDisconnecting
             then ch_index ch = kAdded \<and> is_reading ch \<and> (is_writing ch \<longleftrightarrow> contents (tc_output s) \<noteq> [])
             else is_none_event ch))
     \<and> (tc_state s = kConnected \<longrightarrow> \<not> tc_shut s)"

text \<open>A closing connection has shut its write half exactly when it has nothing left to send.\<close>

definition tc_graceful :: "('u, 'k, 'z) tcp_connection_scheme \<Rightarrow> bool" where
  "tc_graceful s \<longleftrightarrow> (tc_state s = kDisconnecting \<longrightarrow> (tc_shut s \<longleftrightarrow> contents (tc_output s) = []))"

lemma tc_invD:
  assumes "tc_inv interest s"
  shows "poller_inv interest s" "buffer_inv (tc_input s)" "buffer_inv (tc_output s)"
    "tc_state s = kConnected \<Longrightarrow> \<not> tc_shut s"
  using assms by (simp_all add: tc_inv_def)

lemma tc_inv_chan:
  assumes "tc_inv interest s"
  obtains ch where "p_chans s (tc_chan s) = Some ch"
    "if tc_state s = kConnected \<or> tc_state s = kDisconnecting
     then ch_index ch = kAdded \<and> is_reading ch \<and> (is_writing ch \<longleftrightarrow> contents (tc_output s) \<noteq> [])
     else is_none_event ch"
  using assms unfolding tc_inv_def by blast

lemma tc_invI:
  assumes "poller_inv interest s" "buffer_inv (tc_input s)" "buffer_inv (tc_output s)"
    "p_chans s (tc_chan s) = Some ch"
    "tc_state s = kConnected \<or> tc_state s = kDisconnecting \<Longrightarrow>
       ch_index ch = kAdded \<and> is_reading ch \<and> (is_writing ch \<longleftrightarrow> contents (tc_output s) \<noteq> [])"
    "\<not> (tc_state s = kConnected \<or> tc_state s = kDisconnecting) \<Longrightarrow> is_none_event ch"
    "tc_state s = kConnected \<Longrightarrow> \<not> tc_shut s"
  shows "tc_inv interest s"
  using assms unfolding tc_inv_def by auto

lemma poller_inv_conn_fields [simp]:
  "poller_inv interest (s\<lparr>tc_state := a\<rparr>) = poller_inv interest s"
  "poller_inv interest (s\<lparr>tc_sent := b\<rparr>) = poller_inv interest s"
  "poller_inv interest (s\<lparr>tc_shut := c\<rparr>) = poller_inv interest s"
  "poller_inv interest (s\<lparr>tc_input := d\<rparr>) = poller_inv interest s"
  "poller_inv interest (s\<lparr>tc_output := d\<rparr>) = poller_inv interest s"
  by (simp_all add: poller_inv_def)

lemma tc_inv_sent [simp]: "tc_inv interest (s\<lparr>tc_sent := x\<rparr>) = tc_inv interest s"
  by (simp add: tc_inv_def)

text \<open>What the byte-moving operations leave alone.\<close>

definition conn_frame :: "('u, 'k, 'z) tcp_connection_scheme \<Rightarrow> ('u, 'k, 'z) tcp_connection_scheme \<Rightarrow> bool" where
  "conn_frame s s' \<longleftrightarrow> p_loop_tid s' = p_loop_tid s \<and> tc_self s' = tc_self s \<and> tc_name s' = tc_name s
     \<and> tc_chan s' = tc_chan s \<and> tc_input s' = tc_input s
     \<and> tc_connection_callback s' = tc_connection_callback s \<and> tc_close_callback s' = tc_close_callback s
     \<and> tc_write_complete_callback s' = tc_write_complete_callback s
     \<and> tc_message_callback s' = tc_message_callback s \<and> tc_context s' = tc_context s
     \<and> tcp_connection.more s' = tcp_connection.more s"

lemma conn_frame_refl [simp]: "conn_frame s s"
  by (simp add: conn_frame_def)

lemma conn_frame_trans: "conn_frame s s1 \<Longrightarrow> conn_frame s1 s2 \<Longrightarrow> conn_frame s s2"
  by (simp add: conn_frame_def)

lemma send_rest_Inr:
  assumes spec: "epoll_ctl_spec (env_ctl e) interest" and inv: "tc_inv interest s"
    and tid: "env_tid e = p_loop_tid s" and up: "tc_state s = kConnected"
  shows "\<exists>s'. send_rest e rest s = Inr s' \<and> tc_inv interest s' \<and> conn_frame s s'
    \<and> tc_sent s' = tc_sent s \<and> contents (tc_output s') = contents (tc_output s) @ rest
    \<and> tc_state s' = tc_state s \<and> tc_shut s' = tc_shut s"
proof (cases "rest = []")
  case True
  then show ?thesis using inv by (simp add: send_rest_def)
next
  case False
  obtain ch where ch: "p_chans s (tc_chan s) = Some ch" "ch_index ch = kAdded" "is_reading ch"
      "is_writing ch \<longleftrightarrow> contents (tc_output s) \<noteq> []"
    using tc_inv_chan [OF inv] up by auto
  note inv' = tc_invD [OF inv]
  define s1 where "s1 = s\<lparr>tc_output := Append rest (tc_output s)\<rparr>"
  have out: "buffer_inv (Append rest (tc_output s))"
      "contents (Append rest (tc_output s)) = contents (tc_output s) @ rest"
    using inv'(3) by (auto intro: Append_inv simp: Append_contents)
  show ?thesis
  proof (cases "is_writing ch")
    case True
    have "tc_inv interest s1"
      by (rule tc_invI [where ch = ch]) (use inv' ch True up out False in \<open>auto simp: s1_def\<close>)
    then show ?thesis using False True ch(1) out(2)
      by (auto simp: send_rest_def tc_deref_def s1_def conn_frame_def)
  next
    case no: False
    have p1: "poller_inv interest s1" "p_chans s1 (tc_chan s) = Some ch" "env_tid e = p_loop_tid s1"
      using inv'(1) ch(1) tid by (simp_all add: s1_def)
    obtain k' m ch' where set: "run_setter (env_ctl e) (env_tid e) (tc_chan s) SetWriting s1 =
          Inr (s1\<lparr>p_chans := (p_chans s1)(tc_chan s \<mapsto> ch'), p_channels := m, p_kernel := k'\<rparr>)"
        "ch_events ch' = ch_events (set_writing ch)" "ch_index ch' = kAdded"
        "poller_inv interest (s1\<lparr>p_chans := (p_chans s1)(tc_chan s \<mapsto> ch'), p_channels := m, p_kernel := k'\<rparr>)"
      using run_setter_Inr [OF spec p1, of SetWriting] by auto
    have rw: "is_reading ch'" "is_writing ch'"
      using is_reading_events [OF set(2)] is_writing_events [OF set(2)] ch(3) by simp_all
    define s2 where "s2 = s1\<lparr>p_chans := (p_chans s1)(tc_chan s \<mapsto> ch'), p_channels := m, p_kernel := k'\<rparr>"
    have "tc_inv interest s2"
      by (rule tc_invI [where ch = ch'])
        (use inv' set(3,4) rw up out False in \<open>auto simp: s2_def s1_def\<close>)
    moreover have "send_rest e rest s = Inr s2"
      using False no ch(1) set(1) by (simp add: send_rest_def tc_deref_def s1_def s2_def Let_def)
    ultimately show ?thesis using out(2) by (simp add: s2_def s1_def conn_frame_def)
  qed
qed

section \<open>Sending\<close>

text \<open>\<open>write\<close> takes at most what it is given.\<close>

definition write_spec :: "write_fun \<Rightarrow> bool" where
  "write_spec write \<longleftrightarrow> (\<forall>fd d n. write fd d = Wrote n \<longrightarrow> n \<le> length d)"

lemma send_Inr:
  assumes spec: "epoll_ctl_spec (env_ctl e) interest" and inv: "tc_inv interest s"
    and tid: "env_tid e = p_loop_tid s" and up: "tc_state s = kConnected"
    and quiet: "tc_write_complete_callback s = None"
  shows "\<exists>s' fd. send e call d s = Inr s' \<and> tc_inv interest s' \<and> conn_frame s s'
    \<and> tc_sent s' @ contents (tc_output s') = tc_sent s @ contents (tc_output s)
        @ (if contents (tc_output s) = [] \<and> env_write e fd d = WriteErr EPIPE then [] else d)
    \<and> tc_state s' = tc_state s \<and> tc_shut s' = tc_shut s"
proof -
  obtain ch where ch: "p_chans s (tc_chan s) = Some ch" "ch_index ch = kAdded" "is_reading ch"
      "is_writing ch \<longleftrightarrow> contents (tc_output s) \<noteq> []"
    using tc_inv_chan [OF inv] up by auto
  have idle: "\<not> is_writing ch \<and> ReadableBytes (tc_output s) = 0 \<longleftrightarrow> contents (tc_output s) = []"
    using ch(4) ReadableBytes_contents [OF tc_invD(3) [OF inv]] by simp
  show ?thesis
  proof (cases "contents (tc_output s) = []")
    case False
    then have "send e call d s = send_rest e d s" using idle up ch(1) by (auto simp: send_def tc_deref_def)
    with send_rest_Inr [OF spec inv tid up, of d] False show ?thesis by auto
  next
    case empty: True
    show ?thesis
    proof (cases "env_write e (ch_fd ch) d")
      case (WriteErr err)
      show ?thesis
      proof (cases "err = EPIPE")
        case True
        then have "send e call d s = Inr s" using idle up ch(1) empty WriteErr by (simp add: send_def tc_deref_def)
        with inv empty WriteErr True show ?thesis by (intro exI [of _ s] exI [of _ "ch_fd ch"]) simp
      next
        case False
        then have "send e call d s = send_rest e d s"
          using idle up ch(1) empty WriteErr by (simp add: send_def tc_deref_def)
        with send_rest_Inr [OF spec inv tid up, of d] empty WriteErr False show ?thesis
          by (auto intro!: exI [of _ "ch_fd ch"])
      qed
    next
      case (Wrote n)
      define s1 where "s1 = s\<lparr>tc_sent := tc_sent s @ take n d\<rparr>"
      have s1: "tc_inv interest s1" "env_tid e = p_loop_tid s1" "tc_state s1 = kConnected"
        using inv tid up by (simp_all add: s1_def)
      have "send e call d s = send_rest e (drop n d) s1"
        using idle up ch(1) empty Wrote quiet by (simp add: send_def tc_deref_def s1_def Let_def call_opt_def)
      with send_rest_Inr [OF spec s1, of "drop n d"] empty Wrote show ?thesis
        by (auto simp: s1_def conn_frame_def intro!: exI [of _ "ch_fd ch"])
    qed
  qed
qed

lemma HandleWrite_Inr:
  assumes spec: "epoll_ctl_spec (env_ctl e) interest" and w: "write_spec (env_write e)"
    and inv: "tc_inv interest s" and tid: "env_tid e = p_loop_tid s"
    and up: "tc_state s = kConnected \<or> tc_state s = kDisconnecting"
    and quiet: "tc_write_complete_callback s = None"
  shows "\<exists>s' fd. HandleWrite e call s = Inr s' \<and> tc_inv interest s' \<and> conn_frame s s'
    \<and> tc_sent s' @ contents (tc_output s') = tc_sent s @ contents (tc_output s)
    \<and> (\<forall>n. contents (tc_output s) \<noteq> [] \<longrightarrow> env_write e fd (contents (tc_output s)) = Wrote n \<longrightarrow>
         tc_sent s' = tc_sent s @ take n (contents (tc_output s)))
    \<and> (contents (tc_output s) = [] \<longrightarrow> s' = s)
    \<and> tc_state s' = tc_state s \<and> (tc_graceful s \<longrightarrow> tc_graceful s')"
proof -
  obtain ch where ch: "p_chans s (tc_chan s) = Some ch" "ch_index ch = kAdded" "is_reading ch"
      "is_writing ch \<longleftrightarrow> contents (tc_output s) \<noteq> []"
    using tc_inv_chan [OF inv] up by auto
  note inv' = tc_invD [OF inv]
  let ?d = "contents (tc_output s)"
  have len: "ReadableBytes (tc_output s) = length ?d" by (rule ReadableBytes_contents [OF inv'(3)])
  have data: "take (ReadableBytes (tc_output s)) (Peek (tc_output s)) = ?d"
    using take_Peek [OF inv'(3), of "ReadableBytes (tc_output s)"] len by simp
  show ?thesis
  proof (cases "is_writing ch \<and> (case env_write e (ch_fd ch) ?d of Wrote n \<Rightarrow> 0 < n | WriteErr err \<Rightarrow> False)")
    case False
    then have "HandleWrite e call s = Inr s"
      using ch(1) data by (auto simp: HandleWrite_def tc_deref_def Let_def split: write_result.splits)
    then show ?thesis using inv False ch(4) by (intro exI [of _ s] exI [of _ "ch_fd ch"]) auto
  next
    case True
    then obtain n where n: "0 < n" "env_write e (ch_fd ch) ?d = Wrote n" "is_writing ch"
      by (cases "env_write e (ch_fd ch) ?d") auto
    have le: "n \<le> length ?d" using w n(2) by (auto simp: write_spec_def)
    obtain out where out: "retrieve n (tc_output s) = Inr out" "buffer_inv out" "contents out = drop n ?d"
      using retrieve_Inr [OF inv'(3)] le len by auto
    define s1 where "s1 = s\<lparr>tc_sent := tc_sent s @ take n ?d, tc_output := out\<rparr>"
    have rb: "ReadableBytes (tc_output s1) = length ?d - n" using ReadableBytes_contents [OF out(2)] out(3) by (simp add: s1_def)
    show ?thesis
    proof (cases "n = length ?d")
      case False
      then have ne: "contents out \<noteq> []" using le out(3) by simp
      then have "tc_inv interest s1"
        using inv' up ch n(3) out by (intro tc_invI [where ch = ch]) (auto simp: s1_def)
      moreover have "HandleWrite e call s = Inr s1"
        using ch(1) n data out(1) rb False le by (simp add: HandleWrite_def tc_deref_def Let_def s1_def)
      moreover have "tc_graceful s1" if "tc_graceful s" using that ch(4) n(3) ne by (simp add: tc_graceful_def s1_def)
      ultimately show ?thesis using n(2,3) ch(4) out(3) by (auto simp: s1_def conn_frame_def intro!: exI [of _ "ch_fd ch"])
    next
      case True
      have p1: "poller_inv interest s1" "p_chans s1 (tc_chan s) = Some ch" "env_tid e = p_loop_tid s1"
        using inv'(1) ch(1) tid by (simp_all add: s1_def)
      have some: "\<not> is_none_event (clear_writing ch)" using ch(3) by (intro is_reading_none) simp
      obtain k' m ch' where set: "run_setter (env_ctl e) (env_tid e) (tc_chan s) ClearWriting s1 =
            Inr (s1\<lparr>p_chans := (p_chans s1)(tc_chan s \<mapsto> ch'), p_channels := m, p_kernel := k'\<rparr>)"
          "ch_events ch' = ch_events (clear_writing ch)" "ch_index ch' = kAdded"
          "poller_inv interest (s1\<lparr>p_chans := (p_chans s1)(tc_chan s \<mapsto> ch'), p_channels := m, p_kernel := k'\<rparr>)"
        using run_setter_Inr [OF spec p1, of ClearWriting] some by auto
      have rw: "is_reading ch'" "\<not> is_writing ch'"
        using is_reading_events [OF set(2)] is_writing_events [OF set(2)] ch(3) by simp_all
      define s2 where "s2 = s1\<lparr>p_chans := (p_chans s1)(tc_chan s \<mapsto> ch'), p_channels := m, p_kernel := k'\<rparr>"
      define s3 where "s3 = (if tc_state s2 = kDisconnecting then ShutdownWrite s2 else s2)"
      have "tc_inv interest s3"
        by (rule tc_invI [where ch = ch'])
          (use inv' set(3,4) rw up out True in \<open>auto simp: s3_def s2_def s1_def ShutdownWrite_def\<close>)
      moreover have "HandleWrite e call s = Inr s3"
        using ch(1) n data out(1) rb True set(1) quiet
        by (simp add: HandleWrite_def tc_deref_def Let_def s1_def s2_def s3_def call_opt_def)
      ultimately show ?thesis using n(2,3) ch(4) out(3) True
        by (auto simp: s3_def s2_def s1_def ShutdownWrite_def conn_frame_def tc_graceful_def intro!: exI [of _ "ch_fd ch"])
    qed
  qed
qed

lemma ShutDown_Inr:
  assumes inv: "tc_inv interest s" and up: "tc_state s = kConnected"
  shows "\<exists>s'. ShutDown s = Inr s' \<and> tc_inv interest s' \<and> conn_frame s s' \<and> tc_graceful s'
    \<and> tc_sent s' = tc_sent s \<and> tc_output s' = tc_output s \<and> tc_state s' = kDisconnecting"
proof -
  obtain ch where ch: "p_chans s (tc_chan s) = Some ch" "ch_index ch = kAdded" "is_reading ch"
      "is_writing ch \<longleftrightarrow> contents (tc_output s) \<noteq> []"
    using tc_inv_chan [OF inv] up by auto
  note inv' = tc_invD [OF inv]
  define s' where "s' = (if is_writing ch then s\<lparr>tc_state := kDisconnecting\<rparr> else ShutdownWrite (s\<lparr>tc_state := kDisconnecting\<rparr>))"
  have "tc_inv interest s'"
    by (rule tc_invI [where ch = ch]) (use inv' ch in \<open>auto simp: s'_def ShutdownWrite_def\<close>)
  moreover have "ShutDown s = Inr s'" using up ch(1) by (simp add: ShutDown_def tc_deref_def s'_def Let_def)
  ultimately show ?thesis using inv'(4) up ch(4) by (auto simp: s'_def ShutdownWrite_def conn_frame_def tc_graceful_def)
qed

section \<open>User callbacks\<close>

text \<open>
  What the library expects of user code run on a connection with no write-complete callback (the
  server installs none): on the loop's thread it returns, keeps the invariant, and at most starts
  closing the connection.
\<close>

definition user_frame :: "('u, 'k, 'z) tcp_connection_scheme \<Rightarrow> ('u, 'k, 'z) tcp_connection_scheme \<Rightarrow> bool" where
  "user_frame s s' \<longleftrightarrow> p_loop_tid s' = p_loop_tid s \<and> tc_chan s' = tc_chan s \<and> tc_self s' = tc_self s
     \<and> tc_connection_callback s' = tc_connection_callback s \<and> tc_close_callback s' = tc_close_callback s
     \<and> tc_write_complete_callback s' = tc_write_complete_callback s
     \<and> tc_message_callback s' = tc_message_callback s
     \<and> (tc_state s' = tc_state s \<or> tc_state s = kConnected \<and> tc_state s' = kDisconnecting)"

lemma user_frame_refl [simp]: "user_frame s s"
  by (simp add: user_frame_def)

lemma user_frame_trans: "user_frame s s1 \<Longrightarrow> user_frame s1 s2 \<Longrightarrow> user_frame s s2"
  by (auto simp: user_frame_def)

lemma conn_frame_user: "conn_frame s s' \<Longrightarrow> tc_state s' = tc_state s \<Longrightarrow> user_frame s s'"
  by (simp add: conn_frame_def user_frame_def)

text \<open>\<open>ConnectEstablished\<close> up to the user's callback.\<close>

lemma establish_Inr:
  assumes spec: "epoll_ctl_spec (env_ctl e) interest" and inv: "tc_inv interest s" and tid: "env_tid e = p_loop_tid s"
    and st: "tc_state s = kConnecting" and fresh: "\<not> tc_shut s" "contents (tc_output s) = []"
  shows "\<exists>s'. (\<forall>call. ConnectEstablished e call s = call_opt call (tc_connection_callback s) s')
    \<and> tc_inv interest s' \<and> conn_frame s s' \<and> tc_state s' = kConnected \<and> tc_sent s' = tc_sent s \<and> tc_output s' = tc_output s"
proof -
  obtain ch where ch: "p_chans s (tc_chan s) = Some ch" "is_none_event ch"
    using tc_inv_chan [OF inv] st by auto
  note inv' = tc_invD [OF inv]
  let ?s = "s\<lparr>tc_state := kConnected\<rparr>" and ?c = "tc_chan s"
  have p: "poller_inv interest ?s" "p_chans ?s ?c = Some ch" "env_tid e = p_loop_tid ?s"
    using inv'(1) ch(1) tid by simp_all
  have some: "\<not> is_none_event (set_reading ch)" by (rule is_reading_none) simp
  obtain k' m ch1 where set: "run_setter (env_ctl e) (env_tid e) ?c SetReading ?s =
        Inr (?s\<lparr>p_chans := (p_chans ?s)(?c \<mapsto> ch1), p_channels := m, p_kernel := k'\<rparr>)"
      "ch_events ch1 = ch_events (set_reading ch)" "ch_index ch1 = kAdded"
      "poller_inv interest (?s\<lparr>p_chans := (p_chans ?s)(?c \<mapsto> ch1), p_channels := m, p_kernel := k'\<rparr>)"
    using run_setter_Inr [OF spec p, of SetReading] some by auto
  define s1 where "s1 = ?s\<lparr>p_chans := (p_chans ?s)(?c \<mapsto> ch1), p_channels := m, p_kernel := k'\<rparr>"
  define ch2 where "ch2 = Tie (tc_self s) ch1"
  define s2 where "s2 = s1\<lparr>p_chans := (p_chans s1)(?c \<mapsto> ch2)\<rparr>"
  have rw: "is_reading ch2" "\<not> is_writing ch2" "ch_index ch2 = kAdded"
    using set(2,3) is_reading_events [OF set(2)] is_writing_events [OF set(2)] ch(2) not_none_writing [of ch]
      is_reading_events [of ch2 ch1] is_writing_events [of ch2 ch1] by (auto simp: ch2_def Tie_def)
  have "poller_inv interest (s1\<lparr>p_chans := (p_chans s1)(?c \<mapsto> ch2), p_channels := p_channels s1, p_kernel := p_kernel s1\<rparr>)"
    (is "poller_inv interest ?s2") by (rule poller_inv_replace [where ch = ch1])
      (use set(3,4) poller_inv_added [OF set(4), of ?c ch1]
        in \<open>auto simp: s1_def ch2_def Tie_def index_defs fun_eq_iff\<close>)
  then have "poller_inv interest s2" using poller_inv_cong [of ?s2 s2 interest] by (simp add: s2_def)
  then have "tc_inv interest s2"
    by (rule tc_invI [where ch = ch2]) (use inv' rw fresh in \<open>auto simp: s2_def s1_def\<close>)
  moreover have "ConnectEstablished e call s = call_opt call (tc_connection_callback s) s2" for call
    using set(1) by (simp add: ConnectEstablished_def s1_def s2_def ch2_def on_channel_def)
  ultimately show ?thesis by (intro exI [of _ s2]) (simp add: conn_frame_def s2_def s1_def)
qed

locale connection_user =
  fixes interest :: "'k \<Rightarrow> int \<rightharpoonup> epoll_event" and e :: "'k tc_env"
    and call :: "'u \<Rightarrow> ('u, 'k, 'z) conn_op"
  assumes call_ok: "epoll_ctl_spec (env_ctl e) interest \<Longrightarrow> write_spec (env_write e) \<Longrightarrow>
    tc_inv interest s \<Longrightarrow> env_tid e = p_loop_tid s \<Longrightarrow> tc_write_complete_callback s = None \<Longrightarrow>
    \<exists>s'. call cb s = Inr s' \<and> tc_inv interest s' \<and> user_frame s s'"
begin

lemma call_opt_ok:
  assumes "epoll_ctl_spec (env_ctl e) interest" "write_spec (env_write e)" "tc_inv interest s" "env_tid e = p_loop_tid s"
    "tc_write_complete_callback s = None"
  shows "\<exists>s'. call_opt call cb s = Inr s' \<and> tc_inv interest s' \<and> user_frame s s'"
  using call_ok [OF assms] assms(3) by (cases cb) (simp_all add: call_opt_def)

lemma close_channel:
  assumes spec: "epoll_ctl_spec (env_ctl e) interest" and inv: "tc_inv interest s" and tid: "env_tid e = p_loop_tid s"
  shows "\<exists>s'. DisableAll (env_ctl e) (env_tid e) (tc_chan s) (s\<lparr>tc_state := kDisconnected\<rparr>) = Inr s'
    \<and> tc_inv interest s' \<and> conn_frame s s' \<and> tc_state s' = kDisconnected \<and> tc_sent s' = tc_sent s"
proof -
  obtain ch where ch: "p_chans s (tc_chan s) = Some ch" using tc_inv_chan [OF inv] by auto
  note inv' = tc_invD [OF inv]
  let ?s = "s\<lparr>tc_state := kDisconnected\<rparr>"
  have p: "poller_inv interest ?s" "p_chans ?s (tc_chan s) = Some ch" "env_tid e = p_loop_tid ?s"
    using inv'(1) ch tid by simp_all
  obtain k' m ch' where set: "run_setter (env_ctl e) (env_tid e) (tc_chan s) ClearAll ?s =
        Inr (?s\<lparr>p_chans := (p_chans ?s)(tc_chan s \<mapsto> ch'), p_channels := m, p_kernel := k'\<rparr>)"
      "ch_events ch' = ch_events (clear_all ch)"
      "poller_inv interest (?s\<lparr>p_chans := (p_chans ?s)(tc_chan s \<mapsto> ch'), p_channels := m, p_kernel := k'\<rparr>)"
    using run_setter_Inr [OF spec p, of ClearAll] by auto
  define s' where "s' = ?s\<lparr>p_chans := (p_chans ?s)(tc_chan s \<mapsto> ch'), p_channels := m, p_kernel := k'\<rparr>"
  have "tc_inv interest s'"
    by (rule tc_invI [where ch = ch'])
      (use inv' set(2,3) in \<open>auto simp: s'_def is_none_event_def clear_all_def\<close>)
  then show ?thesis using set(1) by (auto simp: s'_def conn_frame_def)
qed

lemma HandleClose_ok:
  assumes "epoll_ctl_spec (env_ctl e) interest" "write_spec (env_write e)" "tc_inv interest s" "env_tid e = p_loop_tid s"
    and "tc_state s = kConnected \<or> tc_state s = kDisconnecting"
    and quiet: "tc_write_complete_callback s = None"
  shows "\<exists>s'. HandleClose e call s = Inr s' \<and> tc_inv interest s' \<and> tc_state s' = kDisconnected
    \<and> p_loop_tid s' = p_loop_tid s \<and> tc_chan s' = tc_chan s"
proof -
  obtain s1 where s1: "DisableAll (env_ctl e) (env_tid e) (tc_chan s) (s\<lparr>tc_state := kDisconnected\<rparr>) = Inr s1"
      "tc_inv interest s1" "conn_frame s s1" "tc_state s1 = kDisconnected"
    using close_channel [OF assms(1,3,4)] by auto
  have t1: "env_tid e = p_loop_tid s1" and q1: "tc_write_complete_callback s1 = None"
    using s1(3) assms(4) quiet by (simp_all add: conn_frame_def)
  obtain s2 where s2: "call_opt call (tc_connection_callback s1) s1 = Inr s2" "tc_inv interest s2" "user_frame s1 s2"
    using call_opt_ok [OF assms(1,2) s1(2) t1 q1] by blast
  have t2: "env_tid e = p_loop_tid s2" and q2: "tc_write_complete_callback s2 = None"
    using s2(3) t1 q1 by (simp_all add: user_frame_def)
  obtain s3 where s3: "call_opt call (tc_close_callback s2) s2 = Inr s3" "tc_inv interest s3" "user_frame s2 s3"
    using call_opt_ok [OF assms(1,2) s2(2) t2 q2] by blast
  have "HandleClose e call s = Inr s3" using assms(5) s1(1) s2(1) s3(1) by (simp add: HandleClose_def assertE_def)
  with s3(2) user_frame_trans [OF s2(3) s3(3)] s1(3,4) show ?thesis by (auto simp: user_frame_def conn_frame_def)
qed

lemma HandleRead_ok:
  assumes "epoll_ctl_spec (env_ctl e) interest" "write_spec (env_write e)" "tc_inv interest s" "env_tid e = p_loop_tid s"
    and "tc_state s = kConnected \<or> tc_state s = kDisconnecting" and "tc_message_callback s \<noteq> None"
    and "length (buffer_mem (tc_input s)) < 2 ^ 63"
    and "\<And>fd ls. length (readv_bytes (env_readv e fd ls)) < 2 ^ 63"
    and quiet: "tc_write_complete_callback s = None"
  shows "\<exists>s'. HandleRead e call s = Inr s' \<and> tc_inv interest s' \<and> p_loop_tid s' = p_loop_tid s \<and> tc_chan s' = tc_chan s"
proof -
  obtain ch where ch: "p_chans s (tc_chan s) = Some ch" using tc_inv_chan [OF assms(3)] by auto
  obtain n se b where r: "ReadFd (env_readv e) (ch_fd ch) 0 (tc_input s) = (n, se, b)" by (cases "ReadFd (env_readv e) (ch_fd ch) 0 (tc_input s)")
  then have b: "buffer_inv b"
    using ReadFd_inv [where readv = "env_readv e", OF tc_invD(2) [OF assms(3)] assms(7,8), of "ch_fd ch" 0] by simp
  define s1 where "s1 = s\<lparr>tc_input := b\<rparr>"
  have s1: "tc_inv interest s1" "env_tid e = p_loop_tid s1" "tc_state s1 = kConnected \<or> tc_state s1 = kDisconnecting"
    using assms(3-5) b by (auto simp: s1_def tc_inv_def)
  have q1: "tc_write_complete_callback s1 = None" using quiet by (simp add: s1_def)
  have run: "HandleRead e call s = (if n > 0 then call_must call (tc_message_callback s1) s1
      else if n = 0 then HandleClose e call s1 else HandleError s1)"
    using ch r by (simp add: HandleRead_def tc_deref_def s1_def)
  have "\<exists>s'. call_must call (tc_message_callback s1) s1 = Inr s' \<and> tc_inv interest s' \<and> user_frame s1 s'"
    using call_ok [OF assms(1,2) s1(1,2) q1] assms(6) by (auto simp: call_must_def s1_def)
  moreover have "\<exists>s'. HandleClose e call s1 = Inr s' \<and> tc_inv interest s'
      \<and> p_loop_tid s' = p_loop_tid s1 \<and> tc_chan s' = tc_chan s1"
    using HandleClose_ok [OF assms(1,2) s1 q1] by blast
  ultimately show ?thesis using s1(1) by (auto simp: run HandleError_def s1_def user_frame_def)
qed

end

context connection_user
begin

lemma ConnectEstablished_ok:
  assumes "epoll_ctl_spec (env_ctl e) interest" "write_spec (env_write e)" "tc_inv interest s" "env_tid e = p_loop_tid s"
    and "tc_state s = kConnecting" and "\<not> tc_shut s" and "contents (tc_output s) = []"
    and quiet: "tc_write_complete_callback s = None"
  shows "\<exists>s'. ConnectEstablished e call s = Inr s' \<and> tc_inv interest s'
    \<and> (tc_state s' = kConnected \<or> tc_state s' = kDisconnecting)
    \<and> p_loop_tid s' = p_loop_tid s \<and> tc_chan s' = tc_chan s"
proof -
  obtain s2 where s2: "\<forall>call. ConnectEstablished e call s = call_opt call (tc_connection_callback s) s2"
      "tc_inv interest s2" "conn_frame s s2" "tc_state s2 = kConnected"
    using establish_Inr [OF assms(1,3-7)] by blast
  have "env_tid e = p_loop_tid s2" "tc_write_complete_callback s2 = None"
    using assms(4) quiet s2(3) by (simp_all add: conn_frame_def)
  then obtain s3 where "call_opt call (tc_connection_callback s) s2 = Inr s3" "tc_inv interest s3" "user_frame s2 s3"
    using call_opt_ok [OF assms(1,2) s2(2)] by blast
  then show ?thesis using s2 by (auto simp: user_frame_def conn_frame_def)
qed

text \<open>The last two calls of the teardown, on a connection that is down.\<close>

lemma teardown_ok:
  assumes spec: "epoll_ctl_spec (env_ctl e) interest" and inv: "tc_inv interest s" and tid: "env_tid e = p_loop_tid s"
    and down: "\<not> (tc_state s = kConnected \<or> tc_state s = kDisconnecting)"
  shows "\<exists>s' ch. bindE (DisableAll (env_ctl e) (env_tid e) (tc_chan s) s) (\<lambda>s. Remove (env_ctl e) (env_tid e) (tc_chan s) s) = Inr s'
    \<and> tc_inv interest s' \<and> tc_state s' = tc_state s \<and> tc_chan s' = tc_chan s
    \<and> p_chans s' (tc_chan s) = Some ch \<and> interest (p_kernel s') (ch_fd ch) = None
    \<and> poller_inv interest (destroy_channel (tc_chan s) s')"
proof -
  let ?c = "tc_chan s"
  obtain ch where ch: "p_chans s ?c = Some ch" using tc_inv_chan [OF inv] by auto
  note inv' = tc_invD [OF inv]
  obtain k1 m ch1 where set: "run_setter (env_ctl e) (env_tid e) ?c ClearAll s =
        Inr (s\<lparr>p_chans := (p_chans s)(?c \<mapsto> ch1), p_channels := m, p_kernel := k1\<rparr>)"
      "ch_events ch1 = ch_events (clear_all ch)"
      "poller_inv interest (s\<lparr>p_chans := (p_chans s)(?c \<mapsto> ch1), p_channels := m, p_kernel := k1\<rparr>)"
    using run_setter_Inr [OF spec inv'(1) ch tid, of ClearAll] by auto
  define s1 where "s1 = s\<lparr>p_chans := (p_chans s)(?c \<mapsto> ch1), p_channels := m, p_kernel := k1\<rparr>"
  have s1: "poller_inv interest s1" "p_chans s1 ?c = Some ch1" "env_tid e = p_loop_tid s1" "is_none_event ch1"
    using set tid by (simp_all add: s1_def is_none_event_def clear_all_def)
  define ch2 where "ch2 = (if ch_index ch1 = kAdded then ch1\<lparr>ch_index := kDeleted\<rparr> else ch1)"
  obtain k2 where rem: "Remove (env_ctl e) (env_tid e) ?c s1 = Inr (s1\<lparr>p_chans := (p_chans s1)(?c \<mapsto> ch2), p_kernel := k2\<rparr>)"
      "interest k2 = (interest (p_kernel s1))(ch_fd ch1 := None)"
      "poller_inv interest (s1\<lparr>p_chans := (p_chans s1)(?c \<mapsto> ch2), p_kernel := k2\<rparr>)"
    using Remove_Inr [OF spec s1] unfolding ch2_def by blast
  define s2 where "s2 = s1\<lparr>p_chans := (p_chans s1)(?c \<mapsto> ch2), p_kernel := k2\<rparr>"
  have ch2: "is_none_event ch2" "ch_index ch2 \<noteq> kAdded" "ch_fd ch2 = ch_fd ch1"
    using s1(4) by (auto simp: ch2_def is_none_event_def index_defs)
  have "tc_inv interest s2"
    by (rule tc_invI [where ch = ch2]) (use inv' rem(3) ch2 down in \<open>auto simp: s2_def s1_def\<close>)
  moreover have "poller_inv interest (destroy_channel ?c s2)"
    by (rule destroy_channel_inv [where ch = ch2]) (use rem(3) ch2(2) in \<open>simp_all add: s2_def\<close>)
  moreover have "bindE (DisableAll (env_ctl e) (env_tid e) ?c s) (\<lambda>s. Remove (env_ctl e) (env_tid e) (tc_chan s) s) = Inr s2"
    using set(1) rem(1) by (simp add: s1_def s2_def)
  ultimately show ?thesis using rem(2) ch2(3)
    by (intro exI [of _ s2] exI [of _ ch2]) (simp add: s2_def s1_def)
qed

lemma ConnectDestroyed_ok:
  assumes "epoll_ctl_spec (env_ctl e) interest" "write_spec (env_write e)" "tc_inv interest s" "env_tid e = p_loop_tid s"
    and "tc_connection_callback s \<noteq> None"
    and quiet: "tc_write_complete_callback s = None"
  shows "\<exists>s' ch. ConnectDestroyed e call s = Inr s' \<and> tc_inv interest s' \<and> p_chans s' (tc_chan s) = Some ch
    \<and> (tc_state s \<noteq> kConnecting \<longrightarrow> tc_state s' = kDisconnected)
    \<and> interest (p_kernel s') (ch_fd ch) = None \<and> poller_inv interest (destroy_channel (tc_chan s) s')"
proof (cases "tc_state s = kConnected \<or> tc_state s = kDisconnecting")
  case False
  then have "ConnectDestroyed e call s =
      bindE (DisableAll (env_ctl e) (env_tid e) (tc_chan s) s) (\<lambda>s. Remove (env_ctl e) (env_tid e) (tc_chan s) s)"
    by (simp add: ConnectDestroyed_def)
  then show ?thesis using teardown_ok [OF assms(1,3,4) False] False by (cases "tc_state s") auto
next
  case True
  obtain s1 where s1: "DisableAll (env_ctl e) (env_tid e) (tc_chan s) (s\<lparr>tc_state := kDisconnected\<rparr>) = Inr s1"
      "tc_inv interest s1" "conn_frame s s1" "tc_state s1 = kDisconnected"
    using close_channel [OF assms(1,3,4)] by auto
  have t1: "env_tid e = p_loop_tid s1" and q1: "tc_write_complete_callback s1 = None"
    using s1(3) assms(4) quiet by (simp_all add: conn_frame_def)
  obtain s2 where s2: "call_must call (tc_connection_callback s1) s1 = Inr s2" "tc_inv interest s2" "user_frame s1 s2"
    using call_ok [OF assms(1,2) s1(2) t1 q1, of "the (tc_connection_callback s1)"] assms(5) s1(3)
    by (auto simp: call_must_def conn_frame_def)
  have t2: "env_tid e = p_loop_tid s2" "tc_state s2 = kDisconnected" "tc_chan s2 = tc_chan s"
    using s2(3) t1 s1(3,4) by (auto simp: user_frame_def conn_frame_def)
  have "ConnectDestroyed e call s =
      bindE (DisableAll (env_ctl e) (env_tid e) (tc_chan s2) s2) (\<lambda>s. Remove (env_ctl e) (env_tid e) (tc_chan s) s)"
    using True s1(1) s2(1) by (simp add: ConnectDestroyed_def)
  then show ?thesis using teardown_ok [OF assms(1) s2(2) t2(1)] t2(2,3) by auto
qed

end

section \<open>Sequences of operations\<close>

text \<open>What the user and the poller do to the sending side of an open connection.\<close>

datatype conn_action = Send "char list" | Writable | Close

fun run_action :: "('u \<Rightarrow> ('u, 'k, 'z) conn_op) \<Rightarrow> 'k tc_env \<Rightarrow> conn_action \<Rightarrow> ('u, 'k, 'z) conn_op" where
  "run_action call e (Send d) s = send e call d s"
| "run_action call e Writable s = HandleWrite e call s"
| "run_action call e Close s = ShutDown s"

fun run_actions :: "('u \<Rightarrow> ('u, 'k, 'z) conn_op) \<Rightarrow> ('k tc_env \<times> conn_action) list \<Rightarrow> ('u, 'k, 'z) conn_op" where
  "run_actions call [] s = Inr s"
| "run_actions call ((e, a) # as) s = bindE (run_action call e a s) (run_actions call as)"

text \<open>The bytes a connection owes its peer: those of every \<open>send\<close> before the first \<open>ShutDown\<close>.\<close>

fun accepted :: "('k tc_env \<times> conn_action) list \<Rightarrow> char list" where
  "accepted [] = []"
| "accepted ((e, Send d) # as) = d @ accepted as"
| "accepted ((e, Writable) # as) = accepted as"
| "accepted ((e, Close) # as) = []"

text \<open>An environment that behaves as documented, on a socket whose peer has not gone.\<close>

definition env_ok :: "('k \<Rightarrow> int \<rightharpoonup> epoll_event) \<Rightarrow> int \<Rightarrow> 'k tc_env \<Rightarrow> bool" where
  "env_ok interest tid e \<longleftrightarrow> epoll_ctl_spec (env_ctl e) interest \<and> write_spec (env_write e) \<and> env_tid e = tid
     \<and> (\<forall>fd d. env_write e fd d \<noteq> WriteErr EPIPE)"

lemma run_action_Inr:
  assumes env: "env_ok interest (p_loop_tid s) e" and inv: "tc_inv interest s"
    and up: "tc_state s = kConnected \<or> tc_state s = kDisconnecting" and grace: "tc_graceful s"
    and quiet: "tc_write_complete_callback s = None"
  shows "\<exists>s'. run_action call e a s = Inr s' \<and> tc_inv interest s' \<and> conn_frame s s' \<and> tc_graceful s'
    \<and> tc_sent s' @ contents (tc_output s') = tc_sent s @ contents (tc_output s)
        @ (case a of Send d \<Rightarrow> if tc_state s = kConnected then d else [] | _ \<Rightarrow> [])
    \<and> tc_state s' = (if a = Close then kDisconnecting else tc_state s)"
proof -
  have e: "epoll_ctl_spec (env_ctl e) interest" "write_spec (env_write e)" "env_tid e = p_loop_tid s"
      "\<And>fd d. env_write e fd d \<noteq> WriteErr EPIPE"
    using env by (simp_all add: env_ok_def)
  show ?thesis
  proof (cases a)
    case (Send d)
    show ?thesis
    proof (cases "tc_state s = kConnected")
      case True
      with send_Inr [OF e(1) inv e(3) True quiet, of call d] e(4) grace Send show ?thesis
        by (auto simp: tc_graceful_def)
    next
      case False
      then show ?thesis using inv grace Send by (simp add: send_def)
    qed
  next
    case Writable
    with HandleWrite_Inr [OF e(1,2) inv e(3) up quiet, of call] grace show ?thesis by auto
  next
    case Close
    show ?thesis
    proof (cases "tc_state s = kConnected")
      case True
      with ShutDown_Inr [OF inv True] Close show ?thesis by auto
    next
      case False
      then show ?thesis using inv grace up Close by (auto simp: ShutDown_def)
    qed
  qed
qed

lemma run_actions_Inr:
  assumes "\<And>e a. (e, a) \<in> set as \<Longrightarrow> env_ok interest (p_loop_tid s) e" and "tc_inv interest s"
    and "tc_state s = kConnected \<or> tc_state s = kDisconnecting" and "tc_graceful s"
    and "tc_write_complete_callback s = None"
  shows "\<exists>s'. run_actions call as s = Inr s' \<and> tc_inv interest s' \<and> tc_graceful s' \<and> conn_frame s s'
    \<and> tc_sent s' @ contents (tc_output s') = tc_sent s @ contents (tc_output s)
        @ (if tc_state s = kConnected then accepted as else [])
    \<and> (tc_state s' = kConnected \<or> tc_state s' = kDisconnecting) \<and> (tc_state s = kDisconnecting \<longrightarrow> tc_state s' = kDisconnecting)"
  using assms
proof (induction as arbitrary: s)
  case (Cons x as)
  obtain e a where x: "x = (e, a)" by (cases x)
  obtain s1 where s1: "run_action call e a s = Inr s1" "tc_inv interest s1" "conn_frame s s1" "tc_graceful s1"
      "tc_sent s1 @ contents (tc_output s1) = tc_sent s @ contents (tc_output s)
        @ (case a of Send d \<Rightarrow> if tc_state s = kConnected then d else [] | _ \<Rightarrow> [])"
      "tc_state s1 = (if a = Close then kDisconnecting else tc_state s)"
    using run_action_Inr [OF Cons.prems(1) Cons.prems(2-5), of e a call a] x by auto
  have "env_ok interest (p_loop_tid s1) e'" if "(e', a') \<in> set as" for e' a'
    using Cons.prems(1) [of e' a'] that s1(3) by (simp add: conn_frame_def)
  moreover have "tc_state s1 = kConnected \<or> tc_state s1 = kDisconnecting" using s1(6) Cons.prems(3) by simp
  moreover have "tc_write_complete_callback s1 = None" using s1(3) Cons.prems(5) by (simp add: conn_frame_def)
  ultimately obtain s' where s': "run_actions call as s1 = Inr s'" "tc_inv interest s'" "tc_graceful s'" "conn_frame s1 s'"
      "tc_sent s' @ contents (tc_output s') = tc_sent s1 @ contents (tc_output s1)
        @ (if tc_state s1 = kConnected then accepted as else [])"
      "tc_state s' = kConnected \<or> tc_state s' = kDisconnecting" "tc_state s1 = kDisconnecting \<longrightarrow> tc_state s' = kDisconnecting"
    using Cons.IH [OF _ s1(2) _ s1(4)] by blast
  have "accepted (x # as) = (case a of Send d \<Rightarrow> d | _ \<Rightarrow> []) @ (if a = Close then [] else accepted as)"
    by (cases a) (simp_all add: x)
  then have "tc_sent s' @ contents (tc_output s') = tc_sent s @ contents (tc_output s)
      @ (if tc_state s = kConnected then accepted (x # as) else [])"
    using s'(5) s1(5,6) by (cases a) (auto split: if_splits)
  moreover have "run_actions call (x # as) s = Inr s'" using s1(1) s'(1) x by simp
  moreover have "tc_state s = kDisconnecting \<longrightarrow> tc_state s' = kDisconnecting" using s'(7) s1(6) by auto
  ultimately show ?case using s'(2,3,6) conn_frame_trans [OF s1(3) s'(4)] by blast
qed simp

lemma drain_output:
  assumes "\<And>e. e \<in> set es \<Longrightarrow> env_ok interest (p_loop_tid s) e \<and> (\<forall>fd d. d \<noteq> [] \<longrightarrow> (\<exists>n > 0. env_write e fd d = Wrote n))"
    and "tc_inv interest s" and "tc_state s = kDisconnecting" and "tc_graceful s"
    and "tc_write_complete_callback s = None" and "length (contents (tc_output s)) \<le> length es"
  shows "\<exists>s'. run_actions call (map (\<lambda>e. (e, Writable)) es) s = Inr s'
    \<and> tc_sent s' = tc_sent s @ contents (tc_output s) \<and> contents (tc_output s') = [] \<and> tc_shut s'"
  using assms
proof (induction es arbitrary: s)
  case Nil
  then show ?case by (simp add: tc_graceful_def)
next
  case (Cons e es)
  have e: "env_ok interest (p_loop_tid s) e" "\<And>fd d. d \<noteq> [] \<Longrightarrow> \<exists>n > 0. env_write e fd d = Wrote n"
    using Cons.prems(1) [of e] by auto
  then have e': "epoll_ctl_spec (env_ctl e) interest" "write_spec (env_write e)" "env_tid e = p_loop_tid s"
    by (simp_all add: env_ok_def)
  let ?d = "contents (tc_output s)"
  obtain s1 fd where s1: "HandleWrite e call s = Inr s1" "tc_inv interest s1" "conn_frame s s1"
      "tc_sent s1 @ contents (tc_output s1) = tc_sent s @ ?d"
      "\<forall>n. ?d \<noteq> [] \<longrightarrow> env_write e fd ?d = Wrote n \<longrightarrow> tc_sent s1 = tc_sent s @ take n ?d"
      "tc_state s1 = tc_state s" "tc_graceful s1" "?d = [] \<longrightarrow> s1 = s"
    using HandleWrite_Inr [OF e'(1,2) Cons.prems(2) e'(3) _ Cons.prems(5), of call] Cons.prems(3,4) by blast
  have len: "length (contents (tc_output s1)) \<le> length es"
  proof (cases "?d = []")
    case True
    then show ?thesis using s1(8) by simp
  next
    case False
    then obtain n where n: "0 < n" "env_write e fd ?d = Wrote n" using e(2) by blast
    then have "tc_sent s1 = tc_sent s @ take n ?d" using s1(5) False by blast
    then have "contents (tc_output s1) = drop n ?d" using s1(4) append_take_drop_id [of n ?d] by (metis append.assoc same_append_eq)
    then show ?thesis using n(1) Cons.prems(6) False by (cases ?d) auto
  qed
  have env1: "env_ok interest (p_loop_tid s1) e2 \<and> (\<forall>fd d. d \<noteq> [] \<longrightarrow> (\<exists>n > 0. env_write e2 fd d = Wrote n))" if "e2 \<in> set es" for e2
    using Cons.prems(1) [of e2] that s1(3) by (simp add: conn_frame_def)
  have "tc_state s1 = kDisconnecting" "tc_write_complete_callback s1 = None"
    using s1(3,6) Cons.prems(3,5) by (simp_all add: conn_frame_def)
  from Cons.IH [OF env1 s1(2) this(1) s1(7) this(2) len] s1(1,4) show ?case by auto
qed

section \<open>A sample connection\<close>

definition sample_conn :: "(unit, int \<rightharpoonup> epoll_event) tcp_connection" where
  "sample_conn = \<lparr>p_loop_tid = 1, p_chans = [7 \<mapsto> (conn_channel 5)\<lparr>ch_events := kReadEvent, ch_index := kAdded\<rparr>],
     p_channels = [5 \<mapsto> 7], p_kernel = [5 \<mapsto> (kReadEvent, 7)], p_events_size = 16, p_events_cap = 16,
     tc_self = 9, tc_name = ''c'', tc_state = kConnected, tc_chan = 7, tc_sent = [], tc_shut = False,
     tc_input = \<lparr>buffer_mem = [], read_index = 0, write_index = 0\<rparr>,
     tc_output = \<lparr>buffer_mem = [], read_index = 0, write_index = 0\<rparr>,
     tc_connection_callback = None, tc_close_callback = None, tc_write_complete_callback = None,
     tc_message_callback = None, tc_context = None\<rparr>"

text \<open>A kernel that takes two bytes at a time.\<close>

definition sample_env :: "(int \<rightharpoonup> epoll_event) tc_env" where
  "sample_env = \<lparr>env_tid = 1, env_ctl = ref_ctl, env_write = (\<lambda>fd d. Wrote (min 2 (length d))),
     env_readv = (\<lambda>fd ls. ReadData ''hi'')\<rparr>"

lemma sample_env_ok: "env_ok (\<lambda>k. k) 1 sample_env"
  by (simp add: env_ok_def sample_env_def ref_ctl_spec write_spec_def)

lemma kReadEvent_reads: "kReadEvent \<noteq> 0"
  by (simp add: channel_flags)

lemma sample_conn_inv: "tc_inv (\<lambda>k. k) sample_conn"
  by (rule tc_invI [where ch = "(conn_channel 5)\<lparr>ch_events := kReadEvent, ch_index := kAdded\<rparr>"])
    (auto simp: sample_conn_def poller_inv_def conn_channel_def new_Channel_def buffer_inv_def contents_def
      segment_def is_reading_def is_writing_def read_and_write kReadEvent_reads split: if_splits)

section \<open>Properties\<close>

text \<open>
  Property C1. The byte stream of a connection: whatever \<open>send\<close>, writable events and \<open>ShutDown\<close> come in
  whatever order, and however much each \<open>write\<close> takes, no operation faults, and what the kernel
  took followed by what is buffered is exactly what was there before followed by the data of every
  \<open>send\<close> before the first \<open>ShutDown\<close>, in order. The channel watches for output exactly while bytes
  are buffered, and a closing connection has shut its write half exactly when none are.
\<close>

theorem connection_stream:
  assumes "\<forall>(e, a) \<in> set as. env_ok interest (p_loop_tid s) e" and "tc_inv interest s"
    and "tc_state s = kConnected" and "tc_write_complete_callback s = None"
  shows "\<exists>s'. run_actions call as s = Inr s' \<and> tc_inv interest s' \<and> tc_graceful s'
    \<and> tc_sent s' @ contents (tc_output s') = tc_sent s @ contents (tc_output s) @ accepted as"
proof -
  have "tc_graceful s" using assms(3) by (simp add: tc_graceful_def)
  with run_actions_Inr [of "as" interest s call] assms show ?thesis by fastforce
qed

theorem connection_stream_witness:
  "\<exists>s'. run_actions (\<lambda>_. Inr) [(sample_env, Send ''hello''), (sample_env, Writable), (sample_env, Close)] sample_conn = Inr s'
     \<and> tc_sent s' @ contents (tc_output s') = ''hello''"
proof -
  have "p_loop_tid sample_conn = 1" "tc_state sample_conn = kConnected" "tc_write_complete_callback sample_conn = None"
      "tc_sent sample_conn = []" "contents (tc_output sample_conn) = []"
    by (simp_all add: sample_conn_def contents_def segment_def)
  with connection_stream [of "[(sample_env, Send ''hello''), (sample_env, Writable), (sample_env, Close)]"
      "\<lambda>k. k" sample_conn "\<lambda>_. Inr"] sample_env_ok sample_conn_inv show ?thesis by auto
qed

text \<open>
  Property C17. Graceful shutdown of a connection without a write-complete callback, on its loop's
  thread and with a peer that has not gone: \<open>ShutDown\<close> keeps the buffered bytes and shuts the write
  half at once only if there are none; whatever \<open>send\<close>, writable events and further \<open>ShutDown\<close> follow,
  nothing is lost or added, and the write half is shut exactly when no byte is left in the output
  buffer; and with \<open>n\<close> bytes buffered, \<open>n\<close> writable events in which the kernel takes at least one
  byte send them all, in order, and shut it.
\<close>

theorem graceful_shutdown:
  assumes "tc_inv interest s" and "tc_state s = kConnected" and "tc_write_complete_callback s = None"
    and "\<forall>(e, a) \<in> set as. env_ok interest (p_loop_tid s) e"
    and "\<forall>e \<in> set es. env_ok interest (p_loop_tid s) e \<and> (\<forall>fd d. d \<noteq> [] \<longrightarrow> (\<exists>n > 0. env_write e fd d = Wrote n))"
    and "length (contents (tc_output s)) \<le> length es"
  shows "\<exists>s1 s2 s3. ShutDown s = Inr s1 \<and> tc_state s1 = kDisconnecting \<and> tc_sent s1 = tc_sent s
      \<and> contents (tc_output s1) = contents (tc_output s) \<and> (tc_shut s1 \<longleftrightarrow> contents (tc_output s) = [])
    \<and> run_actions call as s1 = Inr s2 \<and> tc_state s2 = kDisconnecting \<and> (tc_shut s2 \<longleftrightarrow> contents (tc_output s2) = [])
    \<and> tc_sent s2 @ contents (tc_output s2) = tc_sent s @ contents (tc_output s)
    \<and> run_actions call (map (\<lambda>e. (e, Writable)) es) s1 = Inr s3
    \<and> tc_sent s3 = tc_sent s @ contents (tc_output s) \<and> contents (tc_output s3) = [] \<and> tc_shut s3"
proof -
  obtain s1 where s1: "ShutDown s = Inr s1" "tc_inv interest s1" "conn_frame s s1" "tc_graceful s1" "tc_sent s1 = tc_sent s"
      "tc_output s1 = tc_output s" "tc_state s1 = kDisconnecting"
    using ShutDown_Inr [OF assms(1,2)] by blast
  have f: "p_loop_tid s1 = p_loop_tid s" "tc_write_complete_callback s1 = None" using s1(3) assms(3) by (simp_all add: conn_frame_def)
  obtain s2 where s2: "run_actions call as s1 = Inr s2" "tc_graceful s2" "tc_state s2 = kDisconnecting"
      "tc_sent s2 @ contents (tc_output s2) = tc_sent s1 @ contents (tc_output s1)"
    using run_actions_Inr [of "as" interest s1 call] assms(4) f s1(2,4,7) by fastforce
  have "\<exists>s3. run_actions call (map (\<lambda>e. (e, Writable)) es) s1 = Inr s3
      \<and> tc_sent s3 = tc_sent s1 @ contents (tc_output s1) \<and> contents (tc_output s3) = [] \<and> tc_shut s3"
    by (rule drain_output [OF _ s1(2,7,4) f(2)]) (use assms(5,6) f(1) s1(6) in auto)
  with s1 s2 show ?thesis by (auto simp: tc_graceful_def)
qed

definition closing_conn :: "(unit, int \<rightharpoonup> epoll_event) tcp_connection" where
  "closing_conn = sample_conn\<lparr>
     p_chans := [7 \<mapsto> (conn_channel 5)\<lparr>ch_events := kReadEvent OR kWriteEvent, ch_index := kAdded\<rparr>],
     p_kernel := [5 \<mapsto> (kReadEvent OR kWriteEvent, 7)], tc_state := kDisconnecting,
     tc_output := \<lparr>buffer_mem = ''abc'', read_index = 0, write_index = 3\<rparr>\<rparr>"

text \<open>Three bytes are buffered when the connection is closed; a later \<open>send\<close> adds nothing.\<close>

theorem graceful_shutdown_witness:
  "\<exists>s1 s2 s3. ShutDown (closing_conn\<lparr>tc_state := kConnected\<rparr>) = Inr s1 \<and> \<not> tc_shut s1
     \<and> run_actions (\<lambda>_. Inr) [(sample_env, Send ''d''), (sample_env, Writable)] s1 = Inr s2 \<and> tc_sent s2 @ contents (tc_output s2) = ''abc''
     \<and> run_actions (\<lambda>_. Inr) (map (\<lambda>e. (e, Writable)) [sample_env, sample_env, sample_env]) s1 = Inr s3
     \<and> tc_sent s3 = ''abc'' \<and> tc_shut s3"
proof -
  let ?s = "closing_conn\<lparr>tc_state := kConnected\<rparr>"
  have c: "contents (tc_output ?s) = ''abc''" "tc_sent ?s = []" "tc_state ?s = kConnected"
      "p_loop_tid ?s = 1" "tc_write_complete_callback ?s = None"
    by (simp_all add: closing_conn_def sample_conn_def contents_def segment_def)
  have inv: "tc_inv (\<lambda>k. k) ?s"
    by (rule tc_invI [where ch = "(conn_channel 5)\<lparr>ch_events := kReadEvent OR kWriteEvent, ch_index := kAdded\<rparr>"])
      (auto simp: closing_conn_def sample_conn_def poller_inv_def conn_channel_def new_Channel_def buffer_inv_def
        contents_def segment_def is_reading_def is_writing_def channel_flags split: if_splits)
  have w: "\<exists>n > 0. env_write sample_env fd d = Wrote n" if "d \<noteq> []" for fd d
    using that by (cases d) (auto simp: sample_env_def)
  have env: "\<forall>(e, a) \<in> set [(sample_env, Send ''d''), (sample_env, Writable)]. env_ok (\<lambda>k. k) (p_loop_tid ?s) e"
      "\<forall>e \<in> set [sample_env, sample_env, sample_env]. env_ok (\<lambda>k. k) (p_loop_tid ?s) e \<and> (\<forall>fd d. d \<noteq> [] \<longrightarrow> (\<exists>n > 0. env_write e fd d = Wrote n))"
    using sample_env_ok c(4) w by simp_all
  show ?thesis using graceful_shutdown [OF inv c(3,5) env, of "\<lambda>_. Inr"] unfolding c by auto
qed

text \<open>
  A write-complete callback that sends more and asks to close, on a connection with data buffered.
\<close>

definition early_call :: "unit \<Rightarrow> (unit, int \<rightharpoonup> epoll_event, unit) conn_op" where
  "early_call cb s = bindE (send sample_env (\<lambda>_. Inr) ''xyz'' s) ShutDown"

definition busy_conn :: "(unit, int \<rightharpoonup> epoll_event) tcp_connection" where
  "busy_conn = closing_conn\<lparr>tc_state := kConnected, tc_write_complete_callback := Some (),
     tc_output := \<lparr>buffer_mem = ''ab'', read_index = 0, write_index = 2\<rparr>\<rparr>"

text \<open>
  Remark. A write-complete callback that sends and then closes loses data: \<open>HandleWrite\<close> looks at
  the state after the callback, finds the connection closing, and shuts the write half although
  the callback's own data is still buffered.
\<close>

theorem shutdown_after_callback_too_early:
  "\<exists>s'. HandleWrite sample_env early_call busy_conn = Inr s' \<and> tc_shut s'
     \<and> tc_sent s' = ''abxy'' \<and> contents (tc_output s') = ''z''"
  by (simp add: HandleWrite_def tc_deref_def busy_conn_def closing_conn_def sample_conn_def sample_env_def
      conn_channel_def new_Channel_def is_writing_def channel_flags ReadableBytes_def Peek_def retrieve_def assertE_def
      DisableWriting_def EnableWriting_def on_channel_def clear_writing_def set_writing_def LoopUpdateChannel_def
      UpdateChannel_def AssertInLoopThread_def index_defs is_none_event_def Update_def Let_def call_opt_def
      early_call_def send_def send_rest_def Append_def MakeSpace_def WriteableBytes_def FreeSize_def vec_resize_def
      overwrite_def size_sub_def contents_def segment_def ShutDown_def ShutdownWrite_def)

text \<open>
  Remark. \<open>send\<close> is not safe off the loop's thread: when the kernel takes only part of the data
  there, the rest is buffered and the channel is marked as watching for output, but the poller
  is not told, so the kernel never reports the socket writable and the rest is not sent.
\<close>

theorem send_off_thread_stalls:
  assumes "tc_inv interest s" and "tc_state s = kConnected" and "contents (tc_output s) = []"
    and "env_tid e \<noteq> p_loop_tid s" and "\<forall>fd. env_write e fd d = Wrote n" and "n < length d"
    and "tc_write_complete_callback s = None"
  shows "\<exists>s' ch. send e call d s = Inr s' \<and> p_kernel s' = p_kernel s \<and> tc_sent s' = tc_sent s @ take n d
    \<and> contents (tc_output s') = drop n d \<and> p_chans s' (tc_chan s') = Some ch \<and> is_writing ch
    \<and> interest (p_kernel s') (ch_fd ch) = Some (ch_events ch AND NOT kWriteEvent, tc_chan s')"
proof -
  obtain ch where ch: "p_chans s (tc_chan s) = Some ch" "ch_index ch = kAdded" "\<not> is_writing ch"
    using tc_inv_chan [OF assms(1)] assms(2,3) by auto
  note inv = tc_invD [OF assms(1)]
  have rb: "ReadableBytes (tc_output s) = 0" using ReadableBytes_contents [OF inv(3)] assms(3) by simp
  have rest: "drop n d \<noteq> []" using assms(6) by simp
  have reg: "interest (p_kernel s) (ch_fd ch) = Some (ch_events ch, tc_chan s)"
    by (rule poller_inv_added [OF inv(1) ch(1,2)])
  have same: "ch_events (set_writing ch) AND NOT kWriteEvent = ch_events ch"
  proof -
    have "ch_events ch AND kWriteEvent = 0" using ch(3) by (simp add: is_writing_def)
    then have "ch_events ch AND NOT kWriteEvent = ch_events ch"
      by (metis bit.conj_disj_distrib bit.conj_one_right bit.disj_cancel_right or.left_neutral)
    then show ?thesis by (simp add: set_writing_def bit.conj_disj_distrib2)
  qed
  define s' where "s' = s\<lparr>tc_sent := tc_sent s @ take n d, tc_output := Append (drop n d) (tc_output s),
      p_chans := (p_chans s)(tc_chan s \<mapsto> set_writing ch)\<rparr>"
  have "send e call d s = Inr s'"
    using assms(2,4-7) ch rb rest
    by (simp add: send_def tc_deref_def Let_def send_rest_def EnableWriting_def on_channel_def LoopUpdateChannel_def s'_def call_opt_def)
  then show ?thesis using reg same assms(3) inv(3)
    by (intro exI [of _ s'] exI [of _ "set_writing ch"]) (simp add: s'_def Append_contents)
qed

theorem send_off_thread_stalls_witness:
  "\<exists>s'. send (sample_env\<lparr>env_tid := 2\<rparr>) (\<lambda>_. Inr) ''hello'' sample_conn = Inr s' \<and> contents (tc_output s') = ''llo''
     \<and> p_kernel s' = p_kernel sample_conn"
proof -
  have "tc_state sample_conn = kConnected" "contents (tc_output sample_conn) = []" "p_loop_tid sample_conn = 1"
      "tc_write_complete_callback sample_conn = None"
    by (simp_all add: sample_conn_def contents_def segment_def)
  with send_off_thread_stalls [OF sample_conn_inv, of "sample_env\<lparr>env_tid := 2\<rparr>" "''hello''" 2 "\<lambda>_. Inr"]
  show ?thesis by (auto simp: sample_env_def)
qed

end
