(* ===== verification/EchoServer.thy ===== *)
theory EchoServer
  imports TcpConnection
begin

text \<open>
  The callbacks of the echo server (\<open>examples/echo_server/EchoServer.cpp\<close>) on one connection: an
  instance of the contract for user code, so that the connection's handlers are safe under them,
  and the end-to-end behaviour of a read.
\<close>

section \<open>Callbacks\<close>

text \<open>\<open>RemoveConnection\<close> is the server's close callback, which only queues a task on its own loop.\<close>

datatype echo_callback = OnConnectionCallback | OnMessage | RemoveConnection

text \<open>
  \<open>OnMessage\<close> empties the input buffer and sends what it held; the server's connections have no
  write-complete callback, so \<open>send\<close> runs none.
\<close>

fun echo_call :: "'k tc_env \<Rightarrow> echo_callback \<Rightarrow> (echo_callback, 'k, 'z) conn_op" where
  "echo_call e OnConnectionCallback s = Inr s"
| "echo_call e OnMessage s =
     bindE (RetrieveAllAsString (tc_input s)) (\<lambda>(msg, buf). send e (\<lambda>_. Inr) msg (s\<lparr>tc_input := buf\<rparr>))"
| "echo_call e RemoveConnection s = Inr s"

lemma tc_inv_input: "tc_inv interest s \<Longrightarrow> buffer_inv b \<Longrightarrow> tc_inv interest (s\<lparr>tc_input := b\<rparr>)"
  by (auto simp: tc_inv_def)

lemma OnMessage_Inr:
  assumes "epoll_ctl_spec (env_ctl e) interest" "tc_inv interest s" "env_tid e = p_loop_tid s"
    "tc_write_complete_callback s = None"
  shows "\<exists>s' fd. echo_call e OnMessage s = Inr s' \<and> tc_inv interest s' \<and> user_frame s s'
    \<and> contents (tc_input s') = [] \<and> tc_state s' = tc_state s
    \<and> (tc_state s = kConnected \<and> env_write e fd (contents (tc_input s)) \<noteq> WriteErr EPIPE \<longrightarrow>
         tc_sent s' @ contents (tc_output s') = tc_sent s @ contents (tc_output s) @ contents (tc_input s))"
proof -
  obtain b where b: "RetrieveAllAsString (tc_input s) = Inr (contents (tc_input s), b)" "buffer_inv b" "contents b = []"
    using RetrieveAllAsString_Inr [OF tc_invD(2) [OF assms(2)]] by blast
  define s1 where "s1 = s\<lparr>tc_input := b\<rparr>"
  have s1: "tc_inv interest s1" "env_tid e = p_loop_tid s1" "tc_write_complete_callback s1 = None"
    using tc_inv_input [OF assms(2) b(2)] assms(3,4) by (simp_all add: s1_def)
  have run: "echo_call e OnMessage s = send e (\<lambda>_. Inr) (contents (tc_input s)) s1"
    using b(1) by (simp add: s1_def)
  show ?thesis
  proof (cases "tc_state s = kConnected")
    case True
    then have up: "tc_state s1 = kConnected" by (simp add: s1_def)
    obtain s' fd where s': "send e (\<lambda>_. Inr) (contents (tc_input s)) s1 = Inr s'" "tc_inv interest s'" "conn_frame s1 s'"
        "tc_sent s' @ contents (tc_output s') = tc_sent s1 @ contents (tc_output s1)
          @ (if contents (tc_output s1) = [] \<and> env_write e fd (contents (tc_input s)) = WriteErr EPIPE then [] else contents (tc_input s))"
        "tc_state s' = tc_state s1"
      using send_Inr [OF assms(1) s1(1,2) up s1(3)] by blast
    then have "user_frame s s'" by (simp add: conn_frame_def user_frame_def s1_def)
    then show ?thesis using run s' b(3) True by (intro exI [of _ s'] exI [of _ fd]) (simp add: conn_frame_def s1_def)
  next
    case False
    then have "echo_call e OnMessage s = Inr s1" using run by (simp add: send_def s1_def)
    with s1(1) b(3) False show ?thesis by (auto simp: s1_def user_frame_def)
  qed
qed

interpretation echo: connection_user interest e "echo_call e"
proof unfold_locales
  fix s :: "(echo_callback, 'a, 'b) tcp_connection_scheme" and cb
  assume "epoll_ctl_spec (env_ctl e) interest" "tc_inv interest s" "env_tid e = p_loop_tid s"
    "tc_write_complete_callback s = None"
  then show "\<exists>s'. echo_call e cb s = Inr s' \<and> tc_inv interest s' \<and> user_frame s s'"
    using OnMessage_Inr by (cases cb) fastforce+
qed

text \<open>A read of bytes that fit, under any callbacks of which \<open>OnMessage\<close> is the echo server's.\<close>

lemma HandleRead_echoes:
  assumes "epoll_ctl_spec (env_ctl e) interest" "env_tid e = p_loop_tid s" "\<forall>fd d. env_write e fd d \<noteq> WriteErr EPIPE"
    and "tc_inv interest s" "tc_state s = kConnected" and "call OnMessage = echo_call e OnMessage"
    and "tc_message_callback s = Some OnMessage" and "tc_write_complete_callback s = None"
    and "length (buffer_mem (tc_input s)) < 2 ^ 63"
    and "\<forall>fd. env_readv e fd [WriteableBytes (tc_input s), kExtraBuf] = ReadData d"
    and "d \<noteq> []" and "length d \<le> WriteableBytes (tc_input s)"
  shows "\<exists>s'. HandleRead e call s = Inr s' \<and> tc_inv interest s' \<and> tc_state s' = kConnected \<and> contents (tc_input s') = []
    \<and> tc_sent s' @ contents (tc_output s') = tc_sent s @ contents (tc_output s) @ contents (tc_input s) @ d"
proof -
  obtain ch where ch: "p_chans s (tc_chan s) = Some ch" using tc_inv_chan [OF assms(4)] by auto
  note inv = tc_invD [OF assms(4)]
  have small: "length d < 2 ^ 63"
    using assms(9,12) WriteableBytes_eq [OF inv(2)] by simp
  obtain b where b: "ReadFd (env_readv e) (ch_fd ch) 0 (tc_input s) = (int (length d), 0, b)" "buffer_inv b"
      "contents b = contents (tc_input s) @ d"
    using ReadFd_cases [where readv = "env_readv e" and fd = "ch_fd ch" and se = 0, OF inv(2) assms(9)] assms(10,12) small
    by auto
  define s1 where "s1 = s\<lparr>tc_input := b\<rparr>"
  have s1: "tc_inv interest s1" "env_tid e = p_loop_tid s1" "tc_write_complete_callback s1 = None"
    using tc_inv_input [OF assms(4) b(2)] assms(2,8) by (simp_all add: s1_def)
  have "HandleRead e call s = echo_call e OnMessage s1"
    using ch b(1) assms(6,7,11) by (simp add: HandleRead_def tc_deref_def s1_def call_must_def)
  moreover obtain s' where "echo_call e OnMessage s1 = Inr s'" "tc_inv interest s'" "contents (tc_input s') = []" "tc_state s' = tc_state s1"
      "tc_sent s' @ contents (tc_output s') = tc_sent s1 @ contents (tc_output s1) @ contents (tc_input s1)"
    using OnMessage_Inr [OF assms(1) s1] assms(3,5) by (auto simp: s1_def)
  ultimately show ?thesis using b(3) assms(5) by (auto simp: s1_def)
qed

section \<open>A sample connection\<close>

definition echo_conn :: "(echo_callback, int \<rightharpoonup> epoll_event) tcp_connection" where
  "echo_conn = \<lparr>p_loop_tid = 1, p_chans = [7 \<mapsto> (conn_channel 5)\<lparr>ch_events := kReadEvent, ch_index := kAdded\<rparr>],
     p_channels = [5 \<mapsto> 7], p_kernel = [5 \<mapsto> (kReadEvent, 7)], p_events_size = 16, p_events_cap = 16,
     tc_self = 9, tc_name = ''c'', tc_state = kConnected, tc_chan = 7, tc_sent = [], tc_shut = False,
     tc_input = \<lparr>buffer_mem = ''xxxx'', read_index = 0, write_index = 0\<rparr>,
     tc_output = \<lparr>buffer_mem = [], read_index = 0, write_index = 0\<rparr>,
     tc_connection_callback = Some OnConnectionCallback, tc_close_callback = Some RemoveConnection,
     tc_write_complete_callback = None, tc_message_callback = Some OnMessage, tc_context = None\<rparr>"

lemma echo_conn_inv: "tc_inv (\<lambda>k. k) echo_conn"
  by (rule tc_invI [where ch = "(conn_channel 5)\<lparr>ch_events := kReadEvent, ch_index := kAdded\<rparr>"])
    (auto simp: echo_conn_def poller_inv_def conn_channel_def new_Channel_def buffer_inv_def contents_def
      segment_def is_reading_def is_writing_def read_and_write kReadEvent_reads split: if_splits)

section \<open>Properties\<close>

text \<open>
  Property C18. The life of a connection under the echo server's callbacks is safe: coming up, a
  readable event (data, end of stream or an error), a hang-up and the final teardown all return,
  keep the invariant, and the teardown leaves the descriptor unregistered, so that the channel
  can be destroyed.
\<close>

theorem echo_lifecycle:
  assumes "epoll_ctl_spec (env_ctl e) interest" "write_spec (env_write e)" "tc_inv interest s" "env_tid e = p_loop_tid s"
    and "tc_connection_callback s = Some OnConnectionCallback" "tc_message_callback s = Some OnMessage"
    and "tc_write_complete_callback s = None" and "length (buffer_mem (tc_input s)) < 2 ^ 63"
    and "\<forall>fd ls. length (readv_bytes (env_readv e fd ls)) < 2 ^ 63"
  shows "(tc_state s = kConnecting \<and> \<not> tc_shut s \<and> contents (tc_output s) = [] \<longrightarrow>
      (\<exists>s'. ConnectEstablished e (echo_call e) s = Inr s' \<and> tc_inv interest s'))
    \<and> (tc_state s = kConnected \<or> tc_state s = kDisconnecting \<longrightarrow>
      (\<exists>s'. HandleRead e (echo_call e) s = Inr s' \<and> tc_inv interest s')
      \<and> (\<exists>s'. HandleClose e (echo_call e) s = Inr s' \<and> tc_inv interest s' \<and> tc_state s' = kDisconnected))
    \<and> (\<exists>s' ch. ConnectDestroyed e (echo_call e) s = Inr s' \<and> tc_inv interest s' \<and> p_chans s' (tc_chan s) = Some ch
      \<and> interest (p_kernel s') (ch_fd ch) = None \<and> poller_inv interest (destroy_channel (tc_chan s) s'))"
proof (intro conjI impI)
  have msg: "tc_message_callback s \<noteq> None" "tc_connection_callback s \<noteq> None" using assms(5,6) by simp_all
  show "\<exists>s'. ConnectEstablished e (echo_call e) s = Inr s' \<and> tc_inv interest s'"
    if "tc_state s = kConnecting \<and> \<not> tc_shut s \<and> contents (tc_output s) = []"
    using echo.ConnectEstablished_ok [OF assms(1-4) _ _ _ assms(7)] that by blast
  show "\<exists>s'. HandleRead e (echo_call e) s = Inr s' \<and> tc_inv interest s'"
    if "tc_state s = kConnected \<or> tc_state s = kDisconnecting"
    using echo.HandleRead_ok [OF assms(1-4) that msg(1) assms(8) _ assms(7)] assms(9) by blast
  show "\<exists>s'. HandleClose e (echo_call e) s = Inr s' \<and> tc_inv interest s' \<and> tc_state s' = kDisconnected"
    if "tc_state s = kConnected \<or> tc_state s = kDisconnecting"
    using echo.HandleClose_ok [OF assms(1-4) that assms(7)] by blast
  show "\<exists>s' ch. ConnectDestroyed e (echo_call e) s = Inr s' \<and> tc_inv interest s' \<and> p_chans s' (tc_chan s) = Some ch
      \<and> interest (p_kernel s') (ch_fd ch) = None \<and> poller_inv interest (destroy_channel (tc_chan s) s')"
    using echo.ConnectDestroyed_ok [OF assms(1-4) msg(2) assms(7)] by blast
qed

theorem echo_lifecycle_witness:
  "\<exists>s'. HandleClose sample_env (echo_call sample_env) echo_conn = Inr s' \<and> tc_state s' = kDisconnected"
proof -
  have "epoll_ctl_spec (env_ctl sample_env) (\<lambda>k. k)" "write_spec (env_write sample_env)" "env_tid sample_env = p_loop_tid echo_conn"
    using sample_env_ok by (simp_all add: env_ok_def echo_conn_def)
  from echo_lifecycle [OF this(1,2) echo_conn_inv this(3)]
  show ?thesis by (auto simp: echo_conn_def sample_env_def)
qed

text \<open>
  Property C19. The echo server echoes: a readable event that delivers bytes which fit the input
  buffer's tail, on a socket whose writes do not fail with \<open>EPIPE\<close>, adds exactly the bytes waiting in
  the input buffer followed by those delivered to the connection's output stream, and leaves the input
  buffer empty. Of a delivery that overruns the tail, bytes are lost: \<open>ReadFd_overrun_loses_bytes\<close>.
\<close>

theorem echo_returns_input:
  assumes "env_ok interest (p_loop_tid s) e" "tc_inv interest s" "tc_state s = kConnected"
    and "tc_message_callback s = Some OnMessage" and "tc_write_complete_callback s = None"
    and "length (buffer_mem (tc_input s)) < 2 ^ 63"
    and "\<forall>fd. env_readv e fd [WriteableBytes (tc_input s), kExtraBuf] = ReadData d"
    and "d \<noteq> []" and "length d \<le> WriteableBytes (tc_input s)"
  shows "\<exists>s'. HandleRead e (echo_call e) s = Inr s' \<and> tc_inv interest s' \<and> contents (tc_input s') = []
    \<and> tc_sent s' @ contents (tc_output s') = tc_sent s @ contents (tc_output s) @ contents (tc_input s) @ d"
proof -
  have e: "epoll_ctl_spec (env_ctl e) interest" "env_tid e = p_loop_tid s" "\<forall>fd d. env_write e fd d \<noteq> WriteErr EPIPE"
    using assms(1) by (simp_all add: env_ok_def)
  from HandleRead_echoes [where call = "echo_call e", OF e assms(2,3) refl assms(4-9)] show ?thesis by blast
qed

theorem echo_returns_input_witness:
  "\<exists>s'. HandleRead sample_env (echo_call sample_env) echo_conn = Inr s' \<and> tc_sent s' @ contents (tc_output s') = ''hi''"
proof -
  have "env_ok (\<lambda>k. k) (p_loop_tid echo_conn) sample_env" using sample_env_ok by (simp add: echo_conn_def)
  from echo_returns_input [OF this echo_conn_inv, of "''hi''"]
  show ?thesis by (auto simp: echo_conn_def sample_env_def WriteableBytes_def contents_def segment_def)
qed

end
