(* ===== verification/PacketBufferPool.thy ===== *)
theory PacketBufferPool
  imports Transitions
begin

text \<open>
  UDP payload buffers and their pool (\<open>include/mini_muduo/PacketBuffer.h\<close>,
  \<open>include/mini_muduo/PacketBufferPool.h\<close>, \<open>src/PacketBufferPool.cc\<close>). Buffers are objects in a
  heap; a buffer out of the pool is owned by \<open>shared_ptr\<close>s, whose number is counted, and goes back
  to the free list when the last of them is dropped.
\<close>

section \<open>PacketBuffer\<close>

type_synonym u8 = "8 word"

record packet_buffer =
  pb_data :: "u8 list"
  pb_capacity :: nat
  pb_size :: nat

definition kDefaultCapacity :: nat where
  "kDefaultCapacity = 1500"

text \<open>\<open>mem\<close> is what the uninitialised memory of the new array holds.\<close>

definition new_PacketBuffer :: "(nat \<Rightarrow> u8) \<Rightarrow> nat \<Rightarrow> packet_buffer" where
  "new_PacketBuffer mem capacity = \<lparr>pb_data = map mem [0..<capacity], pb_capacity = capacity, pb_size = 0\<rparr>"

definition set_size :: "nat \<Rightarrow> packet_buffer \<Rightarrow> packet_buffer res" where
  "set_size n b = bindE (assertE (n \<le> pb_capacity b)) (\<lambda>_. Inr (b\<lparr>pb_size := n\<rparr>))"

definition pb_reset :: "packet_buffer \<Rightarrow> packet_buffer" where
  "pb_reset b = b\<lparr>pb_size := 0\<rparr>"

section \<open>PacketBufferPool\<close>

text \<open>\<open>free_buffers\<close> is a vector used at its back; \<open>pool_refs\<close> counts the shared pointers.\<close>

record pool =
  pool_buffer_size :: nat
  pool_free :: "nat list"
  pool_heap :: "nat \<rightharpoonup> packet_buffer"
  pool_refs :: "nat \<Rightarrow> nat"

definition kDefaultInitialBufferCount :: nat where
  "kDefaultInitialBufferCount = 1024"

text \<open>The addresses \<open>as\<close> are those \<open>new\<close> returns, one for each initial buffer.\<close>

definition new_PacketBufferPool :: "(nat \<Rightarrow> u8) \<Rightarrow> nat \<Rightarrow> nat list \<Rightarrow> pool" where
  "new_PacketBufferPool mem buffer_size as =
     \<lparr>pool_buffer_size = buffer_size, pool_free = as,
      pool_heap = (\<lambda>a. if a \<in> set as then Some (new_PacketBuffer mem buffer_size) else None),
      pool_refs = (\<lambda>_. 0)\<rparr>"

text \<open>\<open>Acquire\<close>: \<open>a\<close> is the address of a new buffer, used when the free list is empty.\<close>

definition Acquire :: "(nat \<Rightarrow> u8) \<Rightarrow> nat \<Rightarrow> pool \<Rightarrow> (nat \<times> pool) res" where
  "Acquire mem a p =
     (let (b, p1) = (if pool_free p \<noteq> []
                     then (last (pool_free p), p\<lparr>pool_free := butlast (pool_free p)\<rparr>)
                     else (a, p\<lparr>pool_heap := (pool_heap p)(a \<mapsto> new_PacketBuffer mem (pool_buffer_size p))\<rparr>))
      in case pool_heap p1 b of
           None \<Rightarrow> Inl UseAfterFree
         | Some pb \<Rightarrow> Inr (b, p1\<lparr>pool_heap := (pool_heap p1)(b \<mapsto> pb_reset pb), pool_refs := (pool_refs p1)(b := 1)\<rparr>))"

text \<open>Copying a shared pointer, and dropping one; the last one runs the deleter.\<close>

definition share :: "nat \<Rightarrow> pool \<Rightarrow> pool" where
  "share b p = p\<lparr>pool_refs := (pool_refs p)(b := pool_refs p b + 1)\<rparr>"

definition release :: "nat \<Rightarrow> pool \<Rightarrow> pool res" where
  "release b p =
     (let p1 = p\<lparr>pool_refs := (pool_refs p)(b := pool_refs p b - 1)\<rparr>
      in if pool_refs p1 b = 0
         then (case pool_heap p1 b of
                 None \<Rightarrow> Inl UseAfterFree
               | Some pb \<Rightarrow> Inr (p1\<lparr>pool_heap := (pool_heap p1)(b \<mapsto> pb_reset pb), pool_free := pool_free p1 @ [b]\<rparr>))
         else Inr p1)"

text \<open>A change of a buffer by the owner of a reference.\<close>

definition on_buffer :: "nat \<Rightarrow> (packet_buffer \<Rightarrow> packet_buffer res) \<Rightarrow> pool \<Rightarrow> pool res" where
  "on_buffer b f p =
     (case pool_heap p b of None \<Rightarrow> Inl UseAfterFree
      | Some pb \<Rightarrow> bindE (f pb) (\<lambda>pb'. Inr (p\<lparr>pool_heap := (pool_heap p)(b \<mapsto> pb')\<rparr>)))"

section \<open>Invariant\<close>

definition pb_inv :: "nat \<Rightarrow> packet_buffer \<Rightarrow> bool" where
  "pb_inv n b \<longleftrightarrow> pb_capacity b = n \<and> length (pb_data b) = n \<and> pb_size b \<le> n"

text \<open>
  Every buffer is either free, once, or held; the buffers have the pool's capacity.
\<close>

definition pool_inv :: "pool \<Rightarrow> bool" where
  "pool_inv p \<longleftrightarrow> distinct (pool_free p) \<and> (\<forall>a \<in> set (pool_free p). pool_refs p a = 0)
     \<and> dom (pool_heap p) = set (pool_free p) \<union> {a. 0 < pool_refs p a}
     \<and> (\<forall>a b. pool_heap p a = Some b \<longrightarrow> pb_inv (pool_buffer_size p) b)"

lemma pool_invD:
  assumes "pool_inv p"
  shows "distinct (pool_free p)" "\<And>a. a \<in> set (pool_free p) \<Longrightarrow> pool_refs p a = 0"
    "dom (pool_heap p) = set (pool_free p) \<union> {a. 0 < pool_refs p a}"
    "\<And>a b. pool_heap p a = Some b \<Longrightarrow> pb_inv (pool_buffer_size p) b"
  using assms by (simp_all add: pool_inv_def)

lemma pool_inv_held: "pool_inv p \<Longrightarrow> 0 < pool_refs p a \<Longrightarrow> \<exists>b. pool_heap p a = Some b \<and> pb_inv (pool_buffer_size p) b"
  using pool_invD(3,4) [of p] by (fastforce simp: set_eq_iff dom_def)

lemma pool_inv_free: "pool_inv p \<Longrightarrow> a \<in> set (pool_free p) \<Longrightarrow> \<exists>b. pool_heap p a = Some b"
  using pool_invD(3) [of p] by (auto simp: set_eq_iff dom_def)

lemma pb_inv_reset [simp]: "pb_inv n (pb_reset b) \<longleftrightarrow> pb_capacity b = n \<and> length (pb_data b) = n"
  by (auto simp: pb_inv_def pb_reset_def)

lemma pb_inv_new: "pb_inv n (new_PacketBuffer mem n)"
  by (simp add: pb_inv_def new_PacketBuffer_def)

lemma pool_inv_new: "distinct as \<Longrightarrow> pool_inv (new_PacketBufferPool mem n as)"
  by (auto simp: pool_inv_def new_PacketBufferPool_def pb_inv_new dom_def)

text \<open>What an operation on other buffers leaves of the held ones.\<close>

definition pool_frame :: "nat set \<Rightarrow> pool \<Rightarrow> pool \<Rightarrow> bool" where
  "pool_frame A p p' \<longleftrightarrow> pool_buffer_size p' = pool_buffer_size p
     \<and> (\<forall>b. b \<notin> A \<longrightarrow> pool_refs p' b = pool_refs p b \<and> pool_heap p' b = pool_heap p b)"

lemma Acquire_Inr:
  assumes inv: "pool_inv p" and a: "pool_heap p a = None"
  shows "\<exists>b p'. Acquire mem a p = Inr (b, p') \<and> pool_inv p' \<and> pool_frame {b} p p'
    \<and> pool_refs p b = 0 \<and> pool_refs p' b = 1
    \<and> b = (if pool_free p = [] then a else last (pool_free p))
    \<and> pool_free p' = butlast (pool_free p)"
proof (cases "pool_free p = []")
  case True
  define p' where "p' = p\<lparr>pool_heap := (pool_heap p)(a \<mapsto> pb_reset (new_PacketBuffer mem (pool_buffer_size p))),
      pool_refs := (pool_refs p)(a := 1)\<rparr>"
  have "pool_refs p a = 0" using pool_inv_held [OF inv, of a] a by auto
  moreover have "Acquire mem a p = Inr (a, p')" using True by (simp add: Acquire_def p'_def)
  moreover have "pool_inv p'"
    using pool_invD(3,4) [OF inv] True by (auto simp: pool_inv_def p'_def new_PacketBuffer_def split: if_splits)
  ultimately show ?thesis using True by (auto simp: pool_frame_def p'_def)
next
  case False
  define b where "b = last (pool_free p)"
  have b: "b \<in> set (pool_free p)" using False by (simp add: b_def)
  obtain pb where pb: "pool_heap p b = Some pb" using pool_inv_free [OF inv b] by blast
  define p' where "p' = p\<lparr>pool_free := butlast (pool_free p), pool_heap := (pool_heap p)(b \<mapsto> pb_reset pb),
      pool_refs := (pool_refs p)(b := 1)\<rparr>"
  have split: "pool_free p = butlast (pool_free p) @ [b]" using False by (simp add: b_def)
  have d: "distinct (butlast (pool_free p))" "b \<notin> set (butlast (pool_free p))"
      "set (pool_free p) = insert b (set (butlast (pool_free p)))"
    using pool_invD(1) [OF inv] split by (metis distinct_butlast, metis distinct_append disjoint_iff list.set_intros(1),
        metis list.simps(15) rotate1.simps(2) set_rotate1)
  have "Acquire mem a p = Inr (b, p')" using False pb by (simp add: Acquire_def b_def p'_def)
  moreover have "pool_inv p'"
    unfolding pool_inv_def
  proof (intro conjI allI impI ballI)
    show "dom (pool_heap p') = set (pool_free p') \<union> {a. 0 < pool_refs p' a}"
      using pool_invD(3) [OF inv] d(3) by (auto simp: p'_def)
    show "pool_refs p' c = 0" if "c \<in> set (pool_free p')" for c
      using that pool_invD(2) [OF inv, of c] d(2,3) by (auto simp: p'_def)
    show "pb_inv (pool_buffer_size p') x" if "pool_heap p' c = Some x" for c x
      using that pool_invD(4) [OF inv] pb by (auto simp: p'_def pb_inv_def pb_reset_def split: if_splits)
  qed (use d(1) in \<open>simp add: p'_def\<close>)
  ultimately show ?thesis using False pool_invD(2) [OF inv b] by (auto simp: pool_frame_def p'_def b_def)
qed

lemma share_inv: "pool_inv p \<Longrightarrow> 0 < pool_refs p b \<Longrightarrow> pool_inv (share b p)"
  by (auto simp: pool_inv_def share_def)

lemma release_Inr:
  assumes inv: "pool_inv p" and b: "0 < pool_refs p b"
  shows "\<exists>p'. release b p = Inr p' \<and> pool_inv p' \<and> pool_frame {b} p p' \<and> pool_refs p' b = pool_refs p b - 1
    \<and> (1 < pool_refs p b \<longrightarrow> pool_heap p' b = pool_heap p b)
    \<and> pool_free p' = pool_free p @ (if pool_refs p b = 1 then [b] else [])"
proof (cases "pool_refs p b = 1")
  case False
  then show ?thesis using b inv by (auto simp: release_def pool_inv_def pool_frame_def Let_def)
next
  case True
  obtain pb where pb: "pool_heap p b = Some pb" "pb_inv (pool_buffer_size p) pb" using pool_inv_held [OF inv b] by blast
  define p' where "p' = p\<lparr>pool_refs := (pool_refs p)(b := 0), pool_heap := (pool_heap p)(b \<mapsto> pb_reset pb),
      pool_free := pool_free p @ [b]\<rparr>"
  have new: "b \<notin> set (pool_free p)" using pool_invD(2) [OF inv, of b] b by auto
  have "release b p = Inr p'" using True pb(1) by (simp add: release_def p'_def Let_def)
  moreover have "pool_inv p'"
    unfolding pool_inv_def
  proof (intro conjI allI impI ballI)
    show "dom (pool_heap p') = set (pool_free p') \<union> {a. 0 < pool_refs p' a}"
      using pool_invD(3) [OF inv] by (auto simp: p'_def)
    show "pool_refs p' c = 0" if "c \<in> set (pool_free p')" for c
      using that pool_invD(2) [OF inv, of c] by (auto simp: p'_def)
    show "pb_inv (pool_buffer_size p') x" if "pool_heap p' c = Some x" for c x
      using that pool_invD(4) [OF inv] pb(2) by (auto simp: p'_def pb_inv_def pb_reset_def split: if_splits)
  qed (use new pool_invD(1) [OF inv] in \<open>simp add: p'_def\<close>)
  ultimately show ?thesis using True by (auto simp: pool_frame_def p'_def)
qed

section \<open>Holders\<close>

text \<open>
  Shared storage, as its users rely on it: while a holder keeps its item, what others do leaves the
  item's content alone.
\<close>

locale shared_storage = transition_system step inv
  for step :: "'s \<Rightarrow> 's \<Rightarrow> bool" and inv +
  fixes held :: "'s \<Rightarrow> 'b \<Rightarrow> bool" and content :: "'s \<Rightarrow> 'b \<Rightarrow> 'c"
  assumes stable: "inv s \<Longrightarrow> step s s' \<Longrightarrow> held s b \<Longrightarrow> held s' b \<Longrightarrow> content s' b = content s b"
begin

lemma content_stable:
  "(\<lambda>s s'. step s s' \<and> held s b \<and> held s' b)\<^sup>*\<^sup>* s s' \<Longrightarrow> inv s \<Longrightarrow> inv s' \<and> content s' b = content s b"
  by (induction rule: rtranclp_induct) (auto intro: step_inv simp: stable)

end

text \<open>Steps of the pool's users: acquire, copy and drop references, in any order and from any thread.\<close>

inductive pool_step :: "(nat \<Rightarrow> u8) \<Rightarrow> pool \<Rightarrow> pool \<Rightarrow> bool" for mem where
  step_acquire: "pool_heap p a = None \<Longrightarrow> Acquire mem a p = Inr (b, p') \<Longrightarrow> pool_step mem p p'"
| step_share: "0 < pool_refs p b \<Longrightarrow> pool_step mem p (share b p)"
| step_release: "0 < pool_refs p b \<Longrightarrow> release b p = Inr p' \<Longrightarrow> pool_step mem p p'"

lemma pool_step_ok:
  assumes "pool_inv p" and "pool_step mem p p'"
  shows "pool_inv p' \<and> (\<forall>b. 0 < pool_refs p b \<and> 0 < pool_refs p' b \<longrightarrow> pool_heap p' b = pool_heap p b)"
  using assms(2)
proof cases
  case (step_acquire a c)
  then obtain q where q: "Acquire mem a p = Inr (c, q)" "pool_inv q" "pool_frame {c} p q" "pool_refs p c = 0"
    using Acquire_Inr [OF assms(1) step_acquire(1), of mem] by auto
  have "q = p'" using step_acquire(2) q(1) by simp
  have "pool_heap p' b = pool_heap p b" if "0 < pool_refs p b" for b
    using that q(3,4) \<open>q = p'\<close> by (cases "b = c") (simp_all add: pool_frame_def)
  with q(2) \<open>q = p'\<close> show ?thesis by simp
next
  case (step_share b)
  then show ?thesis using share_inv [OF assms(1)] by (simp add: share_def)
next
  case (step_release c)
  then obtain q where q: "release c p = Inr q" "pool_inv q" "pool_frame {c} p q" "pool_refs q c = pool_refs p c - 1"
      "1 < pool_refs p c \<longrightarrow> pool_heap q c = pool_heap p c"
    using release_Inr [OF assms(1) step_release(1)] by auto
  have "q = p'" using step_release(2) q(1) by simp
  have "pool_heap p' b = pool_heap p b" if "0 < pool_refs p' b" for b
    using that q(3-5) \<open>q = p'\<close> by (cases "b = c") (simp_all add: pool_frame_def)
  with q(2) \<open>q = p'\<close> show ?thesis by simp
qed

interpretation pools: shared_storage "pool_step mem" pool_inv "\<lambda>p b. 0 < pool_refs p b" pool_heap
  by unfold_locales (use pool_step_ok in blast)+

text \<open>
  Besides, the holder of a buffer fills it: it stores bytes through \<open>writable_data()\<close> and sets the size.
\<close>

definition fill :: "u8 list \<Rightarrow> nat \<Rightarrow> packet_buffer \<Rightarrow> packet_buffer res" where
  "fill bytes n b =
     (if length bytes \<le> pb_capacity b then set_size n (b\<lparr>pb_data := overwrite 0 (pb_data b) bytes\<rparr>) else Inl OutOfRange)"

inductive pool_use :: "(nat \<Rightarrow> u8) \<Rightarrow> pool \<Rightarrow> pool \<Rightarrow> bool" for mem where
  use_step: "pool_step mem p p' \<Longrightarrow> pool_use mem p p'"
| use_fill: "0 < pool_refs p b \<Longrightarrow> on_buffer b (fill bytes n) p = Inr p' \<Longrightarrow> pool_use mem p p'"

text \<open>A free buffer is empty.\<close>

definition free_empty :: "pool \<Rightarrow> bool" where
  "free_empty p \<longleftrightarrow> (\<forall>a \<in> set (pool_free p). \<exists>b. pool_heap p a = Some b \<and> pb_size b = 0)"

definition pool_good :: "pool \<Rightarrow> bool" where
  "pool_good p \<longleftrightarrow> pool_inv p \<and> free_empty p"

lemma fill_Inr:
  assumes "fill bytes n b = Inr b'" and "pb_inv k b"
  shows "pb_inv k b'"
proof -
  have "length bytes \<le> pb_capacity b" "n \<le> pb_capacity b" "b' = b\<lparr>pb_data := overwrite 0 (pb_data b) bytes, pb_size := n\<rparr>"
    using assms(1) by (auto simp: fill_def set_size_def bindE_assertE split: if_splits)
  then show ?thesis using assms(2) by (simp add: pb_inv_def)
qed

lemma pool_use_good:
  assumes good: "pool_good p" and step: "pool_use mem p p'"
  shows "pool_good p' \<and> pool_buffer_size p' = pool_buffer_size p"
  using step
proof cases
  case use_step
  have inv: "pool_inv p" and fe: "free_empty p" using good by (simp_all add: pool_good_def)
  have "pool_inv p'" using pool_step_ok [OF inv use_step] by blast
  moreover have "free_empty p' \<and> pool_buffer_size p' = pool_buffer_size p"
    using use_step
  proof cases
    case (step_acquire a c)
    then obtain q where q: "Acquire mem a p = Inr (c, q)" "pool_frame {c} p q" "pool_refs q c = 1" "pool_inv q" "pool_free q = butlast (pool_free p)"
      using Acquire_Inr [OF inv step_acquire(1), of mem] by auto
    have "q = p'" using step_acquire(2) q(1) by simp
    moreover have "x \<noteq> c" "x \<in> set (pool_free p)" if "x \<in> set (pool_free q)" for x
      using pool_invD(2) [OF q(4) that] q(3,5) that by (auto dest: in_set_butlastD)
    ultimately show ?thesis using fe q(2) unfolding free_empty_def pool_frame_def by (metis singletonD)
  next
    case (step_share b)
    then show ?thesis using fe by (simp add: free_empty_def share_def)
  next
    case (step_release c)
    have other: "x \<noteq> c" if "x \<in> set (pool_free p)" for x using pool_invD(2) [OF inv that] step_release(1) by auto
    show ?thesis using step_release(2) fe other
      by (auto simp: release_def free_empty_def pb_reset_def Let_def split: if_splits option.splits)
  qed
  ultimately show ?thesis by (simp add: pool_good_def)
next
  case (use_fill b bytes n)
  have inv: "pool_inv p" and fe: "free_empty p" using good by (simp_all add: pool_good_def)
  obtain pb pb' where pb: "pool_heap p b = Some pb" "fill bytes n pb = Inr pb'" "p' = p\<lparr>pool_heap := (pool_heap p)(b \<mapsto> pb')\<rparr>"
    using use_fill(2) by (auto simp: on_buffer_def bindE_Inr_iff split: option.splits)
  have "pb_inv (pool_buffer_size p) pb'" using fill_Inr [OF pb(2)] pool_invD(4) [OF inv pb(1)] by blast
  then have "pool_inv p'" using inv pb(1,3) unfolding pool_inv_def by (auto split: if_splits)
  moreover have "b \<notin> set (pool_free p)" using pool_invD(2) [OF inv, of b] use_fill(1) by auto
  then have "free_empty p'" using fe pb(3) by (auto simp: free_empty_def)
  ultimately show ?thesis using pb(3) by (simp add: pool_good_def)
qed

interpretation uses: transition_system "pool_use mem" pool_good
  by unfold_locales (use pool_use_good in blast)

lemma pool_good_new: "distinct as \<Longrightarrow> pool_good (new_PacketBufferPool mem n as)"
  using pool_inv_new [of as mem n] by (simp add: pool_good_def free_empty_def new_PacketBufferPool_def new_PacketBuffer_def)

section \<open>Properties\<close>

definition sample_pool :: pool where
  "sample_pool = new_PacketBufferPool (\<lambda>_. 0) 4 [10, 11]"

lemma sample_pool_inv: "pool_inv sample_pool"
  by (simp add: sample_pool_def pool_inv_new)

text \<open>
  Property C31. \<open>Acquire\<close> hands out an empty buffer nobody holds, whatever the holders did before: in
  every state that acquisitions, copies and drops of references and writes of payloads and sizes
  lead to, every free buffer is empty, \<open>Acquire\<close> succeeds, the buffer it returns was held by no one
  and has size zero, every held buffer is left as it was, and a new buffer is allocated only when
  the free list is empty.
\<close>

theorem Acquire_exclusive:
  assumes "distinct as" and "(pool_use mem)\<^sup>*\<^sup>* (new_PacketBufferPool mem n as) p" and "pool_heap p a = None"
  shows "(\<forall>c \<in> set (pool_free p). \<exists>pb. pool_heap p c = Some pb \<and> pb_size pb = 0)
    \<and> (\<exists>b p'. Acquire mem a p = Inr (b, p') \<and> pool_refs p b = 0 \<and> pool_refs p' b = 1
    \<and> (\<exists>pb. pool_heap p' b = Some pb \<and> pb_size pb = 0 \<and> length (pb_data pb) = n)
    \<and> (\<forall>c. 0 < pool_refs p c \<longrightarrow> pool_heap p' c = pool_heap p c \<and> pool_refs p' c = pool_refs p c)
    \<and> (b \<notin> dom (pool_heap p) \<longrightarrow> pool_free p = []))"
proof -
  have good: "pool_good p" by (rule uses.steps_inv [OF assms(2) pool_good_new [OF assms(1)]])
  then have inv: "pool_inv p" by (simp add: pool_good_def)
  have "reflp (\<lambda>p p' :: pool. pool_buffer_size p' = pool_buffer_size p)" "transp (\<lambda>p p' :: pool. pool_buffer_size p' = pool_buffer_size p)"
    by (auto simp: reflp_def transp_def)
  then have size: "pool_buffer_size p = n"
    using uses.steps_rel [OF assms(2) pool_good_new [OF assms(1)], of "\<lambda>p p'. pool_buffer_size p' = pool_buffer_size p"] pool_use_good
    by (simp add: new_PacketBufferPool_def)
  obtain b p' where acq: "Acquire mem a p = Inr (b, p')" "pool_inv p'" "pool_frame {b} p p'" "pool_refs p b = 0"
      "pool_refs p' b = 1" "b = (if pool_free p = [] then a else last (pool_free p))"
    using Acquire_Inr [OF inv assms(3), of mem] by blast
  obtain pb where pb: "pool_heap p' b = Some pb" "pb_inv (pool_buffer_size p') pb"
    using pool_inv_held [OF acq(2), of b] acq(5) by auto
  have "pb_size pb = 0" using acq(1) pb(1) by (auto simp: Acquire_def pb_reset_def Let_def split: if_splits option.splits)
  moreover have "length (pb_data pb) = n" using pb(2) acq(3) size by (simp add: pb_inv_def pool_frame_def)
  moreover have "pool_heap p' c = pool_heap p c \<and> pool_refs p' c = pool_refs p c" if "0 < pool_refs p c" for c
    using that acq(3,4) by (cases "c = b") (simp_all add: pool_frame_def)
  moreover have "b \<in> dom (pool_heap p)" if "pool_free p \<noteq> []"
    using that acq(6) pool_inv_free [OF inv, of b] by auto
  moreover have "\<forall>c \<in> set (pool_free p). \<exists>pb. pool_heap p c = Some pb \<and> pb_size pb = 0"
    using good by (simp add: pool_good_def free_empty_def)
  ultimately show ?thesis using acq(1,4,5) pb(1) by blast
qed

text \<open>A pool whose one buffer was acquired, filled with three bytes, and dropped.\<close>

definition filled_pool :: pool where
  "filled_pool = \<lparr>pool_buffer_size = 4, pool_free = [], pool_heap = [10 \<mapsto> \<lparr>pb_data = [1, 2, 3, 0], pb_capacity = 4, pb_size = 3\<rparr>],
     pool_refs = (\<lambda>_. 0)(10 := 1)\<rparr>"

definition dropped_pool :: pool where
  "dropped_pool = filled_pool\<lparr>pool_free := [10], pool_heap := [10 \<mapsto> \<lparr>pb_data = [1, 2, 3, 0], pb_capacity = 4, pb_size = 0\<rparr>], pool_refs := (\<lambda>_. 0)\<rparr>"

lemma dropped_pool_reached: "(pool_use (\<lambda>_. 0))\<^sup>*\<^sup>* (new_PacketBufferPool (\<lambda>_. 0) 4 [10]) dropped_pool"
proof -
  let ?p = "new_PacketBufferPool (\<lambda>_. 0) 4 [10]"
  define q where "q = filled_pool\<lparr>pool_heap := [10 \<mapsto> \<lparr>pb_data = [0, 0, 0, 0], pb_capacity = 4, pb_size = 0\<rparr>]\<rparr>"
  have four: "[0..<4] = [0, 1, 2, 3 :: nat]" by (simp add: upt_rec)
  have h: "pool_heap ?p = [10 \<mapsto> \<lparr>pb_data = [0, 0, 0, 0], pb_capacity = 4, pb_size = 0\<rparr>]"
    by (auto simp: new_PacketBufferPool_def new_PacketBuffer_def four)
  have "Acquire (\<lambda>_. 0) 20 ?p = Inr (10, q)"
    by (simp add: Acquire_def h) (simp add: new_PacketBufferPool_def q_def filled_pool_def pb_reset_def)
  then have "pool_step (\<lambda>_. 0) ?p q" by (intro step_acquire) (simp_all add: h)
  moreover have "on_buffer 10 (fill [1, 2, 3] 3) q = Inr filled_pool"
    by (simp add: on_buffer_def q_def filled_pool_def fill_def set_size_def overwrite_def)
  then have "pool_use (\<lambda>_. 0) q filled_pool" by (rule use_fill [rotated]) (simp add: q_def filled_pool_def)
  moreover have "release 10 filled_pool = Inr dropped_pool"
    by (simp add: release_def filled_pool_def dropped_pool_def pb_reset_def fun_eq_iff)
  then have "pool_step (\<lambda>_. 0) filled_pool dropped_pool" by (rule step_release [rotated]) (simp add: filled_pool_def)
  ultimately show ?thesis
    by (meson use_step converse_rtranclp_into_rtranclp rtranclp.rtrancl_refl)
qed

theorem Acquire_exclusive_witness:
  "\<exists>p' pb. Acquire (\<lambda>_. 0) 20 dropped_pool = Inr (10, p') \<and> pool_heap p' 10 = Some pb \<and> pb_size pb = 0"
proof -
  have "distinct [10 :: nat]" "pool_heap dropped_pool 20 = None" by (simp_all add: dropped_pool_def)
  from Acquire_exclusive [OF this(1) dropped_pool_reached this(2)]
  obtain b p' where "Acquire (\<lambda>_. 0) 20 dropped_pool = Inr (b, p')" "\<exists>pb. pool_heap p' b = Some pb \<and> pb_size pb = 0" by blast
  moreover from this(1) have "b = 10" by (auto simp: Acquire_def dropped_pool_def filled_pool_def)
  ultimately show ?thesis by blast
qed

text \<open>
  Property C32. A payload stays valid: over any run of acquisitions, copies and drops in which a
  buffer is held at every moment, its bytes and size do not change.
\<close>

theorem held_payload_stable:
  assumes "pool_inv p" and "(\<lambda>q q'. pool_step mem q q' \<and> 0 < pool_refs q b \<and> 0 < pool_refs q' b)\<^sup>*\<^sup>* p p'"
  shows "pool_heap p' b = pool_heap p b"
  using pools.content_stable [OF assms(2,1)] by simp

definition held_pool :: pool where
  "held_pool = sample_pool\<lparr>pool_free := [10], pool_refs := (\<lambda>_. 0)(11 := 1)\<rparr>"

theorem held_payload_stable_witness:
  "pool_heap (share 11 held_pool) 11 = pool_heap held_pool 11"
proof (rule held_payload_stable)
  show "pool_inv held_pool"
    by (auto simp: pool_inv_def held_pool_def sample_pool_def new_PacketBufferPool_def pb_inv_new dom_def)
  have "pool_step (\<lambda>_. 0) held_pool (share 11 held_pool)" by (rule step_share) (simp add: held_pool_def)
  then show "(\<lambda>q q'. pool_step (\<lambda>_. 0) q q' \<and> 0 < pool_refs q 11 \<and> 0 < pool_refs q' 11)\<^sup>*\<^sup>* held_pool (share 11 held_pool)"
    by (intro r_into_rtranclp) (simp add: held_pool_def share_def)
qed

text \<open>
  Remark. A dropped buffer is the next one reused: after the last reference to a buffer is
  dropped, \<open>Acquire\<close> returns that very buffer.
\<close>

theorem release_then_Acquire:
  assumes "pool_inv p" and "pool_refs p b = 1" and "pool_heap p a = None"
  shows "\<exists>p1 p2. release b p = Inr p1 \<and> Acquire mem a p1 = Inr (b, p2) \<and> pool_free p2 = pool_free p"
proof -
  obtain p1 where p1: "release b p = Inr p1" "pool_inv p1" "pool_frame {b} p p1" "pool_free p1 = pool_free p @ [b]"
    using release_Inr [OF assms(1), of b] assms(2) by auto
  have "a \<noteq> b" using pool_inv_held [OF assms(1), of b] assms(2,3) by auto
  then have "pool_heap p1 a = None" using p1(3) assms(3) by (simp add: pool_frame_def)
  with Acquire_Inr [OF p1(2), of a mem] p1(1,4) show ?thesis by auto
qed

theorem release_then_Acquire_witness:
  "\<exists>p1 p2. release 11 held_pool = Inr p1 \<and> Acquire (\<lambda>_. 0) 20 p1 = Inr (11, p2)"
proof -
  have "pool_inv held_pool"
    by (auto simp: pool_inv_def held_pool_def sample_pool_def new_PacketBufferPool_def pb_inv_new dom_def)
  from release_then_Acquire [OF this, of 11 20 "\<lambda>_. 0"] show ?thesis
    by (auto simp: held_pool_def sample_pool_def new_PacketBufferPool_def)
qed

end
