(* ===== verification/Sockets.thy ===== *)
theory Sockets
  imports Transitions Decimal
begin

unbundle bit_operations_syntax

text \<open>
  Addresses and descriptors: \<open>InetAddress\<close> (\<open>src/InetAddress.cc\<close>), \<open>UniqueFd\<close>
  (\<open>include/mini_muduo/base/UniqueFd.h\<close>), \<open>UdpSocket\<close> (\<open>src/UdpSocket.cc\<close>) and \<open>Socket\<close>
  (\<open>src/Socket.cc\<close>). System calls are arguments giving their return values; \<open>inet_addr\<close> is an
  argument too. The host is little-endian.
\<close>

section \<open>InetAddress\<close>

type_synonym u16 = "16 word"

record sockaddr_in =
  sin_family :: nat
  sin_port :: u16
  sin_addr :: "32 word"

definition AF_INET :: nat where
  "AF_INET = 2"

definition htons :: "u16 \<Rightarrow> u16" where
  "htons w = push_bit 8 w OR drop_bit 8 w"

definition new_InetAddress :: "(string \<Rightarrow> 32 word) \<Rightarrow> u16 \<Rightarrow> string \<Rightarrow> sockaddr_in" where
  "new_InetAddress inet_addr port ip =
     \<lparr>sin_family = AF_INET, sin_port = htons port, sin_addr = (if ip = [] then 0 else inet_addr ip)\<rparr>"

definition GetPort :: "sockaddr_in \<Rightarrow> u16" where
  "GetPort addr = htons (sin_port addr)"

text \<open>The dotted quad \<open>inet_ntoa\<close> and \<open>inet_ntop\<close> print: the bytes in memory order.\<close>

definition addr_byte :: "nat \<Rightarrow> 32 word \<Rightarrow> nat" where
  "addr_byte i w = unat (drop_bit (8 * i) w AND 255)"

definition GetIp :: "sockaddr_in \<Rightarrow> string" where
  "GetIp addr =
     show_nat (addr_byte 0 (sin_addr addr)) @ ''.'' @ show_nat (addr_byte 1 (sin_addr addr)) @ ''.'' @
     show_nat (addr_byte 2 (sin_addr addr)) @ ''.'' @ show_nat (addr_byte 3 (sin_addr addr))"

text \<open>\<open>GetIpPort\<close> prints into \<open>char buf[80]\<close> with \<open>sprintf\<close>: text and terminator must fit.\<close>

definition GetIpPort :: "sockaddr_in \<Rightarrow> string res" where
  "GetIpPort addr =
     (let text = GetIp addr @ '':'' @ show_nat (unat (GetPort addr))
      in if length text < 80 then Inr text else Inl OutOfRange)"

lemma htons_htons [simp]: "htons (htons w) = w"
  by (rule bit_word_eqI) (auto simp: htons_def bit_simps)

lemma addr_byte_bound: "addr_byte i w < 256"
proof -
  have "drop_bit (8 * i) w AND 255 \<le> 255" by (rule word_and_le1)
  then have "unat (drop_bit (8 * i) w AND 255) \<le> unat (255 :: 32 word)" by (simp add: word_le_nat_alt)
  then show ?thesis by (simp add: addr_byte_def)
qed

lemma length_show_byte: "n < 256 \<Longrightarrow> length (show_nat n) \<le> 3"
  by (rule length_show_nat_le) simp_all

lemma show_nat_0: "show_nat 0 = ''0''"
  by code_simp

lemma length_GetIp: "length (GetIp addr) \<le> 15"
  using length_show_byte [OF addr_byte_bound, of 0 "sin_addr addr"] length_show_byte [OF addr_byte_bound, of 1 "sin_addr addr"]
    length_show_byte [OF addr_byte_bound, of 2 "sin_addr addr"] length_show_byte [OF addr_byte_bound, of 3 "sin_addr addr"]
  by (simp add: GetIp_def)

lemma length_show_port: "length (show_nat (unat (p :: u16))) \<le> 5"
proof -
  have "unat p < 2 ^ LENGTH(16)" by (rule unsigned_less)
  then show ?thesis by (intro length_show_nat_le) simp_all
qed

section \<open>UniqueFd\<close>

text \<open>
  The live \<open>UniqueFd\<close> objects by address, the descriptors open in the kernel, and those closed so
  far, in order.
\<close>

record fd_world =
  uf_objs :: "nat \<rightharpoonup> int"
  uf_open :: "int set"
  uf_closed :: "int list"

definition uf_valid :: "int \<Rightarrow> bool" where
  "uf_valid fd \<longleftrightarrow> fd \<ge> 0"

definition close_fd :: "int \<Rightarrow> fd_world \<Rightarrow> fd_world" where
  "close_fd fd w = w\<lparr>uf_open := uf_open w - {fd}, uf_closed := uf_closed w @ [fd]\<rparr>"

definition new_UniqueFd :: "nat \<Rightarrow> int \<Rightarrow> fd_world \<Rightarrow> fd_world" where
  "new_UniqueFd a fd w = w\<lparr>uf_objs := (uf_objs w)(a \<mapsto> (if fd \<ge> 0 then fd else - 1))\<rparr>"

definition uf_release :: "nat \<Rightarrow> fd_world \<Rightarrow> (int \<times> fd_world) res" where
  "uf_release a w =
     (case uf_objs w a of None \<Rightarrow> Inl UseAfterFree
      | Some old_fd \<Rightarrow> Inr (old_fd, w\<lparr>uf_objs := (uf_objs w)(a \<mapsto> - 1)\<rparr>))"

definition uf_reset :: "nat \<Rightarrow> int \<Rightarrow> fd_world \<Rightarrow> fd_world res" where
  "uf_reset a new_fd w =
     (case uf_objs w a of None \<Rightarrow> Inl UseAfterFree
      | Some fd \<Rightarrow>
          if fd = new_fd then Inr w
          else (let w1 = (if uf_valid fd then close_fd fd w else w)
                in Inr (w1\<lparr>uf_objs := (uf_objs w1)(a \<mapsto> (if new_fd \<ge> 0 then new_fd else - 1))\<rparr>)))"

text \<open>Move construction of \<open>a\<close> from \<open>b\<close>, move assignment, and the destructor.\<close>

definition move_UniqueFd :: "nat \<Rightarrow> nat \<Rightarrow> fd_world \<Rightarrow> fd_world res" where
  "move_UniqueFd a b w =
     bindE (uf_release b w) (\<lambda>(fd, w1). Inr (w1\<lparr>uf_objs := (uf_objs w1)(a \<mapsto> fd)\<rparr>))"

definition move_assign :: "nat \<Rightarrow> nat \<Rightarrow> fd_world \<Rightarrow> fd_world res" where
  "move_assign a b w =
     (if a \<noteq> b then bindE (uf_release b w) (\<lambda>(fd, w1). uf_reset a fd w1) else Inr w)"

definition destroy_UniqueFd :: "nat \<Rightarrow> fd_world \<Rightarrow> fd_world res" where
  "destroy_UniqueFd a w = bindE (uf_reset a (- 1) w) (\<lambda>w1. Inr (w1\<lparr>uf_objs := (uf_objs w1)(a := None)\<rparr>))"

text \<open>The descriptors an object owns: none or one.\<close>

definition owned :: "int option \<Rightarrow> int set" where
  "owned x = {fd. x = Some fd \<and> 0 \<le> fd}"

text \<open>The open descriptors are exactly those owned by some object, and each has one owner.\<close>

definition fd_inv :: "fd_world \<Rightarrow> bool" where
  "fd_inv w \<longleftrightarrow> uf_open w = (\<Union>a. owned (uf_objs w a))
     \<and> (\<forall>a b. a \<noteq> b \<longrightarrow> owned (uf_objs w a) \<inter> owned (uf_objs w b) = {})"

text \<open>
  Steps of code that owns its descriptors through \<open>UniqueFd\<close>: a descriptor the kernel has just
  opened is given to a new or to an existing object; objects are moved and destroyed.
\<close>

inductive fd_step :: "fd_world \<Rightarrow> fd_world \<Rightarrow> bool" where
  fd_open: "fd \<notin> uf_open w \<Longrightarrow> 0 \<le> fd \<Longrightarrow> uf_objs w a = None \<Longrightarrow>
     fd_step w (new_UniqueFd a fd (w\<lparr>uf_open := insert fd (uf_open w)\<rparr>))"
| fd_fail: "fd < 0 \<Longrightarrow> uf_objs w a = None \<Longrightarrow> fd_step w (new_UniqueFd a fd w)"
| fd_reset: "fd \<notin> uf_open w \<Longrightarrow> 0 \<le> fd \<Longrightarrow> uf_reset a fd (w\<lparr>uf_open := insert fd (uf_open w)\<rparr>) = Inr w' \<Longrightarrow> fd_step w w'"
| fd_move: "uf_objs w a = None \<Longrightarrow> move_UniqueFd a b w = Inr w' \<Longrightarrow> fd_step w w'"
| fd_assign: "move_assign a b w = Inr w' \<Longrightarrow> fd_step w w'"
| fd_destroy: "destroy_UniqueFd a w = Inr w' \<Longrightarrow> fd_step w w'"

lemma owned_simps [simp]: "owned None = {}" "owned (Some (- 1)) = {}" "0 \<le> fd \<Longrightarrow> owned (Some fd) = {fd}"
    "fd < 0 \<Longrightarrow> owned (Some fd) = {}"
  by (auto simp: owned_def)

lemma fd_invD:
  assumes "fd_inv w"
  shows "uf_open w = (\<Union>a. owned (uf_objs w a))"
    and "a \<noteq> b \<Longrightarrow> owned (uf_objs w a) \<inter> owned (uf_objs w b) = {}"
  using assms by (simp_all add: fd_inv_def)

text \<open>One object changes what it owns: its old descriptor is closed, its new one was just opened.\<close>

lemma fd_inv_upd:
  assumes inv: "fd_inv w" and objs: "uf_objs w' = (uf_objs w)(a := x)"
    and new: "owned x \<inter> (uf_open w - owned (uf_objs w a)) = {}"
    and opened: "uf_open w' = (uf_open w - owned (uf_objs w a)) \<union> owned x"
  shows "fd_inv w'"
proof -
  let ?rest = "\<Union>b \<in> - {a}. owned (uf_objs w b)"
  have rest: "uf_open w - owned (uf_objs w a) = ?rest"
  proof -
    have "owned (uf_objs w a) \<inter> ?rest = {}" using fd_invD(2) [OF inv, of a] by (auto simp: disjoint_iff)
    moreover have "uf_open w = owned (uf_objs w a) \<union> ?rest" unfolding fd_invD(1) [OF inv] by auto
    ultimately show ?thesis by blast
  qed
  have all: "(\<Union>b. owned (uf_objs w' b)) = owned x \<union> ?rest"
    unfolding objs by (auto split: if_splits)
  have "owned (uf_objs w' c) \<inter> owned (uf_objs w' d) = {}" if "c \<noteq> d" for c d
  proof -
    have "owned (uf_objs w e) \<inter> owned x = {}" if "e \<noteq> a" for e
      using new that unfolding rest by blast
    then show ?thesis using that fd_invD(2) [OF inv, of c d] unfolding objs
      by (cases "c = a"; cases "d = a") (simp_all add: Int_commute)
  qed
  then show ?thesis unfolding fd_inv_def all opened rest by (simp add: Un_commute)
qed

lemma owned_open: "fd_inv w \<Longrightarrow> owned (uf_objs w a) \<subseteq> uf_open w"
  using fd_invD(1) by blast

lemma uf_reset_open:
  assumes "uf_objs w a = Some fd" and "fd \<noteq> x" and "uf_reset a x w = Inr w'"
  shows "uf_objs w' = (uf_objs w)(a \<mapsto> (if x \<ge> 0 then x else - 1))" and "uf_open w' = uf_open w - owned (Some fd)"
    and "uf_closed w' = uf_closed w @ (if fd \<ge> 0 then [fd] else [])"
  using assms by (auto simp: uf_reset_def uf_valid_def close_fd_def owned_def Let_def split: if_splits)

lemma fd_step_inv:
  assumes "fd_inv w" and "fd_step w w'"
  shows "fd_inv w'"
  using assms(2)
proof cases
  case (fd_open fd a)
  then show ?thesis using owned_open [OF assms(1)]
    by (intro fd_inv_upd [OF assms(1), of w' a "Some fd"]) (auto simp: new_UniqueFd_def)
next
  case (fd_fail fd a)
  then show ?thesis
    by (intro fd_inv_upd [OF assms(1), of w' a "Some (- 1)"]) (auto simp: new_UniqueFd_def)
next
  case (fd_reset fd a)
  let ?w = "w\<lparr>uf_open := insert fd (uf_open w)\<rparr>"
  obtain old where old: "uf_objs w a = Some old" using fd_reset(3) by (auto simp: uf_reset_def split: option.splits)
  have "fd \<noteq> old" using owned_open [OF assms(1), of a] old fd_reset(1,2) by auto
  with uf_reset_open [of ?w a old fd w'] fd_reset old show ?thesis using owned_open [OF assms(1)]
    by (intro fd_inv_upd [OF assms(1), of w' a "Some fd"]) (auto simp: owned_def)
next
  case (fd_move a b)
  obtain fd where fd: "uf_objs w b = Some fd" using fd_move(2) by (auto simp: move_UniqueFd_def uf_release_def split: option.splits)
  define w1 where "w1 = w\<lparr>uf_objs := (uf_objs w)(b \<mapsto> - 1), uf_open := uf_open w - owned (Some fd)\<rparr>"
  have "fd_inv w1" by (rule fd_inv_upd [OF assms(1), of w1 b "Some (- 1)"]) (auto simp: w1_def fd)
  moreover have "uf_objs w1 a = None" "uf_objs w' = (uf_objs w1)(a \<mapsto> fd)" "uf_open w' = uf_open w"
    using fd_move fd by (auto simp: move_UniqueFd_def uf_release_def w1_def)
  ultimately show ?thesis using owned_open [OF assms(1), of b] fd
    by (intro fd_inv_upd [of w1 w' a "Some fd"]) (auto simp: w1_def)
next
  case (fd_assign a b)
  show ?thesis
  proof (cases "a = b")
    case True
    then show ?thesis using fd_assign assms(1) by (simp add: move_assign_def)
  next
    case False
    obtain fd where fd: "uf_objs w b = Some fd" using fd_assign False by (auto simp: move_assign_def uf_release_def split: option.splits)
    define w1 where "w1 = w\<lparr>uf_objs := (uf_objs w)(b \<mapsto> - 1)\<rparr>"
    define w2 where "w2 = w1\<lparr>uf_open := uf_open w - owned (Some fd)\<rparr>"
    have w': "uf_reset a fd w1 = Inr w'" using fd_assign False fd by (simp add: move_assign_def uf_release_def w1_def)
    have w2: "fd_inv w2" by (rule fd_inv_upd [OF assms(1), of w2 b "Some (- 1)"]) (auto simp: w2_def w1_def fd)
    obtain old where old: "uf_objs w a = Some old" using w' False by (auto simp: uf_reset_def w1_def split: option.splits)
    have disj: "owned (Some old) \<inter> owned (Some fd) = {}" using fd_invD(2) [OF assms(1) False] old fd by simp
    show ?thesis
    proof (cases "old = fd")
      case True
      with disj have "owned (Some fd) = {}" by blast
      then have "fd_inv w1" using w2 by (simp add: w2_def w1_def fd_inv_def)
      moreover have "w' = w1" using w' old False True by (simp add: uf_reset_def w1_def)
      ultimately show ?thesis by simp
    next
      case ne: False
      have o: "uf_objs w1 a = Some old" using old False by (simp add: w1_def)
      note r = uf_reset_open [OF o ne w']
      have same: "owned (Some (if fd \<ge> 0 then fd else - 1)) = owned (Some fd)" by auto
      show ?thesis
        by (rule fd_inv_upd [OF w2, of w' a "Some (if fd \<ge> 0 then fd else - 1)"])
          (use r o disj same owned_open [OF assms(1), of b] fd in \<open>auto simp: w2_def w1_def\<close>)
    qed
  qed
next
  case (fd_destroy a)
  obtain fd where fd: "uf_objs w a = Some fd" using fd_destroy by (auto simp: destroy_UniqueFd_def uf_reset_def split: option.splits)
  then show ?thesis using fd_destroy
    by (intro fd_inv_upd [OF assms(1), of w' a None])
      (auto simp: destroy_UniqueFd_def uf_reset_def uf_valid_def close_fd_def owned_def Let_def split: if_splits)
qed

interpretation fds: transition_system fd_step fd_inv
  by unfold_locales (rule fd_step_inv)

section \<open>UdpSocket and Socket\<close>

definition EINVAL :: int where "EINVAL = 22"
definition EBADF :: int where "EBADF = 9"

text \<open>\<open>sock\<close> is what \<open>socket\<close> returned; the results are the boolean and, where the code sets it, errno.\<close>

definition new_UdpSocket :: "int \<Rightarrow> int" where
  "new_UdpSocket sock = (if sock \<ge> 0 then sock else - 1)"

definition UdpSocket_BindAddress :: "(int \<Rightarrow> sockaddr_in \<Rightarrow> int) \<Rightarrow> sockaddr_in \<Rightarrow> int \<Rightarrow> bool" where
  "UdpSocket_BindAddress bind address fd \<longleftrightarrow> bind fd address = 0"

definition UdpSocket_SetReuseAddr :: "(int \<Rightarrow> int \<Rightarrow> int) \<Rightarrow> bool \<Rightarrow> int \<Rightarrow> bool" where
  "UdpSocket_SetReuseAddr setsockopt enable fd \<longleftrightarrow> setsockopt fd (if enable then 1 else 0) = 0"

definition SetReceiveBufferSize :: "(int \<Rightarrow> int \<Rightarrow> int) \<Rightarrow> int \<Rightarrow> int \<Rightarrow> bool \<times> int option" where
  "SetReceiveBufferSize setsockopt bytes fd =
     (if bytes \<le> 0 then (False, Some EINVAL)
      else if \<not> uf_valid fd then (False, Some EBADF)
      else (setsockopt fd bytes = 0, None))"

text \<open>\<open>Accept\<close>: the descriptor and peer \<open>accept4\<close> gave; the out parameter is set on success only.\<close>

definition Accept :: "int \<times> sockaddr_in \<Rightarrow> sockaddr_in \<Rightarrow> int \<times> sockaddr_in" where
  "Accept r peeraddr = (let (conn_fd, addr) = r in (conn_fd, if conn_fd \<ge> 0 then addr else peeraddr))"

section \<open>Properties\<close>

definition empty_world :: fd_world where
  "empty_world = \<lparr>uf_objs = Map.empty, uf_open = {}, uf_closed = []\<rparr>"

lemma fd_inv_empty: "fd_inv empty_world"
  by (simp add: fd_inv_def empty_world_def)

text \<open>
  Remark. Descriptors owned through \<open>UniqueFd\<close> neither leak nor are closed twice: whatever objects
  are made, reset, moved (onto themselves included) and destroyed, the open descriptors are
  exactly the valid ones the live objects hold, and no two objects hold the same.
\<close>

theorem UniqueFd_owns:
  assumes "fd_step\<^sup>*\<^sup>* empty_world w"
  shows "uf_open w = {fd. 0 \<le> fd \<and> (\<exists>a. uf_objs w a = Some fd)}
    \<and> (\<forall>a b fd. uf_objs w a = Some fd \<and> uf_objs w b = Some fd \<and> 0 \<le> fd \<longrightarrow> a = b)"
proof -
  have inv: "fd_inv w" by (rule fds.steps_inv [OF assms fd_inv_empty])
  have "a = b" if "uf_objs w a = Some fd" "uf_objs w b = Some fd" "0 \<le> fd" for a b fd
    using fd_invD(2) [OF inv, of a b] that by (cases "a = b") auto
  then show ?thesis using fd_invD(1) [OF inv] by (auto simp: owned_def)
qed

definition one_fd :: fd_world where
  "one_fd = new_UniqueFd 1 5 (empty_world\<lparr>uf_open := insert 5 (uf_open empty_world)\<rparr>)"

theorem UniqueFd_owns_witness:
  "uf_open one_fd = {fd. 0 \<le> fd \<and> (\<exists>a. uf_objs one_fd a = Some fd)} \<and> 5 \<in> uf_open one_fd"
proof -
  have "fd_step empty_world one_fd"
    unfolding one_fd_def by (rule fd_open) (simp_all add: empty_world_def)
  from conjunct1 [OF UniqueFd_owns [OF r_into_rtranclp, OF this]] show ?thesis
    by (rule conjI) (simp add: one_fd_def new_UniqueFd_def)
qed

text \<open>
  Remark. Addresses keep their port through the network byte order, and printing one never
  overruns the 80-byte buffer: \<open>GetIpPort\<close> always returns the dotted quad, a colon and the port.
\<close>

theorem InetAddress_port_text:
  "GetPort (new_InetAddress inet_addr port ip) = port
   \<and> GetIpPort (new_InetAddress inet_addr port ip) =
       Inr (GetIp (new_InetAddress inet_addr port ip) @ '':'' @ show_nat (unat port))
   \<and> GetIp (new_InetAddress inet_addr port []) = ''0.0.0.0''"
proof -
  have port: "GetPort (new_InetAddress inet_addr port ip) = port"
    by (simp add: GetPort_def new_InetAddress_def)
  have "length (GetIp a @ '':'' @ show_nat (unat port)) < 80" for a
    using length_GetIp [of a] length_show_port [of port] by simp
  then have "GetIpPort (new_InetAddress inet_addr port ip) =
      Inr (GetIp (new_InetAddress inet_addr port ip) @ '':'' @ show_nat (unat port))"
    unfolding GetIpPort_def port Let_def by (simp del: append.simps)
  moreover have "GetIp (new_InetAddress inet_addr port []) = ''0.0.0.0''"
    by (simp add: GetIp_def new_InetAddress_def addr_byte_def show_nat_0)
  ultimately show ?thesis using port by simp
qed

end
