(* ===== verification/UdpReceiver.thy ===== *)
theory UdpReceiver
  imports EpollPoller PacketBufferPool Sockets Timestamps "HOL-Library.Multiset"
begin

text \<open>
  The batching UDP receiver (\<open>include/mini_muduo/UdpReceiver.h\<close>, \<open>src/UdpReceiver.cc\<close>) and the
  datagram handles it passes on (\<open>include/mini_muduo/UdpDatagram.h\<close>): construction, start and stop
  over the poller model, and the read loop over the buffer pool. What \<open>recvmmsg\<close> returns, call by
  call, is an argument; the user's callback is another, under a contract.
\<close>

section \<open>State\<close>

record udp_datagram =
  dg_buffer :: nat
  dg_peer :: sockaddr_in
  dg_receive_time :: Timestamp
  dg_original_size :: nat
  dg_truncated :: bool

definition dg_data :: "pool \<Rightarrow> udp_datagram \<Rightarrow> u8 list res" where
  "dg_data p dg =
     (case pool_heap p (dg_buffer dg) of
        None \<Rightarrow> Inl UseAfterFree
      | Some pb \<Rightarrow> Inr (take (pb_size pb) (pb_data pb)))"

text \<open>
  The receiver with the loop it runs on. \<open>ur_delivered\<close> records the calls of the callback with the
  payload seen then, and \<open>ur_kept\<close> the datagrams the application has stored, with the payload each
  had when it was stored.
\<close>

record ('u, 'k) udp_receiver = "(unit, 'k) poller" +
  ur_fd :: int
  ur_chan :: nat
  ur_max_packets_per_read :: nat
  ur_pool :: pool
  ur_message_callback :: "'u option"
  ur_started :: bool
  ur_delivered :: "(udp_datagram \<times> u8 list) list"
  ur_kept :: "(udp_datagram \<times> u8 list) list"

type_synonym ('u, 'k) ur_op = "('u, 'k) udp_receiver \<Rightarrow> ('u, 'k) udp_receiver res"

text \<open>
  The calling thread, \<open>epoll_ctl\<close>, what fresh memory holds, and the allocator: the address of the
  next new buffer.
\<close>

record 'k ur_env =
  ue_tid :: int
  ue_ctl :: "'k epoll_ctl_fun"
  ue_mem :: "nat \<Rightarrow> u8"
  ue_alloc :: "pool \<Rightarrow> nat"

text \<open>
  One \<open>recvmmsg\<close>: an errno or the messages, each with its whole payload, its sender and whether the
  kernel set \<open>MSG_TRUNC\<close>; it depends on the number of slots offered.
\<close>

record udp_msg =
  msg_payload :: "u8 list"
  msg_peer :: sockaddr_in
  msg_trunc :: bool

datatype recv_result = RecvErr int | Recv "udp_msg list"

type_synonym recvmmsg_call = "nat \<Rightarrow> recv_result"

definition EINTR :: int where "EINTR = 4"

definition kDefaultMaxPacketPerRead :: nat where
  "kDefaultMaxPacketPerRead = 64"

section \<open>Construction\<close>

text \<open>What the system calls of the constructor return; \<open>sys_errno\<close> is errno after the named one failed.\<close>

record udp_sys =
  sys_socket :: int
  sys_setsockopt :: "int \<Rightarrow> int \<Rightarrow> int"
  sys_bind :: "int \<Rightarrow> sockaddr_in \<Rightarrow> int"
  sys_errno :: "string \<Rightarrow> int"

definition ValidateBufferSize :: "nat \<Rightarrow> nat res" where
  "ValidateBufferSize n =
     (if n = 0 then Inl (Thrown ''UdpReceiver max_datagram_size must be greater than zero'') else Inr n)"

definition ThrowSystemError :: "udp_sys \<Rightarrow> string \<Rightarrow> 'a res" where
  "ThrowSystemError sys operation = Inl (SystemError (sys_errno sys operation) operation)"

text \<open>
  The constructor on the loop (\<open>None\<close> is the null pointer), the address list of the initial
  buffers and the address of the new channel.
\<close>

definition new_UdpReceiver :: "udp_sys \<Rightarrow> (nat \<Rightarrow> u8) \<Rightarrow> (unit, 'k) poller option \<Rightarrow> sockaddr_in \<Rightarrow> nat \<Rightarrow> nat list \<Rightarrow>
    nat \<Rightarrow> nat \<Rightarrow> ('u, 'k) udp_receiver res" where
  "new_UdpReceiver sys mem loop listen_address max_datagram_size as max_packets_per_read c =
     (let fd = new_UdpSocket (sys_socket sys)
      in bindE (ValidateBufferSize max_datagram_size) (\<lambda>size.
         case loop of
           None \<Rightarrow> Inl (Thrown ''UdpReceiver loop must not be null'')
         | Some p \<Rightarrow>
             if max_packets_per_read = 0
             then Inl (Thrown ''UdpReceiver max_packets_per_read must be greater than zero'')
             else if \<not> uf_valid fd then ThrowSystemError sys ''socket''
             else if \<not> UdpSocket_SetReuseAddr (sys_setsockopt sys) True fd
             then ThrowSystemError sys ''setsockopt(SO_REUSEADDR)''
             else if \<not> UdpSocket_BindAddress (sys_bind sys) listen_address fd then ThrowSystemError sys ''bind''
             else Inr (poller.extend
                    (create_channel c ((new_Channel fd)\<lparr>ch_read_callback := Some ()\<rparr>) p)
                    (udp_receiver.fields fd c max_packets_per_read (new_PacketBufferPool mem size as) None False [] []))))"

text \<open>The \<open>UniqueFd\<close> member, at address \<open>a\<close>: a constructor that throws destroys it again.\<close>

definition construct_UdpReceiver :: "udp_sys \<Rightarrow> (nat \<Rightarrow> u8) \<Rightarrow> (unit, 'k) poller option \<Rightarrow> sockaddr_in \<Rightarrow> nat \<Rightarrow> nat list \<Rightarrow>
    nat \<Rightarrow> nat \<Rightarrow> nat \<Rightarrow> fd_world \<Rightarrow> (('u, 'k) udp_receiver res \<times> fd_world) res" where
  "construct_UdpReceiver sys mem loop listen_address max_datagram_size as max_packets_per_read c a w =
     (let w1 = new_UniqueFd a (sys_socket sys) w
      in case new_UdpReceiver sys mem loop listen_address max_datagram_size as max_packets_per_read c of
           Inr r \<Rightarrow> Inr (Inr r, w1)
         | Inl e \<Rightarrow> bindE (destroy_UniqueFd a w1) (\<lambda>w2. Inr (Inl e, w2)))"

section \<open>Start and Stop\<close>

definition SetMessageCallback :: "'u \<Rightarrow> ('u, 'k) udp_receiver \<Rightarrow> ('u, 'k) udp_receiver" where
  "SetMessageCallback callback s = s\<lparr>ur_message_callback := Some callback\<rparr>"

definition Start :: "'k ur_env \<Rightarrow> ('u, 'k) ur_op" where
  "Start e s =
     bindE (AssertInLoopThread (ue_tid e) s) (\<lambda>_.
       if ur_started s then Inr s
       else if ur_message_callback s = None then Inl (Thrown ''UdpReceiver callback must be set before Start'')
       else bindE (EnableReading (ue_ctl e) (ue_tid e) (ur_chan s) s) (\<lambda>s. Inr (s\<lparr>ur_started := True\<rparr>)))"

definition Stop :: "'k ur_env \<Rightarrow> ('u, 'k) ur_op" where
  "Stop e s =
     bindE (AssertInLoopThread (ue_tid e) s) (\<lambda>_.
       if \<not> ur_started s then Inr s
       else bindE (bindE (DisableAll (ue_ctl e) (ue_tid e) (ur_chan s) s) (Remove (ue_ctl e) (ue_tid e) (ur_chan s)))
              (\<lambda>s. Inr (s\<lparr>ur_started := False\<rparr>)))"

text \<open>The destructor: it stops, and the channel member is destroyed.\<close>

definition destroy_UdpReceiver :: "'k ur_env \<Rightarrow> ('u, 'k) ur_op" where
  "destroy_UdpReceiver e s =
     bindE (AssertInLoopThread (ue_tid e) s) (\<lambda>_.
     bindE (Stop e s) (\<lambda>s. Inr (destroy_channel (ur_chan s) s)))"

section \<open>HandleRead\<close>

text \<open>The loop that prepares a batch of empty buffers, and the end of their vector.\<close>

fun acquire_n :: "'k ur_env \<Rightarrow> nat \<Rightarrow> pool \<Rightarrow> (nat list \<times> pool) res" where
  "acquire_n e 0 p = Inr ([], p)"
| "acquire_n e (Suc n) p =
     bindE (Acquire (ue_mem e) (ue_alloc e p) p) (\<lambda>(b, p1).
     bindE (acquire_n e n p1) (\<lambda>(bs, p2). Inr (b # bs, p2)))"

fun release_all :: "nat list \<Rightarrow> pool \<Rightarrow> pool res" where
  "release_all [] p = Inr p"
| "release_all (b # bs) p = bindE (release b p) (release_all bs)"

text \<open>The kernel stores each message in its buffer, cut to the buffer's capacity.\<close>

definition store_payload :: "udp_msg \<Rightarrow> packet_buffer \<Rightarrow> packet_buffer res" where
  "store_payload m pb = Inr (pb\<lparr>pb_data := overwrite 0 (pb_data pb) (take (pb_capacity pb) (msg_payload m))\<rparr>)"

fun kernel_fill :: "nat list \<Rightarrow> udp_msg list \<Rightarrow> pool \<Rightarrow> pool res" where
  "kernel_fill bs [] p = Inr p"
| "kernel_fill [] (m # ms) p = Inl OutOfRange"
| "kernel_fill (b # bs) (m # ms) p = bindE (on_buffer b (store_payload m) p) (kernel_fill bs ms)"

text \<open>
  The delivery loop. The callback takes the datagram by value, so its buffer is released when the
  callback returns; without a callback it stays in the vector (\<open>left\<close>). The first result tells
  whether the loop ran to its end.
\<close>

fun deliver :: "('u \<Rightarrow> udp_datagram \<Rightarrow> ('u, 'k) ur_op) \<Rightarrow> Timestamp \<Rightarrow> nat list \<Rightarrow> udp_msg list \<Rightarrow> nat list \<Rightarrow>
    ('u, 'k) udp_receiver \<Rightarrow> (bool \<times> nat list \<times> ('u, 'k) udp_receiver) res" where
  "deliver call receive_time bs [] left s = Inr (True, left @ bs, s)"
| "deliver call receive_time [] (m # ms) left s = Inl OutOfRange"
| "deliver call receive_time (b # bs) (m # ms) left s =
     (case pool_heap (ur_pool s) b of
        None \<Rightarrow> Inl UseAfterFree
      | Some pb \<Rightarrow>
          let original_size = length (msg_payload m);
              readable_size = min original_size (pb_capacity pb);
              truncated = (msg_trunc m \<or> original_size > pb_capacity pb);
              dg = \<lparr>dg_buffer = b, dg_peer = msg_peer m, dg_receive_time = receive_time,
                    dg_original_size = original_size, dg_truncated = truncated\<rparr>
          in bindE (on_buffer b (set_size readable_size) (ur_pool s)) (\<lambda>p.
             bindE (case ur_message_callback s of
                      None \<Rightarrow> Inr (left @ [b], s\<lparr>ur_pool := p\<rparr>)
                    | Some f \<Rightarrow>
                        bindE (dg_data p dg) (\<lambda>d.
                        bindE (call f dg (s\<lparr>ur_pool := p, ur_delivered := ur_delivered s @ [(dg, d)]\<rparr>)) (\<lambda>s2.
                        bindE (release b (ur_pool s2)) (\<lambda>p2. Inr (left, s2\<lparr>ur_pool := p2\<rparr>)))))
               (\<lambda>(left', s3).
                  if \<not> ur_started s3 then Inr (False, left' @ bs, s3)
                  else deliver call receive_time bs ms left' s3)))"

text \<open>One round of the loop: whether it goes on, the packets read so far, and the state.\<close>

definition read_batch :: "'k ur_env \<Rightarrow> ('u \<Rightarrow> udp_datagram \<Rightarrow> ('u, 'k) ur_op) \<Rightarrow> Timestamp \<Rightarrow> recvmmsg_call \<Rightarrow> nat \<Rightarrow>
    ('u, 'k) udp_receiver \<Rightarrow> (bool \<times> nat \<times> ('u, 'k) udp_receiver) res" where
  "read_batch e call receive_time recvmmsg packets_read s =
     (let batch_size = min (ur_max_packets_per_read s - packets_read) kDefaultMaxPacketPerRead
      in bindE (acquire_n e batch_size (ur_pool s)) (\<lambda>(datagrams, p).
         case recvmmsg batch_size of
           RecvErr saved_error \<Rightarrow>
             bindE (release_all datagrams p) (\<lambda>p. Inr (saved_error = EINTR, packets_read, s\<lparr>ur_pool := p\<rparr>))
         | Recv ms \<Rightarrow>
             if ms = []
             then bindE (release_all datagrams p) (\<lambda>p. Inr (False, packets_read, s\<lparr>ur_pool := p\<rparr>))
             else bindE (kernel_fill datagrams ms p) (\<lambda>p.
                  bindE (deliver call receive_time datagrams ms [] (s\<lparr>ur_pool := p\<rparr>)) (\<lambda>(go, left, s1).
                  bindE (release_all left (ur_pool s1)) (\<lambda>p.
                    Inr (go \<and> \<not> length ms < batch_size, packets_read + length ms, s1\<lparr>ur_pool := p\<rparr>))))))"

text \<open>The loop over the results of the successive calls; \<open>None\<close> when it asks for more of them.\<close>

fun read_loop :: "'k ur_env \<Rightarrow> ('u \<Rightarrow> udp_datagram \<Rightarrow> ('u, 'k) ur_op) \<Rightarrow> Timestamp \<Rightarrow> nat \<Rightarrow> recvmmsg_call list \<Rightarrow>
    ('u, 'k) udp_receiver \<Rightarrow> ('u, 'k) udp_receiver res option" where
  "read_loop e call receive_time packets_read [] s =
     (if packets_read < ur_max_packets_per_read s then None else Some (Inr s))"
| "read_loop e call receive_time packets_read (r # rs) s =
     (if packets_read < ur_max_packets_per_read s
      then (case read_batch e call receive_time r packets_read s of
              Inl f \<Rightarrow> Some (Inl f)
            | Inr (again, n, s1) \<Rightarrow> if again then read_loop e call receive_time n rs s1 else Some (Inr s1))
      else Some (Inr s))"

definition HandleRead :: "'k ur_env \<Rightarrow> ('u \<Rightarrow> udp_datagram \<Rightarrow> ('u, 'k) ur_op) \<Rightarrow> Timestamp \<Rightarrow> recvmmsg_call list \<Rightarrow>
    ('u, 'k) udp_receiver \<Rightarrow> ('u, 'k) udp_receiver res option" where
  "HandleRead e call receive_time rs s =
     (case AssertInLoopThread (ue_tid e) s of
        Inl f \<Rightarrow> Some (Inl f)
      | Inr _ \<Rightarrow> read_loop e call receive_time 0 rs s)"

section \<open>Buffers in flight\<close>

text \<open>The pool with the multiset of its holders, and what an operation leaves of the held buffers.\<close>

definition pool_ok :: "nat multiset \<Rightarrow> pool \<Rightarrow> bool" where
  "pool_ok M p \<longleftrightarrow> pool_inv p \<and> finite (dom (pool_heap p)) \<and> (\<forall>b. pool_refs p b = count M b)"

definition pool_keeps :: "nat multiset \<Rightarrow> pool \<Rightarrow> pool \<Rightarrow> bool" where
  "pool_keeps M p p' \<longleftrightarrow> pool_buffer_size p' = pool_buffer_size p \<and> (\<forall>b \<in># M. pool_heap p' b = pool_heap p b)"

text \<open>The allocator returns an unused address as long as finitely many are in use.\<close>

definition alloc_spec :: "(pool \<Rightarrow> nat) \<Rightarrow> bool" where
  "alloc_spec alloc \<longleftrightarrow> (\<forall>p. finite (dom (pool_heap p)) \<longrightarrow> pool_heap p (alloc p) = None)"

lemma pool_keeps_refl [simp]: "pool_keeps M p p"
  by (simp add: pool_keeps_def)

lemma pool_keeps_trans: "pool_keeps M p q \<Longrightarrow> pool_keeps M q r \<Longrightarrow> pool_keeps M p r"
  by (simp add: pool_keeps_def)

lemma pool_keeps_mono: "pool_keeps M p q \<Longrightarrow> N \<subseteq># M \<Longrightarrow> pool_keeps N p q"
  by (meson mset_subset_eqD pool_keeps_def)

lemma pool_ok_held: "pool_ok M p \<Longrightarrow> b \<in># M \<Longrightarrow> \<exists>pb. pool_heap p b = Some pb \<and> pb_inv (pool_buffer_size p) pb"
  using pool_inv_held [of p b] by (simp add: pool_ok_def)

lemma pool_frame_dom: "pool_frame {b} p p' \<Longrightarrow> dom (pool_heap p') \<subseteq> insert b (dom (pool_heap p))"
  by (auto simp: pool_frame_def dom_def)

lemma Acquire_ok:
  assumes ok: "pool_ok M p" and alloc: "alloc_spec alloc"
  shows "\<exists>b p'. Acquire mem (alloc p) p = Inr (b, p') \<and> pool_ok (add_mset b M) p' \<and> pool_keeps M p p' \<and> b \<notin># M"
proof -
  have "pool_heap p (alloc p) = None" using ok alloc by (simp add: pool_ok_def alloc_spec_def)
  with ok obtain b p' where acq: "Acquire mem (alloc p) p = Inr (b, p')" "pool_inv p'" "pool_frame {b} p p'"
      "pool_refs p b = 0" "pool_refs p' b = 1"
    using Acquire_Inr [of p "alloc p" mem] by (auto simp: pool_ok_def)
  have new: "b \<notin># M" using acq(4) ok by (simp add: pool_ok_def not_in_iff)
  have "finite (dom (pool_heap p'))"
    using finite_subset [OF pool_frame_dom [OF acq(3)]] ok by (simp add: pool_ok_def)
  with acq ok new have "pool_ok (add_mset b M) p'" by (auto simp: pool_ok_def pool_frame_def not_in_iff)
  moreover have "pool_keeps M p p'" using acq(3) new by (auto simp: pool_keeps_def pool_frame_def)
  ultimately show ?thesis using acq(1) new by blast
qed

lemma release_ok:
  assumes "pool_ok (add_mset b M) p"
  shows "\<exists>p'. release b p = Inr p' \<and> pool_ok M p' \<and> pool_keeps M p p'"
proof -
  have refs: "pool_refs p b = Suc (count M b)" using assms by (simp add: pool_ok_def)
  with assms obtain p' where rel: "release b p = Inr p'" "pool_inv p'" "pool_frame {b} p p'"
      "pool_refs p' b = pool_refs p b - 1" "1 < pool_refs p b \<longrightarrow> pool_heap p' b = pool_heap p b"
    using release_Inr [of p b] by (auto simp: pool_ok_def)
  have "finite (dom (pool_heap p'))"
    using finite_subset [OF pool_frame_dom [OF rel(3)]] assms by (simp add: pool_ok_def)
  moreover have "pool_refs p' c = count M c" for c
    using rel(3,4) refs assms by (cases "c = b") (auto simp: pool_ok_def pool_frame_def)
  ultimately have "pool_ok M p'" using rel(2) by (simp add: pool_ok_def)
  moreover have "pool_heap p' c = pool_heap p c" if "c \<in># M" for c
    using that rel(3,5) refs by (cases "c = b") (auto simp: pool_frame_def)
  then have "pool_keeps M p p'" using rel(3) by (simp add: pool_keeps_def pool_frame_def)
  ultimately show ?thesis using rel(1) by blast
qed

lemma share_ok: "pool_ok M p \<Longrightarrow> b \<in># M \<Longrightarrow> pool_ok (add_mset b M) (share b p) \<and> pool_heap (share b p) = pool_heap p
    \<and> pool_buffer_size (share b p) = pool_buffer_size p"
  using share_inv [of p b] by (auto simp: pool_ok_def share_def)

lemma on_buffer_ok:
  assumes ok: "pool_ok M p" and b: "b \<in># M" "b \<notin># N" and pb: "pool_heap p b = Some pb"
    and f: "f pb = Inr pb'" "pb_inv (pool_buffer_size p) pb'"
  shows "\<exists>p'. on_buffer b f p = Inr p' \<and> pool_ok M p' \<and> pool_keeps N p p' \<and> pool_heap p' = (pool_heap p)(b \<mapsto> pb')"
proof -
  define p' where "p' = p\<lparr>pool_heap := (pool_heap p)(b \<mapsto> pb')\<rparr>"
  have "pool_inv p'"
    unfolding pool_inv_def
  proof (intro conjI allI impI ballI)
    have inv: "pool_inv p" using ok by (simp add: pool_ok_def)
    show "distinct (pool_free p')" "\<And>a. a \<in> set (pool_free p') \<Longrightarrow> pool_refs p' a = 0"
      using pool_invD(1,2) [OF inv] by (simp_all add: p'_def)
    show "dom (pool_heap p') = set (pool_free p') \<union> {a. 0 < pool_refs p' a}"
      using pool_invD(3) [OF inv] pb by (auto simp: p'_def)
    show "pb_inv (pool_buffer_size p') x" if "pool_heap p' c = Some x" for c x
      using that pool_invD(4) [OF inv] f(2) by (auto simp: p'_def split: if_splits)
  qed
  then have "pool_ok M p'" using ok by (simp add: pool_ok_def p'_def)
  moreover have "pool_keeps N p p'" using b(2) by (auto simp: pool_keeps_def p'_def)
  ultimately show ?thesis using pb f(1) by (auto simp: on_buffer_def p'_def)
qed

lemma acquire_n_ok:
  assumes "pool_ok M p" and "alloc_spec (ue_alloc e)"
  shows "\<exists>bs p'. acquire_n e n p = Inr (bs, p') \<and> length bs = n \<and> distinct bs \<and> set bs \<inter> set_mset M = {}
    \<and> pool_ok (mset bs + M) p' \<and> pool_keeps M p p'"
  using assms(1)
proof (induction n arbitrary: M p)
  case (Suc n)
  obtain b p1 where b: "Acquire (ue_mem e) (ue_alloc e p) p = Inr (b, p1)" "pool_ok (add_mset b M) p1" "pool_keeps M p p1" "b \<notin># M"
    using Acquire_ok [OF Suc.prems assms(2)] by blast
  obtain bs p2 where bs: "acquire_n e n p1 = Inr (bs, p2)" "length bs = n" "distinct bs"
      "set bs \<inter> set_mset (add_mset b M) = {}" "pool_ok (mset bs + add_mset b M) p2" "pool_keeps (add_mset b M) p1 p2"
    using Suc.IH [OF b(2)] by blast
  have "pool_keeps M p p2" using b(3) bs(6) by (simp add: pool_keeps_def)
  with b bs show ?case by (intro exI [of _ "b # bs"] exI [of _ p2]) auto
qed simp

lemma release_all_ok:
  "pool_ok (mset bs + M) p \<Longrightarrow> \<exists>p'. release_all bs p = Inr p' \<and> pool_ok M p' \<and> pool_keeps M p p'"
proof (induction bs arbitrary: p)
  case (Cons b bs)
  obtain p1 where p1: "release b p = Inr p1" "pool_ok (mset bs + M) p1" "pool_keeps (mset bs + M) p p1"
    using release_ok [of b "mset bs + M" p] Cons.prems by auto
  obtain p2 where "release_all bs p1 = Inr p2" "pool_ok M p2" "pool_keeps M p1 p2" using Cons.IH [OF p1(2)] by blast
  then show ?case using p1(1) pool_keeps_trans [OF pool_keeps_mono [OF p1(3), of M]] by auto
qed simp

text \<open>After the kernel has stored its messages each buffer starts with its message, cut to the capacity.\<close>

definition holds_payload :: "pool \<Rightarrow> nat \<Rightarrow> udp_msg \<Rightarrow> bool" where
  "holds_payload p b m \<longleftrightarrow> (\<exists>pb. pool_heap p b = Some pb
     \<and> take (length (msg_payload m)) (pb_data pb) = take (pb_capacity pb) (msg_payload m))"

lemma store_payload_ok:
  assumes "pb_inv n pb"
  shows "\<exists>pb'. store_payload m pb = Inr pb' \<and> pb_inv n pb'
    \<and> take (length (msg_payload m)) (pb_data pb') = take (pb_capacity pb') (msg_payload m)"
  using assms by (auto simp: store_payload_def pb_inv_def overwrite_def min_def)

lemma kernel_fill_ok:
  "pool_ok (mset bs + M) p \<Longrightarrow> distinct bs \<Longrightarrow> set bs \<inter> set_mset M = {} \<Longrightarrow> length ms \<le> length bs \<Longrightarrow>
   \<exists>p'. kernel_fill bs ms p = Inr p' \<and> pool_ok (mset bs + M) p' \<and> pool_keeps M p p'
     \<and> list_all2 (holds_payload p') (take (length ms) bs) ms"
proof (induction bs ms p arbitrary: M rule: kernel_fill.induct)
  case (3 b bs m ms p)
  obtain pb where pb: "pool_heap p b = Some pb" "pb_inv (pool_buffer_size p) pb"
    using pool_ok_held [OF "3.prems"(1), of b] by auto
  obtain pb' where pb': "store_payload m pb = Inr pb'" "pb_inv (pool_buffer_size p) pb'"
      "take (length (msg_payload m)) (pb_data pb') = take (pb_capacity pb') (msg_payload m)"
    using store_payload_ok [OF pb(2)] by blast
  have new: "b \<notin># M" using "3.prems"(3) by auto
  obtain p1 where p1: "on_buffer b (store_payload m) p = Inr p1" "pool_ok (mset (b # bs) + M) p1" "pool_keeps M p p1"
      "pool_heap p1 = (pool_heap p)(b \<mapsto> pb')"
    using on_buffer_ok [where f = "store_payload m", OF "3.prems"(1) _ new pb(1) pb'(1,2)] by auto
  have "pool_ok (mset bs + add_mset b M) p1" "distinct bs" "set bs \<inter> set_mset (add_mset b M) = {}" "length ms \<le> length bs"
    using p1(2) "3.prems" by auto
  from "3.IH" [OF this] obtain p2 where p2: "kernel_fill bs ms p1 = Inr p2" "pool_ok (mset bs + add_mset b M) p2"
      "pool_keeps (add_mset b M) p1 p2" "list_all2 (holds_payload p2) (take (length ms) bs) ms"
    by auto
  have "holds_payload p2 b m" using p2(3) p1(4) pb'(3) by (auto simp: pool_keeps_def holds_payload_def)
  moreover have "pool_keeps M p p2" using p1(3) p2(3) by (simp add: pool_keeps_def)
  ultimately show ?case using p1(1) p2 by (auto simp: ac_simps)
qed simp_all

section \<open>Invariant\<close>

definition kept_buffers :: "('u, 'k) udp_receiver \<Rightarrow> nat multiset" where
  "kept_buffers s = image_mset (\<lambda>(dg, d). dg_buffer dg) (mset (ur_kept s))"

text \<open>
  The receiver with buffers \<open>F\<close> in flight: the socket is registered for reading exactly when the
  receiver is started; every reference to a buffer is in flight or kept by the application; what
  the application keeps still has its payload.
\<close>

definition ur_inv :: "('k \<Rightarrow> int \<rightharpoonup> epoll_event) \<Rightarrow> nat multiset \<Rightarrow> ('u, 'k) udp_receiver \<Rightarrow> bool" where
  "ur_inv interest F s \<longleftrightarrow> poller_inv interest s
     \<and> (\<exists>ch. p_chans s (ur_chan s) = Some ch \<and> ch_fd ch = ur_fd s
          \<and> (if ur_started s then ch_index ch = kAdded \<and> is_reading ch else ch_index ch \<noteq> kAdded \<and> is_none_event ch))
     \<and> pool_ok (F + kept_buffers s) (ur_pool s)
     \<and> (\<forall>(dg, d) \<in> set (ur_kept s). dg_data (ur_pool s) dg = Inr d)"

text \<open>What the callback leaves alone, buffers \<open>F\<close> being in flight.\<close>

definition ur_frame :: "nat multiset \<Rightarrow> ('u, 'k) udp_receiver \<Rightarrow> ('u, 'k) udp_receiver \<Rightarrow> bool" where
  "ur_frame F s s' \<longleftrightarrow> p_loop_tid s' = p_loop_tid s \<and> ur_fd s' = ur_fd s \<and> ur_chan s' = ur_chan s
     \<and> ur_max_packets_per_read s' = ur_max_packets_per_read s \<and> ur_message_callback s' = ur_message_callback s
     \<and> ur_delivered s' = ur_delivered s \<and> pool_keeps F (ur_pool s) (ur_pool s')"

lemma ur_invD:
  assumes "ur_inv interest F s"
  shows "poller_inv interest s" "pool_ok (F + kept_buffers s) (ur_pool s)"
    "(dg, d) \<in> set (ur_kept s) \<Longrightarrow> dg_data (ur_pool s) dg = Inr d"
  using assms by (auto simp: ur_inv_def)

lemma ur_inv_chan:
  assumes "ur_inv interest F s"
  obtains ch where "p_chans s (ur_chan s) = Some ch" "ch_fd ch = ur_fd s"
    "if ur_started s then ch_index ch = kAdded \<and> is_reading ch else ch_index ch \<noteq> kAdded \<and> is_none_event ch"
  using assms unfolding ur_inv_def by blast

lemma ur_frame_refl [simp]: "ur_frame F s s"
  by (simp add: ur_frame_def)

lemma ur_frame_trans: "ur_frame F s t \<Longrightarrow> ur_frame F t u \<Longrightarrow> ur_frame F s u"
  by (simp add: ur_frame_def pool_keeps_def)

lemma dg_data_keeps: "pool_keeps M p p' \<Longrightarrow> dg_buffer dg \<in># M \<Longrightarrow> dg_data p' dg = dg_data p dg"
  by (simp add: pool_keeps_def dg_data_def)

lemma kept_in_buffers: "(dg, d) \<in> set (ur_kept s) \<Longrightarrow> dg_buffer dg \<in># kept_buffers s"
  by (force simp: kept_buffers_def)

lemma kept_buffers_fields [simp]:
  "kept_buffers (s\<lparr>ur_pool := p\<rparr>) = kept_buffers s" "kept_buffers (s\<lparr>ur_started := b\<rparr>) = kept_buffers s"
  "kept_buffers (s\<lparr>ur_delivered := l\<rparr>) = kept_buffers s" "kept_buffers (s\<lparr>p_chans := cs\<rparr>) = kept_buffers s"
  "kept_buffers (s\<lparr>p_channels := m\<rparr>) = kept_buffers s" "kept_buffers (s\<lparr>p_kernel := k\<rparr>) = kept_buffers s"
  by (simp_all add: kept_buffers_def)

lemma ur_inv_delivered [simp]: "ur_inv interest F (s\<lparr>ur_delivered := l\<rparr>) = ur_inv interest F s"
  by (simp add: ur_inv_def poller_inv_cong [of "s\<lparr>ur_delivered := l\<rparr>" s])

text \<open>A change of the pool that keeps the application's buffers.\<close>

lemma ur_inv_pool:
  assumes inv: "ur_inv interest F s" and ok: "pool_ok (G + kept_buffers s) p" and keeps: "pool_keeps (kept_buffers s) (ur_pool s) p"
  shows "ur_inv interest G (s\<lparr>ur_pool := p\<rparr>)"
proof -
  have "dg_data p dg = Inr d" if "(dg, d) \<in> set (ur_kept s)" for dg d
    using that ur_invD(3) [OF inv that] dg_data_keeps [OF keeps kept_in_buffers [OF that]] by simp
  moreover have "poller_inv interest (s\<lparr>ur_pool := p\<rparr>)"
    using ur_invD(1) [OF inv] poller_inv_cong [of "s\<lparr>ur_pool := p\<rparr>" s] by simp
  ultimately show ?thesis using inv ok by (auto simp: ur_inv_def)
qed

text \<open>A change of the loop's side: the channel and the kernel.\<close>

lemma ur_inv_loop:
  assumes inv: "ur_inv interest F s"
    and p: "poller_inv interest (s\<lparr>p_chans := (p_chans s)(ur_chan s \<mapsto> ch), p_channels := m, p_kernel := k\<rparr>)"
    and ch: "ch_fd ch = ur_fd s" "if st then ch_index ch = kAdded \<and> is_reading ch else ch_index ch \<noteq> kAdded \<and> is_none_event ch"
  shows "ur_inv interest F (s\<lparr>p_chans := (p_chans s)(ur_chan s \<mapsto> ch), p_channels := m, p_kernel := k, ur_started := st\<rparr>)"
    (is "ur_inv interest F ?s")
proof -
  have "poller_inv interest ?s" using p by (subst poller_inv_cong) simp_all
  then show ?thesis using inv ch by (simp add: ur_inv_def)
qed

lemma Start_ok:
  assumes "epoll_ctl_spec (ue_ctl e) interest" "ur_inv interest F s" "ue_tid e = p_loop_tid s" "ur_message_callback s \<noteq> None"
  shows "\<exists>s'. Start e s = Inr s' \<and> ur_inv interest F s' \<and> ur_started s' \<and> ur_frame G s s' \<and> ur_kept s' = ur_kept s"
proof (cases "ur_started s")
  case False
  obtain ch where ch: "p_chans s (ur_chan s) = Some ch" "ch_fd ch = ur_fd s" "ch_index ch \<noteq> kAdded"
    using ur_inv_chan [OF assms(2)] False by auto
  obtain k m ch' where s1: "EnableReading (ue_ctl e) (ue_tid e) (ur_chan s) s =
        Inr (s\<lparr>p_chans := (p_chans s)(ur_chan s \<mapsto> ch'), p_channels := m, p_kernel := k\<rparr>)"
      "ch_events ch' = ch_events (set_reading ch)" "ch_fd ch' = ch_fd ch" "ch_index ch' = kAdded"
      "poller_inv interest (s\<lparr>p_chans := (p_chans s)(ur_chan s \<mapsto> ch'), p_channels := m, p_kernel := k\<rparr>)"
    using run_setter_Inr [OF assms(1) ur_invD(1) [OF assms(2)] ch(1) assms(3), of SetReading] ch(3) by auto
  have "is_reading ch'" using is_reading_events [OF s1(2)] by simp
  with ur_inv_loop [OF assms(2) s1(5), of True] s1(1,3,4) ch(2) False assms(3,4)
  show ?thesis by (auto simp: Start_def AssertInLoopThread_def ur_frame_def)
qed (use assms in \<open>simp add: Start_def AssertInLoopThread_def\<close>)

lemma Stop_ok:
  assumes "epoll_ctl_spec (ue_ctl e) interest" "ur_inv interest F s" "ue_tid e = p_loop_tid s"
  shows "\<exists>s'. Stop e s = Inr s' \<and> ur_inv interest F s' \<and> \<not> ur_started s' \<and> ur_frame G s s' \<and> ur_kept s' = ur_kept s"
proof (cases "ur_started s")
  case True
  obtain ch where ch: "p_chans s (ur_chan s) = Some ch" "ch_fd ch = ur_fd s"
    using ur_inv_chan [OF assms(2)] by blast
  obtain k m ch' where s1: "bindE (DisableAll (ue_ctl e) (ue_tid e) (ur_chan s) s) (Remove (ue_ctl e) (ue_tid e) (ur_chan s)) =
        Inr (s\<lparr>p_chans := (p_chans s)(ur_chan s \<mapsto> ch'), p_channels := m, p_kernel := k\<rparr>)"
      "is_none_event ch'" "ch_fd ch' = ch_fd ch" "ch_index ch' \<noteq> kAdded"
      "poller_inv interest (s\<lparr>p_chans := (p_chans s)(ur_chan s \<mapsto> ch'), p_channels := m, p_kernel := k\<rparr>)"
    using teardown_Inr [OF assms(1) ur_invD(1) [OF assms(2)] ch(1) assms(3)] by auto
  with ur_inv_loop [OF assms(2) s1(5), of False] ch(2) True assms(3)
  show ?thesis by (auto simp: Stop_def AssertInLoopThread_def ur_frame_def)
qed (use assms in \<open>simp add: Stop_def AssertInLoopThread_def\<close>)

section \<open>The read loop under the callback's contract\<close>

text \<open>What the application sees of a delivered datagram, and what it should see of a message.\<close>

definition udp_view :: "udp_datagram \<times> u8 list \<Rightarrow> u8 list \<times> sockaddr_in \<times> Timestamp \<times> nat \<times> bool" where
  "udp_view x = (case x of (dg, d) \<Rightarrow> (d, dg_peer dg, dg_receive_time dg, dg_original_size dg, dg_truncated dg))"

definition expected_view :: "Timestamp \<Rightarrow> nat \<Rightarrow> udp_msg \<Rightarrow> u8 list \<times> sockaddr_in \<times> Timestamp \<times> nat \<times> bool" where
  "expected_view t cap m =
     (take cap (msg_payload m), msg_peer m, t, length (msg_payload m), msg_trunc m \<or> cap < length (msg_payload m))"

text \<open>\<open>recvmmsg\<close> returns no more messages than it was offered slots.\<close>

definition recvmmsg_spec :: "recvmmsg_call \<Rightarrow> bool" where
  "recvmmsg_spec r \<longleftrightarrow> (\<forall>n ms. r n = Recv ms \<longrightarrow> length ms \<le> n)"

text \<open>
  The messages one event should read, without buffers: batch after batch until a batch is short,
  the socket is drained or the limit is reached.
\<close>

fun read_spec :: "nat \<Rightarrow> nat \<Rightarrow> recvmmsg_call list \<Rightarrow> udp_msg list option" where
  "read_spec limit n [] = (if n < limit then None else Some [])"
| "read_spec limit n (r # rs) =
     (if n < limit
      then (case r (min (limit - n) kDefaultMaxPacketPerRead) of
              RecvErr err \<Rightarrow> if err = EINTR then read_spec limit n rs else Some []
            | Recv ms \<Rightarrow> if length ms < min (limit - n) kDefaultMaxPacketPerRead then Some ms
                         else map_option (append ms) (read_spec limit (n + length ms) rs))
      else Some [])"

text \<open>
  What the callback makes of \<open>started_\<close>: \<open>g x st\<close> is its value after the delivery of \<open>x\<close>. The loop
  goes on after every delivery but the last, so the receiver is started after each of these.
\<close>

fun went_on :: "('x \<Rightarrow> bool \<Rightarrow> bool) \<Rightarrow> bool \<Rightarrow> 'x list \<Rightarrow> bool" where
  "went_on g st [] \<longleftrightarrow> True"
| "went_on g st (x # xs) \<longleftrightarrow> xs = [] \<or> g x st \<and> went_on g (g x st) xs"

definition handed :: "('x \<Rightarrow> bool \<Rightarrow> bool) \<Rightarrow> bool \<Rightarrow> 'x list \<Rightarrow> bool \<Rightarrow> bool" where
  "handed g st xs st' \<longleftrightarrow> st' = fold g xs st \<and> went_on g st xs"

lemma handed_Nil [simp]: "handed g st [] st' \<longleftrightarrow> st' = st"
  by (simp add: handed_def)

lemma handed_Cons: "handed g (g x st) xs st' \<Longrightarrow> g x st \<or> xs = [] \<Longrightarrow> handed g st (x # xs) st'"
  by (auto simp: handed_def)

lemma handed_append: "handed g st xs st1 \<Longrightarrow> st1 \<or> xs = [] \<Longrightarrow> handed g st1 ys st' \<Longrightarrow> handed g st (xs @ ys) st'"
proof (induction xs arbitrary: st)
  case (Cons x xs)
  show ?case
  proof (cases "xs = []")
    case False
    with Cons.prems have "handed g (g x st) xs st1" "g x st" "st1" by (auto simp: handed_def)
    then show ?thesis using Cons.IH [OF _ _ Cons.prems(3)] by (auto intro: handed_Cons)
  qed (use Cons.prems in \<open>auto simp: handed_def\<close>)
qed simp

text \<open>
  A callback that may keep and drop datagrams, start and stop the receiver, but neither replaces
  the callback nor touches the buffers still in flight.
\<close>

locale udp_user =
  fixes interest :: "'k \<Rightarrow> int \<rightharpoonup> epoll_event" and e :: "'k ur_env"
    and call :: "'u \<Rightarrow> udp_datagram \<Rightarrow> ('u, 'k) ur_op" and starts :: "'u \<Rightarrow> udp_datagram \<times> u8 list \<Rightarrow> bool \<Rightarrow> bool"
  assumes call_ok: "epoll_ctl_spec (ue_ctl e) interest \<Longrightarrow> ur_inv interest F s \<Longrightarrow> ue_tid e = p_loop_tid s \<Longrightarrow>
    dg_buffer dg \<in># F \<Longrightarrow> ur_message_callback s = Some f \<Longrightarrow>
    \<exists>s'. call f dg s = Inr s' \<and> ur_inv interest F s' \<and> ur_frame F s s'
      \<and> set_mset (kept_buffers s') \<subseteq> insert (dg_buffer dg) (set_mset (kept_buffers s))
      \<and> (\<forall>d. dg_data (ur_pool s) dg = Inr d \<longrightarrow> ur_started s' = starts f (dg, d) (ur_started s))"
begin

text \<open>One datagram: size it, call, release.\<close>

lemma deliver_one:
  assumes spec: "epoll_ctl_spec (ue_ctl e) interest" and inv: "ur_inv interest (add_mset b F) s"
    and t: "ue_tid e = p_loop_tid s" and f: "ur_message_callback s = Some f"
    and new: "b \<notin># F" "b \<notin># kept_buffers s" and m: "holds_payload (ur_pool s) b m"
  shows "\<exists>s' x. (\<forall>bs ms left. deliver call time (b # bs) (m # ms) left s =
        (if ur_started s' then deliver call time bs ms left s' else Inr (False, left @ bs, s')))
    \<and> ur_inv interest F s' \<and> ur_frame F (s\<lparr>ur_delivered := ur_delivered s @ [x]\<rparr>) s'
    \<and> udp_view x = expected_view time (pool_buffer_size (ur_pool s)) m
    \<and> set_mset (kept_buffers s') \<subseteq> insert b (set_mset (kept_buffers s)) \<and> ur_started s' = starts f x (ur_started s)"
proof -
  let ?n = "pool_buffer_size (ur_pool s)"
  note ok = ur_invD(2) [OF inv]
  obtain pb where pb: "pool_heap (ur_pool s) b = Some pb" "pb_inv ?n pb" using pool_ok_held [OF ok, of b] by auto
  define size where "size = min (length (msg_payload m)) (pb_capacity pb)"
  define dg where "dg = \<lparr>dg_buffer = b, dg_peer = msg_peer m, dg_receive_time = time,
      dg_original_size = length (msg_payload m), dg_truncated = (msg_trunc m \<or> length (msg_payload m) > pb_capacity pb)\<rparr>"
  define d where "d = take ?n (msg_payload m)"
  have cap: "pb_capacity pb = ?n" "length (pb_data pb) = ?n" using pb(2) by (simp_all add: pb_inv_def)
  have fresh: "b \<notin># F + kept_buffers s" using new by simp
  have "set_size size pb = Inr (pb\<lparr>pb_size := size\<rparr>)" "pb_inv ?n (pb\<lparr>pb_size := size\<rparr>)"
    using pb(2) by (auto simp: set_size_def size_def pb_inv_def)
  with on_buffer_ok [OF ok _ fresh pb(1)] obtain p where p: "on_buffer b (set_size size) (ur_pool s) = Inr p"
      "pool_ok (add_mset b F + kept_buffers s) p" "pool_keeps (F + kept_buffers s) (ur_pool s) p"
      "pool_heap p = (pool_heap (ur_pool s))(b \<mapsto> pb\<lparr>pb_size := size\<rparr>)"
    by auto
  have take: "take (length (msg_payload m)) (pb_data pb) = take ?n (msg_payload m)"
    using m pb(1) cap by (auto simp: holds_payload_def)
  have "take size (pb_data pb) = take ?n (take (length (msg_payload m)) (pb_data pb))"
    by (simp add: size_def cap min.commute)
  then have data: "dg_data p dg = Inr d"
    using p(4) unfolding take by (simp add: dg_data_def dg_def d_def)
  define s1 where "s1 = s\<lparr>ur_pool := p, ur_delivered := ur_delivered s @ [(dg, d)]\<rparr>"
  have k1: "pool_keeps (kept_buffers s) (ur_pool s) p" and kF: "pool_keeps F (ur_pool s) p"
    using p(3) by (simp_all add: pool_keeps_def)
  have inv1: "ur_inv interest (add_mset b F) s1"
    unfolding s1_def ur_inv_delivered by (rule ur_inv_pool [OF inv p(2) k1])
  obtain s2 where s2: "call f dg s1 = Inr s2" "ur_inv interest (add_mset b F) s2" "ur_frame (add_mset b F) s1 s2"
      "set_mset (kept_buffers s2) \<subseteq> insert b (set_mset (kept_buffers s))" "ur_started s2 = starts f (dg, d) (ur_started s)"
    using call_ok [OF spec inv1, of dg f] t f data by (auto simp: s1_def dg_def)
  obtain q where q: "release b (ur_pool s2) = Inr q" "pool_ok (F + kept_buffers s2) q" "pool_keeps (F + kept_buffers s2) (ur_pool s2) q"
    using release_ok [of b "F + kept_buffers s2" "ur_pool s2"] ur_invD(2) [OF s2(2)] by auto
  define s' where "s' = s2\<lparr>ur_pool := q\<rparr>"
  have inv': "ur_inv interest F s'"
    unfolding s'_def by (rule ur_inv_pool [OF s2(2) q(2)]) (use q(3) in \<open>simp add: pool_keeps_def\<close>)
  have frame: "ur_frame F (s\<lparr>ur_delivered := ur_delivered s @ [(dg, d)]\<rparr>) s'"
    using s2(3) q(3) kF by (simp add: ur_frame_def s1_def s'_def pool_keeps_def)
  have "deliver call time (b # bs) (m # ms) left s =
      (if ur_started s' then deliver call time bs ms left s' else Inr (False, left @ bs, s'))" for bs ms left
    using pb(1) p(1) f data s2(1) q(1) by (simp add: Let_def size_def dg_def s1_def s'_def)
  moreover have "udp_view (dg, d) = expected_view time ?n m"
    using cap by (simp add: udp_view_def expected_view_def dg_def d_def)
  moreover have "set_mset (kept_buffers s') \<subseteq> insert b (set_mset (kept_buffers s))" using s2(4) by (simp add: s'_def)
  moreover have "ur_started s' = starts f (dg, d) (ur_started s)" using s2(5) by (simp add: s'_def)
  ultimately show ?thesis using inv' frame by blast
qed

lemma deliver_ok:
  assumes "epoll_ctl_spec (ue_ctl e) interest" "ur_inv interest (mset bs) s" "ue_tid e = p_loop_tid s" "ur_message_callback s = Some f"
    and "distinct bs" "set bs \<inter> set_mset (kept_buffers s) = {}" "length ms \<le> length bs"
    and "list_all2 (holds_payload (ur_pool s)) (take (length ms) bs) ms"
  shows "\<exists>go left s' xs. deliver call time bs ms [] s = Inr (go, left, s') \<and> ur_inv interest (mset left) s'
    \<and> ur_frame {#} (s\<lparr>ur_delivered := ur_delivered s @ xs\<rparr>) s' \<and> length xs \<le> length ms
    \<and> map udp_view xs = map (expected_view time (pool_buffer_size (ur_pool s))) (take (length xs) ms)
    \<and> (if go then length xs = length ms \<and> (ms = [] \<or> ur_started s') else \<not> ur_started s')
    \<and> handed (starts f) (ur_started s) xs (ur_started s') \<and> (ms \<noteq> [] \<longrightarrow> xs \<noteq> [])"
  using assms(2-8)
proof (induction ms arbitrary: bs s)
  case Nil
  have "s\<lparr>ur_delivered := ur_delivered s\<rparr> = s" by simp
  with Nil show ?case by (intro exI [of _ True] exI [of _ bs] exI [of _ s] exI [of _ "[]"]) simp
next
  case (Cons m ms)
  obtain b bs' where bs: "bs = b # bs'" using Cons.prems(6) by (cases bs) auto
  let ?cap = "pool_buffer_size (ur_pool s)"
  have pre: "ur_inv interest (add_mset b (mset bs')) s" "b \<notin># mset bs'" "b \<notin># kept_buffers s" "holds_payload (ur_pool s) b m"
    using Cons.prems(1,4,5,7) bs by auto
  obtain s1 x where s1: "\<And>bs ms left. deliver call time (b # bs) (m # ms) left s =
        (if ur_started s1 then deliver call time bs ms left s1 else Inr (False, left @ bs, s1))"
      "ur_inv interest (mset bs') s1" "ur_frame (mset bs') (s\<lparr>ur_delivered := ur_delivered s @ [x]\<rparr>) s1"
      "udp_view x = expected_view time ?cap m" "set_mset (kept_buffers s1) \<subseteq> insert b (set_mset (kept_buffers s))"
      "ur_started s1 = starts f x (ur_started s)"
    using deliver_one [OF assms(1) pre(1) Cons.prems(2,3) pre(2-4), of time] by blast
  have f1: "ue_tid e = p_loop_tid s1" "ur_message_callback s1 = Some f" "ur_delivered s1 = ur_delivered s @ [x]"
      "pool_buffer_size (ur_pool s1) = ?cap" "ur_frame {#} (s\<lparr>ur_delivered := ur_delivered s @ [x]\<rparr>) s1"
    using s1(3) Cons.prems(2,3) by (simp_all add: ur_frame_def pool_keeps_def)
  show ?case
  proof (cases "ur_started s1")
    case False
    then show ?thesis using s1 f1(5) bs
      by (intro exI [of _ False] exI [of _ bs'] exI [of _ s1] exI [of _ "[x]"]) (simp add: handed_def)
  next
    case True
    have keep: "\<forall>c \<in> set bs'. pool_heap (ur_pool s1) c = pool_heap (ur_pool s) c"
      using s1(3) by (simp add: ur_frame_def pool_keeps_def)
    have "list_all2 (holds_payload (ur_pool s)) (take (length ms) bs') ms" using Cons.prems(7) bs by simp
    then have "list_all2 (holds_payload (ur_pool s1)) (take (length ms) bs') ms"
      by (rule list.rel_mono_strong) (use keep in \<open>auto simp: holds_payload_def dest: in_set_takeD\<close>)
    moreover have "set bs' \<inter> set_mset (kept_buffers s1) = {}" using s1(5) Cons.prems(4,5) bs by auto
    moreover have "distinct bs'" "length ms \<le> length bs'" using Cons.prems(4,6) bs by simp_all
    ultimately obtain go left s' xs where r: "deliver call time bs' ms [] s1 = Inr (go, left, s')" "ur_inv interest (mset left) s'"
        "ur_frame {#} (s1\<lparr>ur_delivered := ur_delivered s1 @ xs\<rparr>) s'" "length xs \<le> length ms"
        "map udp_view xs = map (expected_view time ?cap) (take (length xs) ms)"
        "if go then length xs = length ms \<and> (ms = [] \<or> ur_started s') else \<not> ur_started s'"
        "handed (starts f) (ur_started s1) xs (ur_started s')"
      using Cons.IH [OF s1(2) f1(1,2)] f1(4) by auto
    have h: "handed (starts f) (ur_started s) (x # xs) (ur_started s')"
      by (rule handed_Cons) (use r(7) s1(6) True in auto)
    have go: "if go then length (x # xs) = length (m # ms) \<and> ur_started s' else \<not> ur_started s'"
      using r(6,7) True by (cases ms) (auto split: if_splits)
    have "ur_frame {#} (s\<lparr>ur_delivered := ur_delivered s @ x # xs\<rparr>) s'"
      using r(3) f1(3,5) by (simp add: ur_frame_def pool_keeps_def)
    moreover have "deliver call time bs (m # ms) [] s = Inr (go, left, s')" using r(1) s1(1) True bs by simp
    moreover have "map udp_view (x # xs) = map (expected_view time ?cap) (take (length (x # xs)) (m # ms))" using r(5) s1(4) by simp
    ultimately show ?thesis using r(2,4) h go
      by (intro exI [of _ go] exI [of _ left] exI [of _ s'] exI [of _ "x # xs"]) (simp del: deliver.simps split: if_splits)
  qed
qed

lemma read_batch_ok:
  assumes spec: "epoll_ctl_spec (ue_ctl e) interest" and alloc: "alloc_spec (ue_alloc e)" and recv: "recvmmsg_spec r"
    and inv: "ur_inv interest {#} s" and t: "ue_tid e = p_loop_tid s" and f: "ur_message_callback s = Some f"
    and batch: "batch = min (ur_max_packets_per_read s - n) kDefaultMaxPacketPerRead" "0 < batch"
  shows "\<exists>again n' s' xs. read_batch e call time r n s = Inr (again, n', s') \<and> ur_inv interest {#} s'
    \<and> ur_frame {#} (s\<lparr>ur_delivered := ur_delivered s @ xs\<rparr>) s'
    \<and> handed (starts f) (ur_started s) xs (ur_started s')
    \<and> (case r batch of
         RecvErr err \<Rightarrow> xs = [] \<and> n' = n \<and> (again \<longleftrightarrow> err = EINTR)
       | Recv ms \<Rightarrow> length xs \<le> length ms \<and> (ms \<noteq> [] \<longrightarrow> xs \<noteq> []) \<and> (again \<longrightarrow> ur_started s')
           \<and> map udp_view xs = map (expected_view time (pool_buffer_size (ur_pool s))) (take (length xs) ms)
           \<and> (if again then n' = n + length ms \<and> length xs = length ms \<and> length ms = batch
              else length xs = length ms \<and> length ms < batch \<or> \<not> ur_started s'))"
proof -
  have ok: "pool_ok (kept_buffers s) (ur_pool s)" using ur_invD(2) [OF inv] by simp
  obtain bs p where acq: "acquire_n e batch (ur_pool s) = Inr (bs, p)" "length bs = batch" "distinct bs"
      "set bs \<inter> set_mset (kept_buffers s) = {}" "pool_ok (mset bs + kept_buffers s) p" "pool_keeps (kept_buffers s) (ur_pool s) p"
    using acquire_n_ok [OF ok alloc] by blast
  obtain q where q: "release_all bs p = Inr q" "pool_ok (kept_buffers s) q" "pool_keeps (kept_buffers s) p q"
    using release_all_ok [OF acq(5)] by blast
  have invq: "ur_inv interest {#} (s\<lparr>ur_pool := q\<rparr>)"
    using q(2) pool_keeps_trans [OF acq(6) q(3)] by (intro ur_inv_pool [OF inv]) simp_all
  have size: "pool_buffer_size q = pool_buffer_size (ur_pool s)" using acq(6) q(3) by (simp add: pool_keeps_def)
  have frameq: "ur_frame {#} (s\<lparr>ur_delivered := ur_delivered s @ []\<rparr>) (s\<lparr>ur_pool := q\<rparr>)"
    using size by (simp add: ur_frame_def pool_keeps_def)
  show ?thesis
  proof (cases "r batch")
    case (RecvErr err)
    then show ?thesis using acq(1) q(1) invq frameq batch(1)
      by (intro exI [of _ "err = EINTR"] exI [of _ n] exI [of _ "s\<lparr>ur_pool := q\<rparr>"] exI [of _ "[]"])
        (simp add: read_batch_def Let_def)
  next
    case (Recv ms)
    have len: "length ms \<le> length bs" using recv Recv acq(2) by (auto simp: recvmmsg_spec_def)
    show ?thesis
    proof (cases "ms = []")
      case True
      then show ?thesis using acq(1) q(1) invq frameq batch Recv
        by (intro exI [of _ False] exI [of _ n] exI [of _ "s\<lparr>ur_pool := q\<rparr>"] exI [of _ "[]"])
          (simp add: read_batch_def Let_def)
    next
      case False
      obtain p1 where p1: "kernel_fill bs ms p = Inr p1" "pool_ok (mset bs + kept_buffers s) p1"
          "pool_keeps (kept_buffers s) p p1" "list_all2 (holds_payload p1) (take (length ms) bs) ms"
        using kernel_fill_ok [OF acq(5,3,4) len] by blast
      define s1 where "s1 = s\<lparr>ur_pool := p1\<rparr>"
      have k1: "pool_keeps (kept_buffers s) (ur_pool s) p1" by (rule pool_keeps_trans [OF acq(6) p1(3)])
      have inv1: "ur_inv interest (mset bs) s1" unfolding s1_def by (rule ur_inv_pool [OF inv p1(2) k1])
      have pre: "ue_tid e = p_loop_tid s1" "ur_message_callback s1 = Some f" "set bs \<inter> set_mset (kept_buffers s1) = {}"
          "list_all2 (holds_payload (ur_pool s1)) (take (length ms) bs) ms"
        using t f acq(4) p1(4) by (simp_all add: s1_def)
      obtain go left s2 xs where d: "deliver call time bs ms [] s1 = Inr (go, left, s2)" "ur_inv interest (mset left) s2"
          "ur_frame {#} (s1\<lparr>ur_delivered := ur_delivered s1 @ xs\<rparr>) s2" "length xs \<le> length ms"
          "map udp_view xs = map (expected_view time (pool_buffer_size (ur_pool s1))) (take (length xs) ms)"
          "if go then length xs = length ms \<and> (ms = [] \<or> ur_started s2) else \<not> ur_started s2"
          "handed (starts f) (ur_started s1) xs (ur_started s2)" "ms \<noteq> [] \<longrightarrow> xs \<noteq> []"
        using deliver_ok [OF spec inv1 pre(1,2) acq(3) pre(3) len pre(4), of time] by blast
      obtain q2 where q2: "release_all left (ur_pool s2) = Inr q2" "pool_ok (kept_buffers s2) q2" "pool_keeps (kept_buffers s2) (ur_pool s2) q2"
        using release_all_ok [OF ur_invD(2) [OF d(2)]] by blast
      define s3 where "s3 = s2\<lparr>ur_pool := q2\<rparr>"
      have inv3: "ur_inv interest {#} s3" using q2 by (auto simp: s3_def intro: ur_inv_pool [OF d(2)])
      have frame: "ur_frame {#} (s\<lparr>ur_delivered := ur_delivered s @ xs\<rparr>) s3"
        using d(3) q2(3) k1 by (simp add: ur_frame_def pool_keeps_def s1_def s3_def)
      have size1: "pool_buffer_size (ur_pool s1) = pool_buffer_size (ur_pool s)"
        using k1 by (simp add: s1_def pool_keeps_def)
      have run: "read_batch e call time r n s = Inr (go \<and> \<not> length ms < batch, n + length ms, s3)"
        using acq(1) Recv False p1(1) d(1) q2(1) batch(1) by (simp add: read_batch_def Let_def s1_def s3_def)
      have h: "handed (starts f) (ur_started s) xs (ur_started s3)" using d(7) by (simp add: s1_def s3_def)
      show ?thesis
        by (rule exI [of _ "go \<and> \<not> length ms < batch"], rule exI [of _ "n + length ms"], rule exI [of _ s3], rule exI [of _ xs])
          (use run inv3 frame h d(4-6,8) False size1 Recv len acq(2) in \<open>auto simp: s3_def split: if_splits\<close>)
    qed
  qed
qed

lemma read_loop_ok:
  assumes spec: "epoll_ctl_spec (ue_ctl e) interest" and alloc: "alloc_spec (ue_alloc e)" and recv: "\<forall>r \<in> set rs. recvmmsg_spec r"
    and "ur_inv interest {#} s" "ue_tid e = p_loop_tid s" "ur_message_callback s = Some f"
    and "read_spec (ur_max_packets_per_read s) n rs = Some ms"
  shows "\<exists>s' xs. read_loop e call time n rs s = Some (Inr s') \<and> ur_inv interest {#} s'
    \<and> ur_frame {#} (s\<lparr>ur_delivered := ur_delivered s @ xs\<rparr>) s' \<and> length xs \<le> length ms
    \<and> map udp_view xs = map (expected_view time (pool_buffer_size (ur_pool s))) (take (length xs) ms)
    \<and> (ur_started s' \<longrightarrow> length xs = length ms) \<and> handed (starts f) (ur_started s) xs (ur_started s') \<and> (ms \<noteq> [] \<longrightarrow> xs \<noteq> [])"
  using assms(3-7)
proof (induction rs arbitrary: n s ms)
  case Nil
  have "s\<lparr>ur_delivered := ur_delivered s @ []\<rparr> = s" by simp
  with Nil show ?case by (intro exI [of _ s] exI [of _ "[]"]) (auto split: if_splits)
next
  case (Cons r rs)
  let ?batch = "min (ur_max_packets_per_read s - n) kDefaultMaxPacketPerRead"
  let ?cap = "pool_buffer_size (ur_pool s)"
  have same: "s\<lparr>ur_delivered := ur_delivered s @ []\<rparr> = s" by simp
  show ?case
  proof (cases "n < ur_max_packets_per_read s")
    case False
    with Cons.prems same show ?thesis by (intro exI [of _ s] exI [of _ "[]"]) auto
  next
    case True
    then have pos: "0 < ?batch" by (simp add: kDefaultMaxPacketPerRead_def)
    have r: "recvmmsg_spec r" using Cons.prems(1) by simp
    obtain again n' s1 xs where b: "read_batch e call time r n s = Inr (again, n', s1)" "ur_inv interest {#} s1"
        "ur_frame {#} (s\<lparr>ur_delivered := ur_delivered s @ xs\<rparr>) s1"
        "case r ?batch of
           RecvErr err \<Rightarrow> xs = [] \<and> n' = n \<and> (again \<longleftrightarrow> err = EINTR)
         | Recv ms \<Rightarrow> length xs \<le> length ms \<and> (ms \<noteq> [] \<longrightarrow> xs \<noteq> []) \<and> (again \<longrightarrow> ur_started s1)
             \<and> map udp_view xs = map (expected_view time ?cap) (take (length xs) ms)
             \<and> (if again then n' = n + length ms \<and> length xs = length ms \<and> length ms = ?batch
                else length xs = length ms \<and> length ms < ?batch \<or> \<not> ur_started s1)"
        "handed (starts f) (ur_started s) xs (ur_started s1)"
      using read_batch_ok [OF spec alloc r Cons.prems(2-4) refl pos] by blast
    have f1: "ue_tid e = p_loop_tid s1" "ur_message_callback s1 = Some f" "ur_delivered s1 = ur_delivered s @ xs"
        "pool_buffer_size (ur_pool s1) = ?cap" "ur_max_packets_per_read s1 = ur_max_packets_per_read s"
      using b(3) Cons.prems(3,4) by (simp_all add: ur_frame_def pool_keeps_def)
    have step: "read_loop e call time n (r # rs) s = (if again then read_loop e call time n' rs s1 else Some (Inr s1))"
      using True b(1) by simp
    show ?thesis
    proof (cases again)
      case False
      have "length xs \<le> length ms \<and> map udp_view xs = map (expected_view time ?cap) (take (length xs) ms)
          \<and> (ur_started s1 \<longrightarrow> length xs = length ms) \<and> (ms \<noteq> [] \<longrightarrow> xs \<noteq> [])"
        using b(4) Cons.prems(5) True False pos by (auto split: recv_result.splits if_splits)
      with step False b(2,3,5) show ?thesis by auto
    next
      case again: True
      obtain ms1 ms2 where ms: "ms = ms1 @ ms2" "read_spec (ur_max_packets_per_read s1) n' rs = Some ms2"
          "length xs = length ms1" "map udp_view xs = map (expected_view time ?cap) ms1" "ur_started s1 \<or> xs = []"
      proof (cases "r ?batch")
        case (RecvErr err)
        then have "read_spec (ur_max_packets_per_read s1) n' rs = Some ms" "xs = []"
          using b(4) Cons.prems(5) True again f1(5) by simp_all
        then show thesis using that [of "[]" ms] by simp
      next
        case (Recv ms1)
        then have m1: "n' = n + length ms1" "length xs = length ms1" "length ms1 = ?batch"
            "map udp_view xs = map (expected_view time ?cap) ms1" "ur_started s1 \<or> xs = []"
          using b(4) again by simp_all
        then obtain ms2 where "read_spec (ur_max_packets_per_read s1) n' rs = Some ms2" "ms = ms1 @ ms2"
          using Cons.prems(5) True Recv f1(5) by auto
        then show thesis using that m1 by blast
      qed
      obtain s2 ys where l: "read_loop e call time n' rs s1 = Some (Inr s2)" "ur_inv interest {#} s2"
          "ur_frame {#} (s1\<lparr>ur_delivered := ur_delivered s1 @ ys\<rparr>) s2" "length ys \<le> length ms2"
          "map udp_view ys = map (expected_view time ?cap) (take (length ys) ms2)" "ur_started s2 \<longrightarrow> length ys = length ms2"
          "handed (starts f) (ur_started s1) ys (ur_started s2)" "ms2 \<noteq> [] \<longrightarrow> ys \<noteq> []"
        using Cons.IH [OF _ b(2) f1(1,2) ms(2)] Cons.prems(1) f1(4) by auto
      have "ur_frame {#} (s\<lparr>ur_delivered := ur_delivered s @ xs @ ys\<rparr>) s2"
        using l(3) b(3) f1(3) by (simp add: ur_frame_def pool_keeps_def)
      moreover have "handed (starts f) (ur_started s) (xs @ ys) (ur_started s2)" by (rule handed_append [OF b(5) ms(5) l(7)])
      moreover have "ms \<noteq> [] \<longrightarrow> xs @ ys \<noteq> []" using ms(1,3) l(8) by auto
      ultimately show ?thesis using step again l(1,2,4-6) ms(1,3,4) by (intro exI [of _ s2] exI [of _ "xs @ ys"]) simp
    qed
  qed
qed

end

section \<open>An application\<close>

text \<open>
  Callbacks that decide from the datagram what to do: keep a copy of the handle (as the tests do,
  which store the datagrams they receive), drop the oldest kept one, stop or start the receiver.
\<close>

datatype udp_action = Keep | DropOldest | StopReceiver | StartReceiver

type_synonym udp_callback = "udp_datagram \<Rightarrow> u8 list \<Rightarrow> udp_action list"

definition keep_datagram :: "udp_datagram \<Rightarrow> ('u, 'k) ur_op" where
  "keep_datagram dg s =
     bindE (dg_data (ur_pool s) dg) (\<lambda>d.
       Inr (s\<lparr>ur_pool := share (dg_buffer dg) (ur_pool s), ur_kept := ur_kept s @ [(dg, d)]\<rparr>))"

definition drop_oldest :: "('u, 'k) ur_op" where
  "drop_oldest s =
     (case ur_kept s of
        [] \<Rightarrow> Inr s
      | (dg, d) # rest \<Rightarrow> bindE (release (dg_buffer dg) (ur_pool s)) (\<lambda>p. Inr (s\<lparr>ur_pool := p, ur_kept := rest\<rparr>)))"

fun udp_act :: "'k ur_env \<Rightarrow> udp_datagram \<Rightarrow> udp_action \<Rightarrow> ('u, 'k) ur_op" where
  "udp_act e dg Keep = keep_datagram dg"
| "udp_act e dg DropOldest = drop_oldest"
| "udp_act e dg StopReceiver = Stop e"
| "udp_act e dg StartReceiver = Start e"

fun udp_acts :: "'k ur_env \<Rightarrow> udp_datagram \<Rightarrow> udp_action list \<Rightarrow> ('u, 'k) ur_op" where
  "udp_acts e dg [] s = Inr s"
| "udp_acts e dg (a # as) s = bindE (udp_act e dg a s) (udp_acts e dg as)"

definition udp_call :: "'k ur_env \<Rightarrow> udp_callback \<Rightarrow> udp_datagram \<Rightarrow> (udp_callback, 'k) ur_op" where
  "udp_call e f dg s = bindE (dg_data (ur_pool s) dg) (\<lambda>d. udp_acts e dg (f dg d) s)"

text \<open>Whether the receiver is started after the actions that a callback takes on a datagram.\<close>

fun udp_act_starts :: "udp_action \<Rightarrow> bool \<Rightarrow> bool" where
  "udp_act_starts StopReceiver st = False"
| "udp_act_starts StartReceiver st = True"
| "udp_act_starts Keep st = st"
| "udp_act_starts DropOldest st = st"

definition udp_starts :: "udp_callback \<Rightarrow> udp_datagram \<times> u8 list \<Rightarrow> bool \<Rightarrow> bool" where
  "udp_starts f x = fold udp_act_starts (f (fst x) (snd x))"

lemma ur_inv_app:
  assumes inv: "ur_inv interest F s" and ok: "pool_ok (F + image_mset (\<lambda>(dg, d). dg_buffer dg) (mset ks)) p"
    and ks: "\<And>dg d. (dg, d) \<in> set ks \<Longrightarrow> dg_data p dg = Inr d"
  shows "ur_inv interest F (s\<lparr>ur_pool := p, ur_kept := ks\<rparr>)"
proof -
  have "poller_inv interest (s\<lparr>ur_pool := p, ur_kept := ks\<rparr>)"
    using ur_invD(1) [OF inv] by (subst poller_inv_cong) simp_all
  then show ?thesis using inv ok ks by (auto simp: ur_inv_def kept_buffers_def)
qed

lemma drop_oldest_ok:
  assumes inv: "ur_inv interest F s"
  shows "\<exists>s'. drop_oldest s = Inr s' \<and> ur_inv interest F s' \<and> ur_frame F s s' \<and> kept_buffers s' \<subseteq># kept_buffers s
    \<and> ur_started s' = ur_started s"
proof (cases "ur_kept s")
  case Nil
  then show ?thesis using inv by (simp add: drop_oldest_def)
next
  case (Cons x rest)
  obtain dg d where x: "x = (dg, d)" by (cases x)
  let ?K = "image_mset (\<lambda>(dg, d). dg_buffer dg) (mset rest)"
  have K: "kept_buffers s = add_mset (dg_buffer dg) ?K" by (simp add: kept_buffers_def Cons x)
  have "pool_ok (add_mset (dg_buffer dg) (F + ?K)) (ur_pool s)" using ur_invD(2) [OF inv] by (simp add: K)
  then obtain p where p: "release (dg_buffer dg) (ur_pool s) = Inr p" "pool_ok (F + ?K) p" "pool_keeps (F + ?K) (ur_pool s) p"
    using release_ok by blast
  define s' where "s' = s\<lparr>ur_pool := p, ur_kept := rest\<rparr>"
  have "dg_data p dg' = Inr d'" if y: "(dg', d') \<in> set rest" for dg' d'
  proof -
    have "dg_buffer dg' \<in># F + ?K" using y by force
    moreover have "(dg', d') \<in> set (ur_kept s)" using y by (simp add: Cons)
    ultimately show ?thesis using ur_invD(3) [OF inv] dg_data_keeps [OF p(3)] by metis
  qed
  then have "ur_inv interest F s'" using ur_inv_app [OF inv p(2)] by (simp add: s'_def)
  moreover have "ur_frame F s s'" using p(3) by (simp add: ur_frame_def pool_keeps_def s'_def)
  moreover have "kept_buffers s' \<subseteq># kept_buffers s" by (simp add: K) (simp add: kept_buffers_def s'_def)
  moreover have "drop_oldest s = Inr s'" "ur_started s' = ur_started s" using p(1) by (simp_all add: drop_oldest_def Cons x s'_def)
  ultimately show ?thesis by blast
qed

lemma keep_datagram_ok:
  assumes inv: "ur_inv interest F s" and b: "dg_buffer dg \<in># F"
  shows "\<exists>s'. keep_datagram dg s = Inr s' \<and> ur_inv interest F s' \<and> ur_frame F s s'
    \<and> kept_buffers s' = add_mset (dg_buffer dg) (kept_buffers s) \<and> ur_started s' = ur_started s"
proof -
  obtain pb where pb: "pool_heap (ur_pool s) (dg_buffer dg) = Some pb"
    using pool_ok_held [OF ur_invD(2) [OF inv], of "dg_buffer dg"] b by auto
  define d where "d = take (pb_size pb) (pb_data pb)"
  define s' where "s' = s\<lparr>ur_pool := share (dg_buffer dg) (ur_pool s), ur_kept := ur_kept s @ [(dg, d)]\<rparr>"
  have data: "dg_data (ur_pool s) dg = Inr d" by (simp add: dg_data_def pb d_def)
  have K: "kept_buffers s' = add_mset (dg_buffer dg) (kept_buffers s)" by (simp add: kept_buffers_def s'_def)
  have sh: "pool_ok (add_mset (dg_buffer dg) (F + kept_buffers s)) (share (dg_buffer dg) (ur_pool s))"
      "pool_heap (share (dg_buffer dg) (ur_pool s)) = pool_heap (ur_pool s)"
      "pool_buffer_size (share (dg_buffer dg) (ur_pool s)) = pool_buffer_size (ur_pool s)"
    using share_ok [OF ur_invD(2) [OF inv], of "dg_buffer dg"] b by auto
  have same: "dg_data (share (dg_buffer dg) (ur_pool s)) x = dg_data (ur_pool s) x" for x by (simp add: dg_data_def sh(2))
  have "ur_inv interest F s'" unfolding s'_def
    by (rule ur_inv_app [OF inv]) (use sh(1) data ur_invD(3) [OF inv] in \<open>auto simp: same kept_buffers_def\<close>)
  moreover have "ur_frame F s s'" using sh by (simp add: ur_frame_def pool_keeps_def s'_def)
  moreover have "keep_datagram dg s = Inr s'" "ur_started s' = ur_started s" by (simp_all add: keep_datagram_def data s'_def)
  ultimately show ?thesis using K by blast
qed

lemma udp_act_ok:
  assumes "epoll_ctl_spec (ue_ctl e) interest" "ur_inv interest F s" "ue_tid e = p_loop_tid s"
    "dg_buffer dg \<in># F" "ur_message_callback s \<noteq> None"
  shows "\<exists>s'. udp_act e dg a s = Inr s' \<and> ur_inv interest F s' \<and> ur_frame F s s'
    \<and> set_mset (kept_buffers s') \<subseteq> insert (dg_buffer dg) (set_mset (kept_buffers s)) \<and> ur_started s' = udp_act_starts a (ur_started s)"
proof (cases a)
  case Keep
  then show ?thesis using keep_datagram_ok [OF assms(2,4)] by fastforce
next
  case DropOldest
  then show ?thesis using drop_oldest_ok [OF assms(2)] set_mset_mono by fastforce
next
  case StopReceiver
  then show ?thesis using Stop_ok [OF assms(1-3), of F] by (auto simp: kept_buffers_def)
next
  case StartReceiver
  then show ?thesis using Start_ok [OF assms(1-3,5), of F] by (auto simp: kept_buffers_def)
qed

lemma udp_acts_ok:
  assumes "epoll_ctl_spec (ue_ctl e) interest" "ur_inv interest F s" "ue_tid e = p_loop_tid s"
    "dg_buffer dg \<in># F" "ur_message_callback s \<noteq> None"
  shows "\<exists>s'. udp_acts e dg as s = Inr s' \<and> ur_inv interest F s' \<and> ur_frame F s s'
    \<and> set_mset (kept_buffers s') \<subseteq> insert (dg_buffer dg) (set_mset (kept_buffers s)) \<and> ur_started s' = fold udp_act_starts as (ur_started s)"
  using assms(2,3,5)
proof (induction as arbitrary: s)
  case (Cons a as)
  obtain s1 where s1: "udp_act e dg a s = Inr s1" "ur_inv interest F s1" "ur_frame F s s1"
      "set_mset (kept_buffers s1) \<subseteq> insert (dg_buffer dg) (set_mset (kept_buffers s))" "ur_started s1 = udp_act_starts a (ur_started s)"
    using udp_act_ok [OF assms(1) Cons.prems(1,2) assms(4) Cons.prems(3)] by blast
  have "ue_tid e = p_loop_tid s1" "ur_message_callback s1 \<noteq> None" using s1(3) Cons.prems by (auto simp: ur_frame_def)
  from Cons.IH [OF s1(2) this] obtain s2 where s2: "udp_acts e dg as s1 = Inr s2" "ur_inv interest F s2" "ur_frame F s1 s2"
      "set_mset (kept_buffers s2) \<subseteq> insert (dg_buffer dg) (set_mset (kept_buffers s1))" "ur_started s2 = fold udp_act_starts as (ur_started s1)"
    by blast
  then show ?case using s1(1,4,5) ur_frame_trans [OF s1(3) s2(3)] by auto
qed auto

interpretation udp: udp_user interest e "udp_call e" udp_starts
proof unfold_locales
  fix s :: "(udp_callback, 'a) udp_receiver" and F and dg :: udp_datagram and f :: udp_callback
  assume a: "epoll_ctl_spec (ue_ctl e) interest" "ur_inv interest F s" "ue_tid e = p_loop_tid s" "dg_buffer dg \<in># F"
    "ur_message_callback s = Some f"
  obtain pb where "pool_heap (ur_pool s) (dg_buffer dg) = Some pb"
    using pool_ok_held [OF ur_invD(2) [OF a(2)], of "dg_buffer dg"] a(4) by auto
  then show "\<exists>s'. udp_call e f dg s = Inr s' \<and> ur_inv interest F s' \<and> ur_frame F s s'
      \<and> set_mset (kept_buffers s') \<subseteq> insert (dg_buffer dg) (set_mset (kept_buffers s))
      \<and> (\<forall>d. dg_data (ur_pool s) dg = Inr d \<longrightarrow> ur_started s' = udp_starts f (dg, d) (ur_started s))"
    using udp_acts_ok [OF a(1-4)] a(5) by (simp add: udp_call_def dg_data_def udp_starts_def)
qed

section \<open>Steps\<close>

text \<open>
  What happens to a receiver on its loop's thread between its construction and destruction: the
  events of its socket, and calls of the application.
\<close>

inductive ur_step :: "'k ur_env \<Rightarrow> (udp_callback, 'k) udp_receiver \<Rightarrow> (udp_callback, 'k) udp_receiver \<Rightarrow> bool" for e where
  ur_set: "ur_step e s (SetMessageCallback f s)"
| ur_start: "Start e s = Inr s' \<Longrightarrow> ur_step e s s'"
| ur_stop: "Stop e s = Inr s' \<Longrightarrow> ur_step e s s'"
| ur_drop: "drop_oldest s = Inr s' \<Longrightarrow> ur_step e s s'"
| ur_read: "\<forall>r \<in> set rs. recvmmsg_spec r \<Longrightarrow> ur_message_callback s = Some f \<Longrightarrow>
     read_spec (ur_max_packets_per_read s) 0 rs = Some ms \<Longrightarrow>
     HandleRead e (udp_call e) time rs s = Some (Inr s') \<Longrightarrow> ur_step e s s'"

lemma udp_HandleRead_ok:
  assumes "epoll_ctl_spec (ue_ctl e) interest" "alloc_spec (ue_alloc e)" "\<forall>r \<in> set rs. recvmmsg_spec r"
    and "ur_inv interest {#} s" "ue_tid e = p_loop_tid s" "ur_message_callback s = Some f"
    and "read_spec (ur_max_packets_per_read s) 0 rs = Some ms"
  shows "\<exists>s' xs. HandleRead e (udp_call e) time rs s = Some (Inr s') \<and> ur_inv interest {#} s'
    \<and> ur_frame {#} (s\<lparr>ur_delivered := ur_delivered s @ xs\<rparr>) s' \<and> length xs \<le> length ms
    \<and> map udp_view xs = map (expected_view time (pool_buffer_size (ur_pool s))) (take (length xs) ms)
    \<and> (ur_started s' \<longrightarrow> length xs = length ms)
    \<and> handed (udp_starts f) (ur_started s) xs (ur_started s') \<and> (ms \<noteq> [] \<longrightarrow> xs \<noteq> [])"
  using udp.read_loop_ok [OF assms] assms(5) by (simp add: HandleRead_def AssertInLoopThread_def)

definition ur_good :: "'k ur_env \<Rightarrow> ('k \<Rightarrow> int \<rightharpoonup> epoll_event) \<Rightarrow> (udp_callback, 'k) udp_receiver \<Rightarrow> bool" where
  "ur_good e interest s \<longleftrightarrow> ur_inv interest {#} s \<and> ue_tid e = p_loop_tid s \<and> alloc_spec (ue_alloc e)
     \<and> epoll_ctl_spec (ue_ctl e) interest"

lemma ur_good_frame: "ur_good e interest s \<Longrightarrow> ur_inv interest {#} s' \<Longrightarrow> ur_frame F s s' \<Longrightarrow> ur_good e interest s'"
  by (simp add: ur_good_def ur_frame_def)

lemma ur_step_good:
  assumes "ur_good e interest s" and "ur_step e s s'"
  shows "ur_good e interest s'"
proof -
  have g: "epoll_ctl_spec (ue_ctl e) interest" "ur_inv interest {#} s" "ue_tid e = p_loop_tid s" "alloc_spec (ue_alloc e)"
    using assms(1) by (simp_all add: ur_good_def)
  from assms(2) show ?thesis
  proof cases
    case (ur_set f)
    have "poller_inv interest s'" using ur_set ur_invD(1) [OF g(2)] by (subst poller_inv_cong [of _ s]) (simp_all add: SetMessageCallback_def)
    with g ur_set show ?thesis by (simp add: ur_good_def ur_inv_def SetMessageCallback_def kept_buffers_def)
  next
    case ur_start
    then have "ur_message_callback s \<noteq> None \<or> s' = s"
      using g(3) by (auto simp: Start_def AssertInLoopThread_def split: if_splits)
    then show ?thesis
    proof
      assume "ur_message_callback s \<noteq> None"
      from Start_ok [OF g(1-3) this, of "{#}"] ur_start show ?thesis using ur_good_frame [OF assms(1)] by auto
    qed (use assms(1) in simp)
  next
    case ur_stop
    with Stop_ok [OF g(1-3), of "{#}"] show ?thesis using ur_good_frame [OF assms(1)] by auto
  next
    case ur_drop
    with drop_oldest_ok [OF g(2)] show ?thesis using ur_good_frame [OF assms(1)] by auto
  next
    case (ur_read rs f ms time)
    with udp_HandleRead_ok [OF g(1,4) ur_read(1) g(2,3) ur_read(2,3), of time]
    have "ur_inv interest {#} s'" "p_loop_tid s' = p_loop_tid s" by (auto simp: ur_frame_def)
    with g show ?thesis by (simp add: ur_good_def)
  qed
qed

interpretation receivers: transition_system "ur_step e" "ur_good e interest"
  by unfold_locales (rule ur_step_good)

lemma new_UdpReceiver_inv:
  assumes new: "new_UdpReceiver sys mem (Some p) a n as m c = Inr s" and inv: "poller_inv interest p"
    and c: "p_chans p c = None" "\<And>d dh. p_chans p d = Some dh \<Longrightarrow> ch_fd dh \<noteq> sys_socket sys" and as: "distinct as"
  shows "ur_inv interest {#} s" "p_loop_tid s = p_loop_tid p"
proof -
  let ?ch = "(new_Channel (sys_socket sys))\<lparr>ch_read_callback := Some ()\<rparr> :: unit channel"
  have fd: "new_UdpSocket (sys_socket sys) = sys_socket sys"
    using new by (auto simp: new_UdpReceiver_def ValidateBufferSize_def ThrowSystemError_def new_UdpSocket_def uf_valid_def Let_def split: if_splits)
  have s: "s = poller.extend (create_channel c ?ch p) (udp_receiver.fields (sys_socket sys) c m (new_PacketBufferPool mem n as) None False [] [])"
    using new unfolding new_UdpReceiver_def Let_def fd ValidateBufferSize_def ThrowSystemError_def by (simp split: if_splits)
  have "poller_inv interest (create_channel c ?ch p)"
    using create_channel_inv [OF inv c(1), of ?ch] c(2) by (auto simp: new_Channel_def kNew_def)
  moreover have "p_chans s = p_chans (create_channel c ?ch p)" "p_kernel s = p_kernel (create_channel c ?ch p)"
    by (simp_all add: s poller.defs udp_receiver.defs)
  ultimately have "poller_inv interest s" using poller_inv_cong by blast
  moreover have "pool_ok {#} (new_PacketBufferPool mem n as)"
    using pool_inv_new [OF as] by (auto simp: pool_ok_def new_PacketBufferPool_def dom_def)
  ultimately show "ur_inv interest {#} s"
    by (simp add: ur_inv_def s poller.defs udp_receiver.defs create_channel_def new_Channel_def kept_buffers_def is_none_event_def kAdded_def)
  show "p_loop_tid s = p_loop_tid p" by (simp add: s poller.defs udp_receiver.defs create_channel_def)
qed

section \<open>Bounds of the specification\<close>

text \<open>A call that was not interrupted.\<close>

definition answers :: "recvmmsg_call \<Rightarrow> bool" where
  "answers r \<longleftrightarrow> (\<forall>n. r n \<noteq> RecvErr EINTR)"

lemma read_spec_bound:
  "\<forall>r \<in> set rs. recvmmsg_spec r \<Longrightarrow> read_spec limit n rs = Some ms \<Longrightarrow> length ms \<le> limit - n"
proof (induction limit n rs arbitrary: ms rule: read_spec.induct)
  case (2 limit n r rs)
  show ?case
  proof (cases "n < limit")
    case True
    let ?b = "min (limit - n) kDefaultMaxPacketPerRead"
    show ?thesis
    proof (cases "r ?b")
      case (RecvErr err)
      with "2.prems" "2.IH"(1) [OF True RecvErr] True show ?thesis by (auto split: if_splits)
    next
      case (Recv ms1)
      have "length ms1 \<le> ?b" using "2.prems"(1) Recv unfolding recvmmsg_spec_def by (meson list.set_intros(1))
      with "2.prems" "2.IH"(2) [OF True Recv] True Recv show ?thesis by (fastforce split: if_splits)
    qed
  qed (use "2.prems" in simp)
qed (auto split: if_splits)

lemma read_spec_answered:
  "limit \<le> n + kDefaultMaxPacketPerRead * length (filter answers rs) \<Longrightarrow> read_spec limit n rs \<noteq> None"
proof (induction limit n rs rule: read_spec.induct)
  case (2 limit n r rs)
  show ?case
  proof (cases "n < limit")
    case True
    let ?b = "min (limit - n) kDefaultMaxPacketPerRead"
    show ?thesis
    proof (cases "r ?b")
      case (RecvErr err)
      then have "\<not> answers r" if "err = EINTR" using that by (auto simp: answers_def)
      with "2.prems" "2.IH"(1) [OF True RecvErr] True RecvErr show ?thesis by auto
    next
      case (Recv ms1)
      have "limit \<le> n + length ms1 + kDefaultMaxPacketPerRead * length (filter answers rs)" if "\<not> length ms1 < ?b"
        using "2.prems" that by (auto simp: min_def split: if_splits)
      with "2.IH"(2) [OF True Recv] True Recv show ?thesis by auto
    qed
  qed simp
qed simp

section \<open>A sample receiver\<close>

definition sample_alloc :: "pool \<Rightarrow> nat" where
  "sample_alloc p = (LEAST a. pool_heap p a = None)"

lemma sample_alloc_spec: "alloc_spec sample_alloc"
  unfolding alloc_spec_def
proof (intro allI impI)
  fix p :: pool assume "finite (dom (pool_heap p))"
  then obtain a where "a \<notin> dom (pool_heap p)" using ex_new_if_finite infinite_UNIV_nat by blast
  then have "pool_heap p a = None" by blast
  then show "pool_heap p (sample_alloc p) = None" unfolding sample_alloc_def by (rule LeastI)
qed

definition sample_uenv :: "(int \<rightharpoonup> epoll_event) ur_env" where
  "sample_uenv = \<lparr>ue_tid = 1, ue_ctl = ref_ctl, ue_mem = (\<lambda>_. 0), ue_alloc = sample_alloc\<rparr>"

definition sample_loop :: "(unit, int \<rightharpoonup> epoll_event) poller" where
  "sample_loop = \<lparr>p_loop_tid = 1, p_chans = Map.empty, p_channels = Map.empty, p_kernel = Map.empty,
     p_events_size = 16, p_events_cap = 16\<rparr>"

definition sample_sys :: udp_sys where
  "sample_sys = \<lparr>sys_socket = 5, sys_setsockopt = (\<lambda>_ _. 0), sys_bind = (\<lambda>_ _. 0), sys_errno = (\<lambda>_. 98)\<rparr>"

definition sample_addr :: sockaddr_in where
  "sample_addr = new_InetAddress (\<lambda>_. 0) 25000 []"

text \<open>A receiver of 4-byte datagrams, two per event, with two buffers, as constructed and with a callback.\<close>

definition fresh_receiver :: "(udp_callback, int \<rightharpoonup> epoll_event) udp_receiver" where
  "fresh_receiver = poller.extend (create_channel 7 ((new_Channel 5)\<lparr>ch_read_callback := Some ()\<rparr>) sample_loop)
     (udp_receiver.fields 5 7 2 (new_PacketBufferPool (\<lambda>_. 0) 4 [10, 11]) None False [] [])"

lemma fresh_receiver_new: "new_UdpReceiver sample_sys (\<lambda>_. 0) (Some sample_loop) sample_addr 4 [10, 11] 2 7 = Inr fresh_receiver"
  by (simp add: new_UdpReceiver_def ValidateBufferSize_def sample_sys_def new_UdpSocket_def uf_valid_def
      UdpSocket_SetReuseAddr_def UdpSocket_BindAddress_def fresh_receiver_def)

lemma sample_loop_inv: "poller_inv (\<lambda>k. k) sample_loop"
  by (simp add: poller_inv_def sample_loop_def)

lemma fresh_receiver_good: "ur_good sample_uenv (\<lambda>k. k) fresh_receiver"
  using new_UdpReceiver_inv [OF fresh_receiver_new sample_loop_inv]
  by (simp add: ur_good_def sample_uenv_def sample_loop_def ref_ctl_spec sample_alloc_spec)

definition keep_all :: udp_callback where
  "keep_all dg d = [Keep]"

definition sample_receiver :: "(udp_callback, int \<rightharpoonup> epoll_event) udp_receiver" where
  "sample_receiver = SetMessageCallback keep_all fresh_receiver"

lemma sample_receiver_good: "ur_good sample_uenv (\<lambda>k. k) sample_receiver"
  unfolding sample_receiver_def by (rule ur_step_good [OF fresh_receiver_good ur_set])

text \<open>The same receiver, started.\<close>

definition started_receiver :: "(udp_callback, int \<rightharpoonup> epoll_event) udp_receiver" where
  "started_receiver = sample_receiver\<lparr>
     p_chans := [7 \<mapsto> (new_Channel 5)\<lparr>ch_read_callback := Some (), ch_events := kReadEvent, ch_index := kAdded\<rparr>],
     p_channels := [5 \<mapsto> 7], p_kernel := [5 \<mapsto> (kReadEvent, 7)], ur_started := True\<rparr>"

lemma started_receiver_Start: "Start sample_uenv sample_receiver = Inr started_receiver"
  by (simp add: started_receiver_def Start_def sample_receiver_def SetMessageCallback_def fresh_receiver_def poller.defs udp_receiver.defs
      AssertInLoopThread_def sample_uenv_def sample_loop_def create_channel_def EnableReading_def on_channel_def LoopUpdateChannel_def
      UpdateChannel_def Update_def new_Channel_def set_reading_def index_defs channel_flags is_none_event_def Let_def)

lemma started_receiver_good: "ur_good sample_uenv (\<lambda>k. k) started_receiver"
  by (rule ur_step_good [OF sample_receiver_good ur_start [OF started_receiver_Start]])

lemma started_receiver_fields:
  "ur_max_packets_per_read started_receiver = 2" "ur_delivered started_receiver = []" "ur_message_callback started_receiver = Some keep_all"
  "pool_buffer_size (ur_pool started_receiver) = 4" "ur_started started_receiver"
  by (simp_all add: started_receiver_def sample_receiver_def SetMessageCallback_def fresh_receiver_def poller.defs udp_receiver.defs new_PacketBufferPool_def)

text \<open>Two messages wait: one too long for the buffer, one short.\<close>

definition sample_recv :: recvmmsg_call where
  "sample_recv n = Recv (take n [\<lparr>msg_payload = [1, 2, 3, 4, 5], msg_peer = sample_addr, msg_trunc = True\<rparr>,
     \<lparr>msg_payload = [6], msg_peer = sample_addr, msg_trunc = False\<rparr>])"

lemma sample_recv_spec: "recvmmsg_spec sample_recv"
  by (simp add: recvmmsg_spec_def sample_recv_def)

section \<open>Properties\<close>

text \<open>
  Property C12. A readable event delivers what the socket held, as long as the callback leaves the
  receiver started. With the kernel's results as documented, \<open>HandleRead\<close> returns, and calls the
  callback, in order, for the messages that the buffer-free specification reads, each with its
  payload cut to the buffer size, its sender, the receive time, its original size and the truncation
  flag. It calls back for all of them, unless the receiver is not started after a delivery: that
  delivery, of the first message at the earliest, is then the last, and the rest is not delivered.
  At most \<open>max_packets_per_read\<close> messages are read, and no buffer is left in flight: each is back in
  the free list or kept by the application.
\<close>

theorem udp_read_refines:
  assumes "epoll_ctl_spec (ue_ctl e) interest" "alloc_spec (ue_alloc e)" "\<forall>r \<in> set rs. recvmmsg_spec r"
    and "ur_inv interest {#} s" "ue_tid e = p_loop_tid s" "ur_message_callback s = Some f"
    and "read_spec (ur_max_packets_per_read s) 0 rs = Some ms"
  shows "\<exists>s' xs. HandleRead e (udp_call e) time rs s = Some (Inr s') \<and> ur_delivered s' = ur_delivered s @ xs
    \<and> map udp_view xs = map (expected_view time (pool_buffer_size (ur_pool s))) (take (length xs) ms)
    \<and> handed (udp_starts f) (ur_started s) xs (ur_started s')
    \<and> (ms \<noteq> [] \<longrightarrow> xs \<noteq> []) \<and> (ur_started s' \<longrightarrow> length xs = length ms) \<and> length ms \<le> ur_max_packets_per_read s
    \<and> dom (pool_heap (ur_pool s')) = set (pool_free (ur_pool s')) \<union> set_mset (kept_buffers s')"
proof -
  obtain s' xs where r: "HandleRead e (udp_call e) time rs s = Some (Inr s')" "ur_inv interest {#} s'"
      "ur_frame {#} (s\<lparr>ur_delivered := ur_delivered s @ xs\<rparr>) s'"
      "map udp_view xs = map (expected_view time (pool_buffer_size (ur_pool s))) (take (length xs) ms)"
      "ur_started s' \<longrightarrow> length xs = length ms" "handed (udp_starts f) (ur_started s) xs (ur_started s')" "ms \<noteq> [] \<longrightarrow> xs \<noteq> []"
    using udp_HandleRead_ok [OF assms, of time] by blast
  have ok: "pool_ok (kept_buffers s') (ur_pool s')" using ur_invD(2) [OF r(2)] by simp
  then have "dom (pool_heap (ur_pool s')) = set (pool_free (ur_pool s')) \<union> set_mset (kept_buffers s')"
    using pool_invD(3) [of "ur_pool s'"] by (auto simp: pool_ok_def)
  moreover have "length ms \<le> ur_max_packets_per_read s" using read_spec_bound [OF assms(3,7)] by simp
  moreover have "ur_delivered s' = ur_delivered s @ xs" using r(3) by (simp add: ur_frame_def)
  ultimately show ?thesis using r(1,4-7) by (intro exI [of _ s'] exI [of _ xs]) simp
qed

text \<open>The started sample receiver delivers both messages, and keeps them.\<close>

theorem udp_read_refines_witness:
  "\<exists>s'. HandleRead sample_uenv (udp_call sample_uenv) (Timestamp 3) [sample_recv] started_receiver = Some (Inr s') \<and> ur_started s'
    \<and> map udp_view (ur_delivered s') = [([1, 2, 3, 4], sample_addr, Timestamp 3, 5, True), ([6], sample_addr, Timestamp 3, 1, False)]"
proof -
  let ?ms = "[\<lparr>msg_payload = [1, 2, 3, 4, 5], msg_peer = sample_addr, msg_trunc = True\<rparr>,
     \<lparr>msg_payload = [6], msg_peer = sample_addr, msg_trunc = False\<rparr>] :: udp_msg list"
  note fields = started_receiver_fields
  have "read_spec (ur_max_packets_per_read started_receiver) 0 [sample_recv] = Some ?ms"
    unfolding fields by (simp add: sample_recv_def kDefaultMaxPacketPerRead_def)
  moreover have "\<forall>r \<in> set [sample_recv]. recvmmsg_spec r" using sample_recv_spec by simp
  moreover have "epoll_ctl_spec (ue_ctl sample_uenv) (\<lambda>k. k)" "alloc_spec (ue_alloc sample_uenv)"
      "ur_inv (\<lambda>k. k) {#} started_receiver" "ue_tid sample_uenv = p_loop_tid started_receiver"
    using started_receiver_good by (simp_all add: ur_good_def)
  ultimately obtain s' xs where r: "HandleRead sample_uenv (udp_call sample_uenv) (Timestamp 3) [sample_recv] started_receiver = Some (Inr s')"
      "ur_delivered s' = ur_delivered started_receiver @ xs"
      "map udp_view xs = map (expected_view (Timestamp 3) (pool_buffer_size (ur_pool started_receiver))) (take (length xs) ?ms)"
      "handed (udp_starts keep_all) (ur_started started_receiver) xs (ur_started s')" "ur_started s' \<longrightarrow> length xs = length ?ms"
    using udp_read_refines [OF _ _ _ _ _ fields(3), of sample_uenv "\<lambda>k. k" "[sample_recv]" ?ms "Timestamp 3"] by blast
  have "fold (udp_starts keep_all) ys True" for ys by (induction ys) (simp_all add: udp_starts_def keep_all_def)
  then have up: "ur_started s'" using r(4) by (simp add: handed_def fields)
  then have "length xs = 2" using r(5) by simp
  with r up show ?thesis by (simp add: fields expected_view_def eval_nat_numeral)
qed

text \<open>
  Property C24. \<open>HandleRead\<close> ends: interrupted calls apart, it makes at most one call per 64 messages
  of \<open>max_packets_per_read\<close>, rounded up. As soon as that many calls are answered it returns.
\<close>

theorem udp_read_terminates:
  assumes "epoll_ctl_spec (ue_ctl e) interest" "alloc_spec (ue_alloc e)" "\<forall>r \<in> set rs. recvmmsg_spec r"
    and "ur_inv interest {#} s" "ue_tid e = p_loop_tid s" "ur_message_callback s = Some f"
    and "ur_max_packets_per_read s \<le> 64 * length (filter answers rs)"
  shows "\<exists>s'. HandleRead e (udp_call e) time rs s = Some (Inr s') \<and> ur_inv interest {#} s'
    \<and> length (ur_delivered s') \<le> length (ur_delivered s) + ur_max_packets_per_read s"
proof -
  obtain ms where ms: "read_spec (ur_max_packets_per_read s) 0 rs = Some ms"
    using read_spec_answered [of "ur_max_packets_per_read s" 0 rs] assms(7) by (auto simp: kDefaultMaxPacketPerRead_def)
  from udp_HandleRead_ok [OF assms(1-6) ms, of time] read_spec_bound [OF assms(3) ms]
  show ?thesis by (force simp: ur_frame_def)
qed

theorem udp_read_terminates_witness:
  "\<exists>s'. HandleRead sample_uenv (udp_call sample_uenv) (Timestamp 3) [\<lambda>n. RecvErr EINTR, sample_recv] sample_receiver = Some (Inr s')"
proof -
  have fields: "ur_max_packets_per_read sample_receiver = 2" "ur_message_callback sample_receiver = Some keep_all"
    by (simp_all add: sample_receiver_def SetMessageCallback_def fresh_receiver_def poller.defs udp_receiver.defs)
  have r: "\<forall>r \<in> set [\<lambda>n. RecvErr EINTR, sample_recv]. recvmmsg_spec r" using sample_recv_spec by (simp add: recvmmsg_spec_def)
  have "ur_max_packets_per_read sample_receiver \<le> 64 * length (filter answers [\<lambda>n. RecvErr EINTR, sample_recv])"
    unfolding fields by (simp add: answers_def sample_recv_def)
  from udp_read_terminates [OF _ _ r _ _ fields(2) this, of sample_uenv "\<lambda>k. k" "Timestamp 3"] sample_receiver_good
  show ?thesis by (auto simp: ur_good_def)
qed

text \<open>
  Property C23. A receiver is safe over its life: from construction, whatever callbacks, starts,
  stops, drops and readable events come in whatever order, the socket is registered for reading
  exactly while the receiver is started, every buffer of the pool is either free or kept by the
  application, never both, and every kept datagram still reads the payload it was delivered with.
  \<open>Stop\<close> and the destructor then succeed and leave the socket unregistered.
\<close>

theorem udp_receiver_safe:
  assumes "new_UdpReceiver sys mem (Some p) a n as m c = Inr s0" and "poller_inv interest p"
    and "p_chans p c = None" and "\<forall>d dh. p_chans p d = Some dh \<longrightarrow> ch_fd dh \<noteq> sys_socket sys" and "distinct as"
    and "epoll_ctl_spec (ue_ctl e) interest" and "alloc_spec (ue_alloc e)" and "ue_tid e = p_loop_tid p"
    and "(ur_step e)\<^sup>*\<^sup>* s0 s"
  shows "(case interest (p_kernel s) (ur_fd s) of
            None \<Rightarrow> \<not> ur_started s
          | Some (ev, d) \<Rightarrow> ur_started s \<and> d = ur_chan s \<and> ev AND kReadEvent \<noteq> 0)
    \<and> dom (pool_heap (ur_pool s)) = set (pool_free (ur_pool s)) \<union> set_mset (kept_buffers s)
    \<and> set (pool_free (ur_pool s)) \<inter> set_mset (kept_buffers s) = {}
    \<and> (\<forall>(dg, d) \<in> set (ur_kept s). dg_data (ur_pool s) dg = Inr d)
    \<and> (\<exists>s'. destroy_UdpReceiver e s = Inr s' \<and> poller_inv interest s' \<and> interest (p_kernel s') (ur_fd s) = None)"
proof -
  have "ur_good e interest s0"
    using new_UdpReceiver_inv [OF assms(1-3) _ assms(5)] assms(4,6-8) by (simp add: ur_good_def)
  then have g: "ur_good e interest s" by (rule receivers.steps_inv [OF assms(9)])
  then have inv: "ur_inv interest {#} s" and tid: "ue_tid e = p_loop_tid s" by (simp_all add: ur_good_def)
  obtain ch where ch: "p_chans s (ur_chan s) = Some ch" "ch_fd ch = ur_fd s"
      "if ur_started s then ch_index ch = kAdded \<and> is_reading ch else ch_index ch \<noteq> kAdded \<and> is_none_event ch"
    by (rule ur_inv_chan [OF inv])
  have reg: "case interest (p_kernel s) (ur_fd s) of None \<Rightarrow> \<not> ur_started s
      | Some (ev, d) \<Rightarrow> ur_started s \<and> d = ur_chan s \<and> ev AND kReadEvent \<noteq> 0"
    using poller_inv_added [OF ur_invD(1) [OF inv] ch(1)] poller_inv_not_added [OF ur_invD(1) [OF inv] ch(1)] ch(2,3)
    by (cases "ur_started s") (simp_all add: is_reading_def)
  have ok: "pool_ok (kept_buffers s) (ur_pool s)" using ur_invD(2) [OF inv] by simp
  have pool: "pool_inv (ur_pool s)" "\<And>b. pool_refs (ur_pool s) b = count (kept_buffers s) b"
    using ok by (simp_all add: pool_ok_def)
  have "set (pool_free (ur_pool s)) \<inter> set_mset (kept_buffers s) = {}"
    using pool_invD(2) [OF pool(1)] pool(2) by (metis count_eq_zero_iff disjoint_iff)
  moreover have "dom (pool_heap (ur_pool s)) = set (pool_free (ur_pool s)) \<union> set_mset (kept_buffers s)"
    using pool_invD(3) [OF pool(1)] pool(2) by auto
  moreover obtain s1 where s1: "Stop e s = Inr s1" "ur_inv interest {#} s1" "\<not> ur_started s1" "ur_frame {#} s s1"
    using Stop_ok [OF assms(6) inv tid, of "{#}"] by blast
  obtain ch1 where ch1: "p_chans s1 (ur_chan s1) = Some ch1" "ch_fd ch1 = ur_fd s1" "ch_index ch1 \<noteq> kAdded"
    using ur_inv_chan [OF s1(2)] s1(3) by auto
  have "poller_inv interest (destroy_channel (ur_chan s1) s1)"
    using destroy_channel_inv [OF ur_invD(1) [OF s1(2)] ch1(1,3)] .
  moreover have "interest (p_kernel (destroy_channel (ur_chan s1) s1)) (ur_fd s) = None"
    using poller_inv_not_added [OF ur_invD(1) [OF s1(2)] ch1(1,3)] ch1(2) s1(4) by (simp add: destroy_channel_def ur_frame_def)
  moreover have "destroy_UdpReceiver e s = Inr (destroy_channel (ur_chan s1) s1)"
    using s1(1) tid by (simp add: destroy_UdpReceiver_def AssertInLoopThread_def)
  ultimately show ?thesis using reg ur_invD(3) [OF inv] by blast
qed

theorem udp_receiver_safe_witness:
  "(case p_kernel sample_receiver 5 of None \<Rightarrow> \<not> ur_started sample_receiver | Some (ev, d) \<Rightarrow> ur_started sample_receiver)
   \<and> (\<exists>s'. destroy_UdpReceiver sample_uenv sample_receiver = Inr s' \<and> p_kernel s' 5 = None)"
proof -
  have "(ur_step sample_uenv)\<^sup>*\<^sup>* fresh_receiver sample_receiver"
    unfolding sample_receiver_def by (rule r_into_rtranclp) (rule ur_set)
  from udp_receiver_safe [OF fresh_receiver_new sample_loop_inv _ _ _ _ _ _ this]
  show ?thesis using fresh_receiver_good
    by (auto simp: ur_good_def sample_uenv_def sample_loop_def sample_receiver_def SetMessageCallback_def fresh_receiver_def
        poller.defs udp_receiver.defs create_channel_def split: option.splits)
qed

text \<open>
  Remark. The constructor: it succeeds exactly when the sizes are positive, the loop is given
  and the three system calls succeed; otherwise it throws for the first failing check, in the
  order buffer size, loop, packet limit, socket, option, bind. Either way no descriptor leaks: a
  failed construction closes the socket it opened, a successful one owns it.
\<close>

theorem UdpReceiver_construction:
  assumes "fd_inv w" and "uf_objs w obj = None" and "sys_socket sys \<notin> uf_open w"
  defines "fd \<equiv> sys_socket sys"
  shows "\<exists>(r :: ('u, 'k) udp_receiver res) w'. construct_UdpReceiver sys mem loop addr n as m c obj
        (if 0 \<le> fd then w\<lparr>uf_open := insert fd (uf_open w)\<rparr> else w) = Inr (r, w')
    \<and> (case r of
         Inr s \<Rightarrow> n \<noteq> 0 \<and> loop \<noteq> None \<and> m \<noteq> 0 \<and> 0 \<le> fd \<and> sys_setsockopt sys fd 1 = 0 \<and> sys_bind sys fd addr = 0
           \<and> ur_fd s = fd \<and> \<not> ur_started s \<and> pool_free (ur_pool s) = as \<and> uf_open w' = insert fd (uf_open w)
       | Inl err \<Rightarrow> uf_open w' = uf_open w \<and>
           err = (if n = 0 then Thrown ''UdpReceiver max_datagram_size must be greater than zero''
                  else if loop = None then Thrown ''UdpReceiver loop must not be null''
                  else if m = 0 then Thrown ''UdpReceiver max_packets_per_read must be greater than zero''
                  else if fd < 0 then SystemError (sys_errno sys ''socket'') ''socket''
                  else if sys_setsockopt sys fd 1 \<noteq> 0
                  then SystemError (sys_errno sys ''setsockopt(SO_REUSEADDR)'') ''setsockopt(SO_REUSEADDR)''
                  else SystemError (sys_errno sys ''bind'') ''bind''))"
proof -
  define w0 where "w0 = (if 0 \<le> fd then w\<lparr>uf_open := insert fd (uf_open w)\<rparr> else w)"
  define w1 where "w1 = new_UniqueFd obj fd w0"
  have open1: "uf_open w1 = (if 0 \<le> fd then insert fd (uf_open w) else uf_open w)"
    by (simp add: w1_def w0_def new_UniqueFd_def)
  have "fd \<notin> uf_open w" using assms(3) by (simp add: fd_def)
  then have "\<exists>w2. destroy_UniqueFd obj w1 = Inr w2 \<and> uf_open w2 = uf_open w"
    by (cases "0 \<le> fd")
      (simp_all add: w1_def w0_def new_UniqueFd_def destroy_UniqueFd_def uf_reset_def uf_valid_def close_fd_def Let_def)
  then obtain w2 where w2: "destroy_UniqueFd obj w1 = Inr w2" "uf_open w2 = uf_open w" by blast
  show ?thesis
  proof (cases "new_UdpReceiver sys mem loop addr n as m c :: ('u, 'k) udp_receiver res")
    case (Inl err)
    then have "construct_UdpReceiver sys mem loop addr n as m c obj w0 = Inr (Inl err :: ('u, 'k) udp_receiver res, w2)"
      using w2(1) by (simp add: construct_UdpReceiver_def w1_def fd_def Let_def)
    moreover have "err = (if n = 0 then Thrown ''UdpReceiver max_datagram_size must be greater than zero''
                  else if loop = None then Thrown ''UdpReceiver loop must not be null''
                  else if m = 0 then Thrown ''UdpReceiver max_packets_per_read must be greater than zero''
                  else if fd < 0 then SystemError (sys_errno sys ''socket'') ''socket''
                  else if sys_setsockopt sys fd 1 \<noteq> 0
                  then SystemError (sys_errno sys ''setsockopt(SO_REUSEADDR)'') ''setsockopt(SO_REUSEADDR)''
                  else SystemError (sys_errno sys ''bind'') ''bind'')"
      using Inl unfolding new_UdpReceiver_def Let_def ValidateBufferSize_def ThrowSystemError_def new_UdpSocket_def
        uf_valid_def UdpSocket_SetReuseAddr_def UdpSocket_BindAddress_def fd_def
      by (simp split: if_splits option.splits)
    ultimately show ?thesis using w2(2) unfolding w0_def [symmetric]
      by (intro exI [of _ "Inl err"] exI [of _ w2]) simp
  next
    case (Inr s)
    then have "construct_UdpReceiver sys mem loop addr n as m c obj w0 = Inr (Inr s, w1)"
      by (simp add: construct_UdpReceiver_def w1_def fd_def Let_def)
    moreover have "n \<noteq> 0 \<and> loop \<noteq> None \<and> m \<noteq> 0 \<and> 0 \<le> fd \<and> sys_setsockopt sys fd 1 = 0 \<and> sys_bind sys fd addr = 0
        \<and> ur_fd s = fd \<and> \<not> ur_started s \<and> pool_free (ur_pool s) = as"
      using Inr unfolding new_UdpReceiver_def Let_def ValidateBufferSize_def ThrowSystemError_def new_UdpSocket_def
        uf_valid_def UdpSocket_SetReuseAddr_def UdpSocket_BindAddress_def fd_def
      by (auto simp: poller.defs udp_receiver.defs new_PacketBufferPool_def split: if_splits option.splits)
    ultimately show ?thesis using open1 unfolding w0_def [symmetric]
      by (intro exI [of _ "Inr s"] exI [of _ w1]) simp
  qed
qed

theorem UdpReceiver_construction_witness:
  "\<exists>w'. construct_UdpReceiver sample_sys (\<lambda>_. 0) (Some sample_loop) sample_addr 0 [] 2 7 1 (empty_world\<lparr>uf_open := {5}\<rparr>)
      = Inr (Inl (Thrown ''UdpReceiver max_datagram_size must be greater than zero'') :: (nat, int \<rightharpoonup> epoll_event) udp_receiver res, w')
    \<and> uf_open w' = {}"
proof -
  let ?run = "construct_UdpReceiver sample_sys (\<lambda>_. 0) (Some sample_loop) sample_addr 0 [] 2 7 1 (empty_world\<lparr>uf_open := {5}\<rparr>)
    :: ((nat, int \<rightharpoonup> epoll_event) udp_receiver res \<times> fd_world) res"
  have eqs: "sys_socket sample_sys = 5" "uf_open empty_world = {}" "uf_objs empty_world 1 = None"
    by (simp_all add: empty_world_def sample_sys_def)
  then have "sys_socket sample_sys \<notin> uf_open empty_world" by simp
  from UdpReceiver_construction [where 'u = nat, OF fd_inv_empty eqs(3) this, of "\<lambda>_. 0" "Some sample_loop" sample_addr 0 "[]" 2 7,
      unfolded eqs]
  obtain r w' where "?run = Inr (r, w')" and "r = Inl (Thrown ''UdpReceiver max_datagram_size must be greater than zero'')" "uf_open w' = {}"
    by (elim exE conjE) (simp split: sum.splits)
  then show ?thesis by blast
qed

text \<open>
  Remark. \<open>Stop\<close> does not silence an event that is already due: \<open>HandleRead\<close> does not look at
  \<open>started_\<close> before it reads, so a receiver stopped by another channel's handler in the same round
  still takes a whole batch off the socket, calls back once, and drops the rest of the batch.
\<close>

theorem stopped_receiver_delivers:
  "\<exists>s' x. HandleRead sample_uenv (udp_call sample_uenv) (Timestamp 3) [sample_recv] sample_receiver = Some (Inr s')
    \<and> \<not> ur_started sample_receiver \<and> ur_delivered sample_receiver = [] \<and> ur_delivered s' = [x]
    \<and> fst (udp_view x) = [1, 2, 3, 4]"
  by (simp add: HandleRead_def AssertInLoopThread_def sample_uenv_def sample_receiver_def SetMessageCallback_def fresh_receiver_def
      poller.defs udp_receiver.defs create_channel_def sample_loop_def read_batch_def Let_def kDefaultMaxPacketPerRead_def
      eval_nat_numeral new_PacketBufferPool_def Acquire_def pb_reset_def new_PacketBuffer_def sample_recv_def
      on_buffer_def store_payload_def overwrite_def set_size_def dg_data_def udp_call_def keep_all_def keep_datagram_def
      share_def release_def udp_view_def)

end
