(* ===== verification/TimingWheel.thy ===== *)
theory TimingWheel
  imports Prelude
begin

text \<open>
  Closing idle connections (\<open>include/mini_muduo/TimingWheel.h\<close>, \<open>src/TimingWheel.cc\<close> and
  \<open>EventLoop::EnableIdleTimeout\<close>, \<open>EventLoop::Feed\<close>): a ring of buckets of shared entries, the
  current one advanced by a one-second timer. An entry is destroyed with its last reference, and
  its destructor shuts its connection down.
\<close>

section \<open>State\<close>

text \<open>A bucket lists its entries in the order its \<open>unordered_set\<close> visits them, which is unspecified.\<close>

record wheel =
  tw_wheel :: "nat list list"
  tw_current_bucket :: nat

text \<open>
  The loop's thread and its wheel; the live entries with the connection each points to weakly; the
  live connections with the entry their context points to weakly; and the connections \<open>ShutDown\<close>
  was called on, in order. Entries are named by the order of their creation.
\<close>

record idle_loop =
  il_tid :: int
  il_timing_wheel :: "wheel option"
  il_entries :: "nat \<rightharpoonup> nat"
  il_next_entry :: nat
  il_conns :: "nat \<rightharpoonup> nat option"
  il_shut :: "nat list"

section \<open>Operations\<close>

text \<open>A negative timeout converts to no number of buckets.\<close>

definition new_TimingWheel :: "int \<Rightarrow> wheel res" where
  "new_TimingWheel timeout_seconds =
     (if timeout_seconds < 0 then Inl OutOfRange
      else Inr \<lparr>tw_wheel = replicate (nat timeout_seconds) [], tw_current_bucket = 0\<rparr>)"

definition destroy_Entry :: "nat \<Rightarrow> idle_loop \<Rightarrow> idle_loop" where
  "destroy_Entry entry s =
     (let s1 = s\<lparr>il_entries := (il_entries s)(entry := None)\<rparr>
      in case il_entries s entry of
           None \<Rightarrow> s1
         | Some conn \<Rightarrow>
             (case il_conns s conn of
                None \<Rightarrow> s1
              | Some context \<Rightarrow> s1\<lparr>il_conns := (il_conns s)(conn \<mapsto> None), il_shut := il_shut s @ [conn]\<rparr>))"

text \<open>Dropping references: an entry no bucket of the wheel holds any more is destroyed.\<close>

fun drop_entries :: "nat list list \<Rightarrow> nat list \<Rightarrow> idle_loop \<Rightarrow> idle_loop" where
  "drop_entries buckets [] s = s"
| "drop_entries buckets (entry # rest) s =
     drop_entries buckets rest (if entry \<in> set (concat buckets) then s else destroy_Entry entry s)"

definition bucket_insert :: "nat \<Rightarrow> nat list \<Rightarrow> nat list" where
  "bucket_insert entry bucket = (if entry \<in> set bucket then bucket else entry # bucket)"

definition Feed :: "int \<Rightarrow> nat \<Rightarrow> wheel \<Rightarrow> idle_loop \<Rightarrow> idle_loop res" where
  "Feed tid conn w s =
     (if tid \<noteq> il_tid s then Inl Aborted
      else case il_conns s conn of
        None \<Rightarrow> Inl UseAfterFree
      | Some context \<Rightarrow>
          let locked = (case context of
                          None \<Rightarrow> None
                        | Some e \<Rightarrow> if il_entries s e = None then None else Some e);
              (entry, s1) = (case locked of
                          Some e \<Rightarrow> (e, s)
                        | None \<Rightarrow> (il_next_entry s,
                            s\<lparr>il_entries := (il_entries s)(il_next_entry s \<mapsto> conn), il_next_entry := il_next_entry s + 1,
                              il_conns := (il_conns s)(conn \<mapsto> Some (il_next_entry s))\<rparr>))
          in if tw_current_bucket w < length (tw_wheel w)
             then Inr (s1\<lparr>il_timing_wheel := Some (w\<lparr>tw_wheel := (tw_wheel w)[tw_current_bucket w :=
                    bucket_insert entry (tw_wheel w ! tw_current_bucket w)]\<rparr>)\<rparr>)
             else Inl OutOfRange)"

definition OnTimer :: "wheel \<Rightarrow> idle_loop \<Rightarrow> idle_loop res" where
  "OnTimer w s =
     (if length (tw_wheel w) = 0 then Inl DivisionByZero
      else let current = (tw_current_bucket w + 1) mod length (tw_wheel w);
               bucket = tw_wheel w ! current;
               buckets = (tw_wheel w)[current := []]
           in Inr (drop_entries buckets bucket
                (s\<lparr>il_timing_wheel := Some \<lparr>tw_wheel = buckets, tw_current_bucket = current\<rparr>\<rparr>)))"

text \<open>The destructor of the wheel drops all its buckets.\<close>

definition destroy_TimingWheel :: "wheel \<Rightarrow> idle_loop \<Rightarrow> idle_loop" where
  "destroy_TimingWheel w s = drop_entries [] (remdups (concat (tw_wheel w))) s"

definition EnableIdleTimeout :: "int \<Rightarrow> idle_loop \<Rightarrow> idle_loop res" where
  "EnableIdleTimeout seconds s =
     bindE (new_TimingWheel seconds) (\<lambda>w.
       Inr (case il_timing_wheel s of
              None \<Rightarrow> s\<lparr>il_timing_wheel := Some w\<rparr>
            | Some old \<Rightarrow> destroy_TimingWheel old (s\<lparr>il_timing_wheel := Some w\<rparr>)))"

definition loop_Feed :: "int \<Rightarrow> nat \<Rightarrow> idle_loop \<Rightarrow> idle_loop res" where
  "loop_Feed tid conn s =
     (case il_timing_wheel s of None \<Rightarrow> Inr s | Some w \<Rightarrow> Feed tid conn w s)"

text \<open>The timer's callback, while the wheel exists.\<close>

definition loop_OnTimer :: "idle_loop \<Rightarrow> idle_loop res" where
  "loop_OnTimer s = (case il_timing_wheel s of None \<Rightarrow> Inl UseAfterFree | Some w \<Rightarrow> OnTimer w s)"

section \<open>The ring as a queue\<close>

text \<open>The buckets in the order in which the ticks will clear them; the last one is the current one.\<close>

definition slots :: "wheel \<Rightarrow> nat list list" where
  "slots w = rotate (tw_current_bucket w + 1) (tw_wheel w)"

lemma length_slots [simp]: "length (slots w) = length (tw_wheel w)"
  by (simp add: slots_def)

lemma set_slots [simp]: "set (slots w) = set (tw_wheel w)"
  by (simp add: slots_def)

lemma slots_tick:
  assumes "tw_wheel w \<noteq> []"
  defines "current \<equiv> (tw_current_bucket w + 1) mod length (tw_wheel w)"
  shows "slots \<lparr>tw_wheel = (tw_wheel w)[current := []], tw_current_bucket = current\<rparr> = tl (slots w) @ [[]]"
    and "hd (slots w) = tw_wheel w ! current"
proof -
  let ?xs = "tw_wheel w"
  have c: "current < length ?xs" using assms(1) by (simp add: current_def)
  have w: "slots w = drop current ?xs @ take current ?xs" by (simp add: slots_def rotate_drop_take current_def)
  have d: "drop current ?xs = ?xs ! current # drop (Suc current) ?xs" using c by (simp add: Cons_nth_drop_Suc)
  show "hd (slots w) = ?xs ! current" by (simp add: w d)
  have "rotate current (?xs[current := []]) = [] # drop (Suc current) ?xs @ take current ?xs"
    using c by (simp add: rotate_drop_take Cons_nth_drop_Suc [symmetric])
  then have "slots \<lparr>tw_wheel = ?xs[current := []], tw_current_bucket = current\<rparr> = drop (Suc current) ?xs @ take current ?xs @ [[]]"
    by (simp add: slots_def)
  then show "slots \<lparr>tw_wheel = ?xs[current := []], tw_current_bucket = current\<rparr> = tl (slots w) @ [[]]"
    by (simp add: w d)
qed

lemma slots_feed:
  assumes "tw_current_bucket w < length (tw_wheel w)"
  shows "slots (w\<lparr>tw_wheel := (tw_wheel w)[tw_current_bucket w := b]\<rparr>) = butlast (slots w) @ [b]"
    and "last (slots w) = tw_wheel w ! tw_current_bucket w"
proof -
  let ?xs = "tw_wheel w" and ?c = "tw_current_bucket w"
  have split: "?xs = take ?c ?xs @ ?xs ! ?c # drop (Suc ?c) ?xs" using assms by (simp add: id_take_nth_drop)
  have rot: "rotate (?c + 1) (take ?c ?xs @ x # drop (Suc ?c) ?xs) = drop (Suc ?c) ?xs @ take ?c ?xs @ [x]" for x
    using rotate_append [of "take ?c ?xs @ [x]" "drop (Suc ?c) ?xs"] assms by simp
  have w: "slots w = drop (Suc ?c) ?xs @ take ?c ?xs @ [?xs ! ?c]" using rot [of "?xs ! ?c"] split by (simp add: slots_def)
  then show "last (slots w) = ?xs ! ?c" by simp
  show "slots (w\<lparr>tw_wheel := ?xs[?c := b]\<rparr>) = butlast (slots w) @ [b]"
    unfolding w using rot [of b] assms by (simp add: slots_def upd_conv_take_nth_drop butlast_append)
qed

text \<open>The tick, counted from now, that clears the last bucket holding an entry; 0 when none does.\<close>

fun last_slot :: "nat \<Rightarrow> nat list list \<Rightarrow> nat" where
  "last_slot e [] = 0"
| "last_slot e (b # bs) = (if last_slot e bs > 0 then Suc (last_slot e bs) else if e \<in> set b then 1 else 0)"

lemma last_slot_0: "last_slot e bs = 0 \<longleftrightarrow> (\<forall>b \<in> set bs. e \<notin> set b)"
  by (induction bs) auto

lemma last_slot_bound: "last_slot e bs \<le> length bs"
  by (induction bs) auto

lemma last_slot_snoc: "last_slot e (bs @ [b]) = (if e \<in> set b then Suc (length bs) else last_slot e bs)"
  by (induction bs) auto

lemma last_slot_tick: "last_slot e (tl bs @ [[]]) = last_slot e bs - 1"
  by (cases bs) (auto simp: last_slot_snoc)

section \<open>Invariant\<close>

text \<open>
  A wheel of \<open>n\<close> buckets: every entry held by a bucket is alive and no other is; a live connection's
  context and its entry point at each other.
\<close>

definition wheel_inv :: "nat \<Rightarrow> idle_loop \<Rightarrow> bool" where
  "wheel_inv n s \<longleftrightarrow> (\<exists>w. il_timing_wheel s = Some w \<and> length (tw_wheel w) = n \<and> tw_current_bucket w < n
       \<and> dom (il_entries s) = set (concat (tw_wheel w)) \<and> (\<forall>b \<in> set (tw_wheel w). distinct b))
     \<and> (\<forall>c e. il_conns s c = Some (Some e) \<longleftrightarrow> il_entries s e = Some c \<and> c \<in> dom (il_conns s))
     \<and> (\<forall>e \<in> dom (il_entries s). e < il_next_entry s)"

text \<open>What the wheel promises: the ticks each fed connection has left.\<close>

definition idle :: "idle_loop \<Rightarrow> nat \<rightharpoonup> nat" where
  "idle s c =
     (case (il_timing_wheel s, il_conns s c) of
        (Some w, Some (Some e)) \<Rightarrow> Some (last_slot e (slots w))
      | _ \<Rightarrow> None)"

lemma wheel_invD:
  assumes "wheel_inv n s" and "il_timing_wheel s = Some w"
  shows "length (tw_wheel w) = n" "tw_current_bucket w < n" "dom (il_entries s) = set (concat (tw_wheel w))"
    "b \<in> set (tw_wheel w) \<Longrightarrow> distinct b"
    "il_conns s c = Some (Some e) \<longleftrightarrow> il_entries s e = Some c \<and> c \<in> dom (il_conns s)"
    "il_entries s e = Some c' \<Longrightarrow> e < il_next_entry s"
  using assms by (auto simp: wheel_inv_def)

lemma wheel_invI:
  assumes "il_timing_wheel s = Some w" "length (tw_wheel w) = n" "tw_current_bucket w < n"
    "dom (il_entries s) = set (concat (tw_wheel w))" "\<And>b. b \<in> set (tw_wheel w) \<Longrightarrow> distinct b"
    "\<And>c e. il_conns s c = Some (Some e) \<longleftrightarrow> il_entries s e = Some c \<and> c \<in> dom (il_conns s)"
    "\<And>e. e \<in> dom (il_entries s) \<Longrightarrow> e < il_next_entry s"
  shows "wheel_inv n s"
  using assms unfolding wheel_inv_def by blast

lemma last_slot_pos:
  assumes "wheel_inv n s" "il_timing_wheel s = Some w" "il_entries s e = Some c"
  shows "0 < last_slot e (slots w)"
proof -
  have "e \<in> set (concat (tw_wheel w))" using wheel_invD(3) [OF assms(1,2)] assms(3) by blast
  then show ?thesis using last_slot_0 [of e "slots w"] by auto
qed

section \<open>Dropping entries\<close>

lemma drop_entries_fold:
  "drop_entries buckets es s = fold destroy_Entry (filter (\<lambda>e. e \<notin> set (concat buckets)) es) s"
  by (induction es arbitrary: s) auto

text \<open>The connection an entry's destructor shuts down, if any.\<close>

definition shut_by :: "idle_loop \<Rightarrow> nat \<Rightarrow> nat list" where
  "shut_by s e = (case il_entries s e of None \<Rightarrow> [] | Some c \<Rightarrow> if il_conns s c = None then [] else [c])"

lemma destroy_Entry_fields:
  "il_entries (destroy_Entry e s) = (il_entries s)(e := None)"
  "il_conns (destroy_Entry e s) = (\<lambda>c. if c \<in> set (shut_by s e) then Some None else il_conns s c)"
  "il_shut (destroy_Entry e s) = il_shut s @ shut_by s e"
  "il_timing_wheel (destroy_Entry e s) = il_timing_wheel s" "il_next_entry (destroy_Entry e s) = il_next_entry s"
  "il_tid (destroy_Entry e s) = il_tid s"
  by (auto simp: destroy_Entry_def shut_by_def Let_def fun_eq_iff split: option.splits)

lemma shut_by_destroy: "d \<noteq> e \<Longrightarrow> shut_by (destroy_Entry e s) d = shut_by s d"
  by (auto simp: shut_by_def destroy_Entry_fields split: option.splits)

lemma fold_destroy_fields:
  "distinct es \<Longrightarrow> s' = fold destroy_Entry es s \<Longrightarrow>
   il_entries s' = (\<lambda>e. if e \<in> set es then None else il_entries s e)
   \<and> il_conns s' = (\<lambda>c. if c \<in> set (concat (map (shut_by s) es)) then Some None else il_conns s c)
   \<and> il_shut s' = il_shut s @ concat (map (shut_by s) es)
   \<and> il_timing_wheel s' = il_timing_wheel s \<and> il_next_entry s' = il_next_entry s \<and> il_tid s' = il_tid s"
proof (induction es arbitrary: s)
  case (Cons e es)
  have same: "map (shut_by (destroy_Entry e s)) es = map (shut_by s) es"
    using Cons.prems(1) by (auto intro!: shut_by_destroy)
  have "s' = fold destroy_Entry es (destroy_Entry e s)" "distinct es" using Cons.prems by simp_all
  from Cons.IH [OF this(2,1)] show ?case
    unfolding same by (auto simp: destroy_Entry_fields fun_eq_iff)
qed simp

section \<open>The operations keep the promise\<close>

text \<open>One tick, seen from the connections.\<close>

definition idle_tick :: "(nat \<rightharpoonup> nat) \<Rightarrow> nat \<rightharpoonup> nat" where
  "idle_tick m c = (case m c of None \<Rightarrow> None | Some r \<Rightarrow> if r > 1 then Some (r - 1) else None)"

lemma idle_Some:
  "il_timing_wheel s = Some w \<Longrightarrow> idle s c = Some r \<longleftrightarrow> (\<exists>e. il_conns s c = Some (Some e) \<and> r = last_slot e (slots w))"
  by (auto simp: idle_def split: option.splits)

lemma idle_tick_Some: "idle_tick m c = Some r \<longleftrightarrow> 0 < r \<and> m c = Some (Suc r)"
  by (auto simp: idle_tick_def split: option.splits)

lemma map_eqI: "(\<And>c r. m c = Some r \<longleftrightarrow> m' c = Some r) \<Longrightarrow> m = m'"
  by (rule ext) (metis not_None_eq)

lemma cleared_entries:
  assumes "tw_wheel w \<noteq> []"
  defines "current \<equiv> (tw_current_bucket w + 1) mod length (tw_wheel w)"
  shows "e \<in> set (tw_wheel w ! current) \<and> e \<notin> set (concat ((tw_wheel w)[current := []])) \<longleftrightarrow> last_slot e (slots w) = 1"
proof -
  note tick = slots_tick [OF assms(1), folded current_def]
  have "slots w \<noteq> []" using assms(1) length_slots [of w] by (metis length_0_conv)
  then have split: "slots w = (tw_wheel w ! current) # tl (slots w)" using tick(2) by (metis list.collapse)
  have "set ((tw_wheel w)[current := []]) = set (tl (slots w) @ [[]])"
    using set_slots [of "\<lparr>tw_wheel = (tw_wheel w)[current := []], tw_current_bucket = current\<rparr>"] tick(1) by simp
  then have "e \<notin> set (concat ((tw_wheel w)[current := []])) \<longleftrightarrow> last_slot e (tl (slots w)) = 0"
    unfolding last_slot_0 by auto
  then show ?thesis by (subst split) auto
qed

text \<open>Destroying entries keeps contexts and entries pointing at each other.\<close>

definition linked :: "idle_loop \<Rightarrow> bool" where
  "linked s \<longleftrightarrow> (\<forall>c e. il_conns s c = Some (Some e) \<longleftrightarrow> il_entries s e = Some c \<and> c \<in> dom (il_conns s))"

lemma linkedD: "linked s \<Longrightarrow> il_conns s c = Some (Some e) \<longleftrightarrow> il_entries s e = Some c \<and> c \<in> dom (il_conns s)"
  by (simp add: linked_def)

lemma set_shut_by: "c \<in> set (shut_by s e) \<longleftrightarrow> il_entries s e = Some c \<and> c \<in> dom (il_conns s)"
  by (auto simp: shut_by_def dom_def split: option.splits)

lemma in_shut_by: "c \<in> set (concat (map (shut_by s) es)) \<longleftrightarrow> (\<exists>e \<in> set es. il_entries s e = Some c) \<and> c \<in> dom (il_conns s)"
  using set_shut_by by auto

lemma in_shut_by_linked: "linked s \<Longrightarrow> c \<in> set (concat (map (shut_by s) es)) \<longleftrightarrow> (\<exists>e \<in> set es. il_conns s c = Some (Some e))"
  unfolding in_shut_by using linkedD [of s c] by auto

lemma distinct_shut_by: "distinct es \<Longrightarrow> linked s \<Longrightarrow> distinct (concat (map (shut_by s) es))"
proof (induction es)
  case (Cons e es)
  have "c \<notin> set (concat (map (shut_by s) es))" if c: "c \<in> set (shut_by s e)" for c
  proof -
    have "il_conns s c = Some (Some e)" using c Cons.prems(2) in_shut_by_linked [of s c "[e]"] by simp
    then show ?thesis using Cons.prems in_shut_by_linked [of s c es] by auto
  qed
  moreover have "distinct (shut_by s e)" by (auto simp: shut_by_def split: option.splits)
  ultimately show ?case using Cons by auto
qed simp

lemma linked_after_drop:
  assumes "linked s" and "il_entries s' = (\<lambda>e. if e \<in> set es then None else il_entries s e)"
    and "il_conns s' = (\<lambda>c. if c \<in> set (concat (map (shut_by s) es)) then Some None else il_conns s c)"
  shows "linked s'" and "dom (il_conns s') = dom (il_conns s)"
    and "il_conns s' c = Some (Some e) \<longleftrightarrow> il_conns s c = Some (Some e) \<and> e \<notin> set es"
proof -
  show dom: "dom (il_conns s') = dom (il_conns s)"
    unfolding assms(3) using in_shut_by [of _ s es] by (auto split: if_splits)
  show conns: "il_conns s' c = Some (Some e) \<longleftrightarrow> il_conns s c = Some (Some e) \<and> e \<notin> set es" for c e
    unfolding assms(3) in_shut_by_linked [OF assms(1)] by auto
  show "linked s'" unfolding linked_def conns dom using linkedD [OF assms(1)] assms(2) by auto
qed

lemma OnTimer_ok:
  assumes inv: "wheel_inv n s" and n: "0 < n"
  shows "\<exists>s' cs. loop_OnTimer s = Inr s' \<and> wheel_inv n s' \<and> idle s' = idle_tick (idle s)
    \<and> il_shut s' = il_shut s @ cs \<and> distinct cs \<and> set cs = {c. idle s c = Some 1}
    \<and> dom (il_conns s') = dom (il_conns s) \<and> il_tid s' = il_tid s"
proof -
  obtain w where w: "il_timing_wheel s = Some w" using inv by (auto simp: wheel_inv_def)
  note i = wheel_invD [OF inv w]
  define cur where "cur = (tw_current_bucket w + 1) mod length (tw_wheel w)"
  define bs where "bs = (tw_wheel w)[cur := []]"
  define w' where "w' = \<lparr>tw_wheel = bs, tw_current_bucket = cur\<rparr>"
  define es where "es = filter (\<lambda>e. e \<notin> set (concat bs)) (tw_wheel w ! cur)"
  define s1 where "s1 = s\<lparr>il_timing_wheel := Some w'\<rparr>"
  define s' where "s' = fold destroy_Entry es s1"
  have ne: "tw_wheel w \<noteq> []" using i(1) n by auto
  have cur: "cur < length (tw_wheel w)" using ne by (simp add: cur_def)
  have run: "loop_OnTimer s = Inr s'"
    using w ne by (simp add: loop_OnTimer_def OnTimer_def Let_def drop_entries_fold s'_def s1_def es_def w'_def bs_def cur_def)
  have slots': "slots w' = tl (slots w) @ [[]]" using slots_tick(1) [OF ne] by (simp add: w'_def bs_def cur_def)
  have es: "e \<in> set es \<longleftrightarrow> last_slot e (slots w) = 1" for e
    using cleared_entries [OF ne, of e] by (simp add: es_def bs_def cur_def)
  have des: "distinct es" using i(4) cur by (simp add: es_def)
  have sb: "shut_by s1 = shut_by s" by (auto simp: shut_by_def s1_def fun_eq_iff split: option.splits)
  have same: "il_entries s1 = il_entries s" "il_conns s1 = il_conns s" by (simp_all add: s1_def)
  have link: "linked s" using i(5) by (simp add: linked_def)
  have ent': "il_entries s' = (\<lambda>e. if e \<in> set es then None else il_entries s e)"
    and conn': "il_conns s' = (\<lambda>c. if c \<in> set (concat (map (shut_by s) es)) then Some None else il_conns s c)"
    and shut': "il_shut s' = il_shut s @ concat (map (shut_by s) es)"
    and rest: "il_timing_wheel s' = Some w'" "il_next_entry s' = il_next_entry s" "il_tid s' = il_tid s"
    using fold_destroy_fields [OF des s'_def] unfolding sb same by (simp_all add: s1_def)
  note l = linked_after_drop [OF link ent' conn']
  have pos: "0 < last_slot e (slots w)" if "il_conns s c = Some (Some e)" for c e
    using that linkedD [OF link, of c e] last_slot_pos [OF inv w] by blast
  have "wheel_inv n s'"
  proof (rule wheel_invI [OF rest(1)])
    show "dom (il_entries s') = set (concat (tw_wheel w'))"
    proof -
      have "e \<in> set (concat (tw_wheel w')) \<longleftrightarrow> 1 < last_slot e (slots w)" for e
        using last_slot_0 [of e "slots w'"] last_slot_tick [of e "slots w"] unfolding slots' [symmetric] by auto
      moreover have "e \<in> dom (il_entries s) \<longleftrightarrow> 0 < last_slot e (slots w)" for e
        unfolding i(3) using last_slot_0 [of e "slots w"] by auto
      ultimately show ?thesis unfolding ent' using es by (auto simp: set_eq_iff dom_def split: if_splits)
    qed
    show "distinct b" if "b \<in> set (tw_wheel w')" for b
      using that i(4) set_update_subset_insert [of "tw_wheel w" cur "[]"] by (auto simp: w'_def bs_def)
    show "e < il_next_entry s'" if "e \<in> dom (il_entries s')" for e
      using that i(6) unfolding ent' rest by (auto split: if_splits)
  qed (use i(1) cur linkedD [OF l(1)] in \<open>simp_all add: w'_def bs_def\<close>)
  moreover have "idle s' = idle_tick (idle s)"
  proof (rule map_eqI)
    fix c r
    have "last_slot e (slots w) \<noteq> 1 \<and> r = last_slot e (slots w) - 1 \<longleftrightarrow> 0 < r \<and> Suc r = last_slot e (slots w)"
      if "il_conns s c = Some (Some e)" for e
      using pos [OF that] by linarith
    then show "idle s' c = Some r \<longleftrightarrow> idle_tick (idle s) c = Some r"
      unfolding idle_Some [OF rest(1)] idle_tick_Some idle_Some [OF w] l(3) es slots' last_slot_tick by blast
  qed
  moreover have "set (concat (map (shut_by s) es)) = {c. idle s c = Some 1}"
    unfolding set_eq_iff in_shut_by_linked [OF link] by (auto simp: idle_def w es split: option.splits)
  ultimately show ?thesis
    using run shut' distinct_shut_by [OF des link] l(2) rest(3) by blast
qed

lemma Feed_ok:
  assumes inv: "wheel_inv n s" and c: "c \<in> dom (il_conns s)" and t: "tid = il_tid s"
  shows "\<exists>s'. loop_Feed tid c s = Inr s' \<and> wheel_inv n s' \<and> idle s' = (idle s)(c \<mapsto> n) \<and> il_shut s' = il_shut s
    \<and> dom (il_conns s') = dom (il_conns s) \<and> il_tid s' = il_tid s"
proof -
  obtain w where w: "il_timing_wheel s = Some w" using inv by (auto simp: wheel_inv_def)
  note i = wheel_invD [OF inv w]
  let ?cur = "tw_current_bucket w"
  define fresh where "fresh = (\<forall>e. il_conns s c \<noteq> Some (Some e))"
  define e where "e = (if fresh then il_next_entry s else the (the (il_conns s c)))"
  define s1 where "s1 = (if fresh then s\<lparr>il_entries := (il_entries s)(e \<mapsto> c), il_next_entry := e + 1,
      il_conns := (il_conns s)(c \<mapsto> Some e)\<rparr> else s)"
  define b where "b = bucket_insert e (tw_wheel w ! ?cur)"
  define w' where "w' = w\<lparr>tw_wheel := (tw_wheel w)[?cur := b]\<rparr>"
  define s' where "s' = s1\<lparr>il_timing_wheel := Some w'\<rparr>"
  have cur: "?cur < length (tw_wheel w)" using i(1,2) by simp
  have old: "il_conns s c = Some (Some e)" "il_entries s e = Some c" if "\<not> fresh"
  proof -
    show a: "il_conns s c = Some (Some e)" using that by (auto simp: fresh_def e_def)
    show "il_entries s e = Some c" using a i(5) [of c e] by blast
  qed
  have new: "il_entries s e = None" "il_conns s c = Some None" if fresh
  proof -
    show "il_entries s e = None" using that i(6) [of e] by (cases "il_entries s e") (auto simp: e_def)
    show "il_conns s c = Some None" using that c by (auto simp: fresh_def)
  qed
  have run: "loop_Feed tid c s = Inr s'"
  proof (cases fresh)
    case True
    then show ?thesis using w t cur new by (simp add: loop_Feed_def Feed_def s'_def s1_def w'_def b_def e_def)
  next
    case False
    then show ?thesis using w t cur old by (simp add: loop_Feed_def Feed_def s'_def s1_def w'_def b_def)
  qed
  have slots': "slots w' = butlast (slots w) @ [b]" and last: "last (slots w) = tw_wheel w ! ?cur"
    using slots_feed [OF cur] by (simp_all add: w'_def)
  have ne: "slots w \<noteq> []" using cur length_slots [of w] by (metis length_0_conv less_nat_zero_code)
  have slots: "slots w = butlast (slots w) @ [tw_wheel w ! ?cur]" using ne last by (metis append_butlast_last_id)
  have b: "set b = insert e (set (tw_wheel w ! ?cur))" "distinct b"
    using i(4) cur by (auto simp: b_def bucket_insert_def)
  have ls: "last_slot d (slots w') = (if d = e then n else last_slot d (slots w))" for d
  proof -
    have "length (butlast (slots w)) = n - 1" "0 < n" using i(1,2) by simp_all
    then have "last_slot d (butlast (slots w) @ [b]) = (if d = e then n else last_slot d (butlast (slots w) @ [tw_wheel w ! ?cur]))"
      unfolding last_slot_snoc b(1) by simp
    then show ?thesis unfolding slots' slots [symmetric] .
  qed
  have all: "set (concat (tw_wheel w')) = insert e (set (concat (tw_wheel w)))"
  proof -
    have "set (concat (slots w')) = insert e (set (concat (slots w)))"
      by (subst slots) (simp add: slots' b(1))
    then show ?thesis by simp
  qed
  have conns': "il_conns s' = (il_conns s)(c \<mapsto> Some e)" and ent': "il_entries s' = (il_entries s)(e \<mapsto> c)"
    using old by (auto simp: s'_def s1_def map_upd_triv)
  have uniq: "il_entries s e = None \<or> il_entries s e = Some c" using old new by blast
  have "wheel_inv n s'"
  proof (rule wheel_invI)
    show "il_timing_wheel s' = Some w'" by (simp add: s'_def)
    show "dom (il_entries s') = set (concat (tw_wheel w'))" unfolding ent' all using i(3) by simp
    show "distinct d" if "d \<in> set (tw_wheel w')" for d
      using that i(4) b(2) set_update_subset_insert [of "tw_wheel w" ?cur b] by (auto simp: w'_def)
    show "d < il_next_entry s'" if "d \<in> dom (il_entries s')" for d
      using that i(6) old unfolding ent' by (auto simp: s'_def s1_def less_SucI e_def split: if_splits)
    show "il_conns s' d = Some (Some x) \<longleftrightarrow> il_entries s' x = Some d \<and> d \<in> dom (il_conns s')" for d x
      unfolding conns' ent' using i(5) [of d x] uniq i(5) [of c x] new old by (cases fresh; cases "d = c"; cases "x = e") auto
  qed (use i(1,2) in \<open>simp_all add: w'_def\<close>)
  moreover have "idle s' = (idle s)(c \<mapsto> n)"
  proof (rule map_eqI)
    fix d r
    have "x \<noteq> e" if "d \<noteq> c" "il_conns s d = Some (Some x)" for x
      using that i(5) [of d x] uniq by auto
    then have other: "(\<exists>x. il_conns s d = Some (Some x) \<and> r = last_slot x (slots w')) \<longleftrightarrow>
        (\<exists>x. il_conns s d = Some (Some x) \<and> r = last_slot x (slots w))" if "d \<noteq> c"
      using that unfolding ls by auto
    have "il_timing_wheel s' = Some w'" by (simp add: s'_def)
    note iff = idle_Some [OF this, of d r] idle_Some [OF w, of d r]
    show "idle s' d = Some r \<longleftrightarrow> ((idle s)(c \<mapsto> n)) d = Some r"
    proof (cases "d = c")
      case True
      then show ?thesis unfolding iff(1) conns' by (auto simp: ls)
    next
      case False
      then show ?thesis using other [OF False] iff by (simp add: conns')
    qed
  qed
  ultimately show ?thesis using run c by (auto simp: s'_def s1_def)
qed

section \<open>Idle monitors\<close>

text \<open>
  The events of a loop with an idle timeout: activity on a connection, a tick of the timer, the
  end and the start of a connection.
\<close>

datatype idle_op = FeedConn nat | Tick | Gone nat | Born nat

fun run_idle :: "int \<Rightarrow> idle_op \<Rightarrow> idle_loop \<Rightarrow> idle_loop res" where
  "run_idle tid (FeedConn c) s = loop_Feed tid c s"
| "run_idle tid Tick s = loop_OnTimer s"
| "run_idle tid (Gone c) s = Inr (s\<lparr>il_conns := (il_conns s)(c := None)\<rparr>)"
| "run_idle tid (Born c) s = Inr (s\<lparr>il_conns := (il_conns s)(c \<mapsto> None)\<rparr>)"

text \<open>A live connection is fed; a new one was never seen before.\<close>

fun can_idle :: "idle_op \<Rightarrow> idle_loop \<Rightarrow> bool" where
  "can_idle (FeedConn c) s \<longleftrightarrow> c \<in> dom (il_conns s)"
| "can_idle (Born c) s \<longleftrightarrow> c \<notin> dom (il_conns s) \<and> c \<notin> ran (il_entries s)"
| "can_idle _ s \<longleftrightarrow> True"

text \<open>The specification: each fed connection has a number of ticks left.\<close>

fun idle_spec :: "nat \<Rightarrow> idle_op \<Rightarrow> (nat \<rightharpoonup> nat) \<Rightarrow> nat \<rightharpoonup> nat" where
  "idle_spec n (FeedConn c) m = m(c \<mapsto> n)"
| "idle_spec n Tick m = idle_tick m"
| "idle_spec n (Gone c) m = m(c := None)"
| "idle_spec n (Born c) m = m"

fun idle_expired :: "idle_op \<Rightarrow> (nat \<rightharpoonup> nat) \<Rightarrow> nat set" where
  "idle_expired Tick m = {c. m c = Some 1}"
| "idle_expired _ m = {}"

text \<open>A run of operations, each allowed where it happens.\<close>

fun idle_trace :: "(idle_op \<Rightarrow> 's \<Rightarrow> 's res) \<Rightarrow> (idle_op \<Rightarrow> 's \<Rightarrow> bool) \<Rightarrow> idle_op list \<Rightarrow> 's \<Rightarrow> 's \<Rightarrow> bool" where
  "idle_trace run can [] s s' \<longleftrightarrow> s' = s"
| "idle_trace run can (op # ops) s s' \<longleftrightarrow> can op s \<and> (\<exists>t. run op s = Inr t \<and> idle_trace run can ops t s')"

definition ticks :: "idle_op list \<Rightarrow> nat" where
  "ticks ops = length (filter (\<lambda>op. op = Tick) ops)"

lemma ticks_simps [simp]: "ticks [] = 0" "ticks (op # ops) = (if op = Tick then 1 else 0) + ticks ops"
  by (simp_all add: ticks_def)

lemma count_list_distinct: "distinct xs \<Longrightarrow> count_list xs c = (if c \<in> set xs then 1 else 0)"
  by (induction xs) auto

locale idle_monitor =
  fixes run :: "idle_op \<Rightarrow> 's \<Rightarrow> 's res" and can :: "idle_op \<Rightarrow> 's \<Rightarrow> bool" and inv :: "'s \<Rightarrow> bool"
    and idle_of :: "'s \<Rightarrow> nat \<rightharpoonup> nat" and closed :: "'s \<Rightarrow> nat list" and n :: nat
  assumes positive: "0 < n"
    and run_ok: "inv s \<Longrightarrow> can op s \<Longrightarrow> \<exists>s' cs. run op s = Inr s' \<and> inv s' \<and> idle_of s' = idle_spec n op (idle_of s)
      \<and> closed s' = closed s @ cs \<and> distinct cs \<and> set cs = idle_expired op (idle_of s)"
begin

lemma step:
  assumes "inv s" "can op s" "run op s = Inr s'"
  obtains cs where "inv s'" "idle_of s' = idle_spec n op (idle_of s)" "closed s' = closed s @ cs" "distinct cs"
    "set cs = idle_expired op (idle_of s)"
  using run_ok [OF assms(1,2)] assms(3) by auto

lemma not_monitored:
  "inv s \<Longrightarrow> idle_trace run can ops s s' \<Longrightarrow> idle_of s c = None \<Longrightarrow> FeedConn c \<notin> set ops \<Longrightarrow>
   \<exists>cs. closed s' = closed s @ cs \<and> c \<notin> set cs"
proof (induction ops arbitrary: s)
  case (Cons op ops)
  obtain t where t: "can op s" "run op s = Inr t" "idle_trace run can ops t s'" using Cons.prems(2) by auto
  obtain cs where cs: "inv t" "idle_of t = idle_spec n op (idle_of s)" "closed t = closed s @ cs"
      "set cs = idle_expired op (idle_of s)"
    by (rule step [OF Cons.prems(1) t(1,2)])
  have "idle_of t c = None" using cs(2) Cons.prems(3,4) by (cases op) (auto simp: idle_tick_def)
  then obtain ds where ds: "closed s' = closed t @ ds" "c \<notin> set ds" using Cons.IH [OF cs(1) t(3)] Cons.prems(4) by auto
  have "c \<notin> set cs" using cs(4) Cons.prems(3) by (cases op) auto
  with ds cs(3) show ?case by auto
qed auto

lemma countdown:
  "inv s \<Longrightarrow> idle_trace run can ops s s' \<Longrightarrow> idle_of s c = Some r \<Longrightarrow> 0 < r \<Longrightarrow> FeedConn c \<notin> set ops \<Longrightarrow> Gone c \<notin> set ops \<Longrightarrow>
   \<exists>cs. closed s' = closed s @ cs \<and> count_list cs c = (if r \<le> ticks ops then 1 else 0)"
proof (induction ops arbitrary: s r)
  case (Cons op ops)
  obtain t where t: "can op s" "run op s = Inr t" "idle_trace run can ops t s'" using Cons.prems(2) by auto
  obtain cs where cs: "inv t" "idle_of t = idle_spec n op (idle_of s)" "closed t = closed s @ cs" "distinct cs"
      "set cs = idle_expired op (idle_of s)"
    by (rule step [OF Cons.prems(1) t(1,2)])
  show ?case
  proof (cases "op = Tick \<and> r = 1")
    case True
    then have "idle_of t c = None" "c \<in> set cs" using cs(2,5) Cons.prems(3) by (simp_all add: idle_tick_def)
    moreover obtain ds where ds: "closed s' = closed t @ ds" "c \<notin> set ds"
      using not_monitored [OF cs(1) t(3), of c] Cons.prems(5) calculation(1) by auto
    moreover have "count_list cs c = 1" using cs(4) calculation(2) by (simp add: count_list_distinct)
    ultimately show ?thesis using True cs(3) by (auto simp: count_notin)
  next
    case False
    define r' where "r' = (if op = Tick then r - 1 else r)"
    have r': "idle_of t c = Some r'" "0 < r'"
      using False Cons.prems(3-6) cs(2) by (cases op; auto simp: idle_tick_def r'_def)+
    have "c \<notin> set cs" using cs(5) Cons.prems(3) False by (cases op) auto
    moreover obtain ds where "closed s' = closed t @ ds" "count_list ds c = (if r' \<le> ticks ops then 1 else 0)"
      using Cons.IH [OF cs(1) t(3) r'] Cons.prems(5,6) by auto
    moreover have "r' \<le> ticks ops \<longleftrightarrow> r \<le> ticks (op # ops)" using Cons.prems(4) by (auto simp: r'_def)
    ultimately show ?thesis using cs(3) by (auto simp: count_notin)
  qed
qed auto

text \<open>A connection is closed at the \<open>n\<close>-th tick after its last activity, once, and not before.\<close>

lemma closed_when_idle:
  assumes "inv s" "idle_trace run can (FeedConn c # ops) s s'" "FeedConn c \<notin> set ops" "Gone c \<notin> set ops"
  shows "\<exists>cs. closed s' = closed s @ cs \<and> count_list cs c = (if n \<le> ticks ops then 1 else 0)"
proof -
  obtain t where t: "can (FeedConn c) s" "run (FeedConn c) s = Inr t" "idle_trace run can ops t s'" using assms(2) by auto
  obtain cs where cs: "inv t" "idle_of t = (idle_of s)(c \<mapsto> n)" "closed t = closed s"
    using step [OF assms(1) t(1,2)] by (metis append_Nil2 idle_expired.simps(2) idle_spec.simps(1) set_empty)
  then show ?thesis using countdown [OF cs(1) t(3) _ positive assms(3,4)] by simp
qed

end

lemma run_idle_ok:
  assumes inv: "wheel_inv n s" "il_tid s = tid" and n: "0 < n" and can: "can_idle op s"
  shows "\<exists>s' cs. run_idle tid op s = Inr s' \<and> wheel_inv n s' \<and> il_tid s' = tid \<and> idle s' = idle_spec n op (idle s)
    \<and> il_shut s' = il_shut s @ cs \<and> distinct cs \<and> set cs = idle_expired op (idle s)"
proof (cases op)
  case (FeedConn c)
  then show ?thesis using Feed_ok [OF inv(1), of c tid] can inv(2) by fastforce
next
  case Tick
  then show ?thesis using OnTimer_ok [OF inv(1) n] inv(2) by auto
next
  case (Gone c)
  let ?s = "s\<lparr>il_conns := (il_conns s)(c := None)\<rparr>"
  have "wheel_inv n ?s" using inv(1) unfolding wheel_inv_def by (auto split: if_splits)
  moreover have "idle ?s = (idle s)(c := None)" by (auto simp: idle_def fun_eq_iff split: option.splits)
  ultimately show ?thesis using Gone inv(2) by simp
next
  case (Born c)
  let ?s = "s\<lparr>il_conns := (il_conns s)(c \<mapsto> None)\<rparr>"
  have c: "c \<notin> dom (il_conns s)" "\<And>e. il_entries s e \<noteq> Some c" using can Born by (auto simp: ran_def)
  have "wheel_inv n ?s" using inv(1) c unfolding wheel_inv_def by (auto split: if_splits)
  moreover have "idle ?s = idle s" using c(1) by (auto simp: idle_def fun_eq_iff dom_def split: option.splits)
  ultimately show ?thesis using Born inv(2) by simp
qed

interpretation wheels: idle_monitor "run_idle tid" can_idle "\<lambda>s. wheel_inv (Suc m) s \<and> il_tid s = tid" idle il_shut "Suc m"
proof unfold_locales
  fix op s
  assume "wheel_inv (Suc m) s \<and> il_tid s = tid" "can_idle op s"
  then show "\<exists>s' cs. run_idle tid op s = Inr s' \<and> (wheel_inv (Suc m) s' \<and> il_tid s' = tid) \<and> idle s' = idle_spec (Suc m) op (idle s)
      \<and> il_shut s' = il_shut s @ cs \<and> distinct cs \<and> set cs = idle_expired op (idle s)"
    using run_idle_ok [of "Suc m" s tid op] by auto
qed simp

lemma EnableIdleTimeout_inv:
  assumes "0 < k" "il_timing_wheel s = None" "il_entries s = Map.empty" "\<forall>c e. il_conns s c \<noteq> Some (Some e)"
  shows "\<exists>s'. EnableIdleTimeout k s = Inr s' \<and> wheel_inv (nat k) s' \<and> idle s' = Map.empty \<and> il_shut s' = il_shut s
    \<and> il_conns s' = il_conns s \<and> il_tid s' = il_tid s"
proof -
  define w where "w = \<lparr>tw_wheel = replicate (nat k) [], tw_current_bucket = 0\<rparr>"
  define s' where "s' = s\<lparr>il_timing_wheel := Some w\<rparr>"
  have "EnableIdleTimeout k s = Inr s'"
    using assms(1,2) by (simp add: EnableIdleTimeout_def new_TimingWheel_def s'_def w_def)
  moreover have "wheel_inv (nat k) s'"
    by (rule wheel_invI [of _ w]) (use assms in \<open>auto simp: s'_def w_def\<close>)
  moreover have "idle s' = Map.empty" using assms(4) by (auto simp: idle_def s'_def fun_eq_iff split: option.splits)
  ultimately show ?thesis by (auto simp: s'_def)
qed

section \<open>Properties\<close>

definition idle_start :: idle_loop where
  "idle_start = \<lparr>il_tid = 1, il_timing_wheel = None, il_entries = Map.empty, il_next_entry = 0,
     il_conns = [4 \<mapsto> None, 5 \<mapsto> None], il_shut = []\<rparr>"

text \<open>
  Property C13. An idle connection is closed on time. After \<open>EnableIdleTimeout(k)\<close> and any
  activity, when a connection is fed and then not again, \<open>ShutDown\<close> is called on it at the \<open>k\<close>-th
  tick after that and exactly once; with fewer ticks it is not called, whatever other connections do.
\<close>

theorem idle_timeout_exact:
  assumes "0 < k" and "il_timing_wheel s0 = None" and "il_entries s0 = Map.empty" and "\<forall>c e. il_conns s0 c \<noteq> Some (Some e)"
    and "EnableIdleTimeout k s0 = Inr s1" and "idle_trace (run_idle (il_tid s0)) can_idle before s1 s"
    and "idle_trace (run_idle (il_tid s0)) can_idle (FeedConn c # ops) s s'" and "FeedConn c \<notin> set ops" and "Gone c \<notin> set ops"
  shows "\<exists>cs. il_shut s' = il_shut s @ cs \<and> count_list cs c = (if nat k \<le> ticks ops then 1 else 0)"
proof -
  obtain m where m: "nat k = Suc m" using assms(1) by (cases "nat k") auto
  have "wheel_inv (Suc m) s1 \<and> il_tid s1 = il_tid s0"
    using EnableIdleTimeout_inv [OF assms(1-4)] assms(5) m by auto
  then have "wheel_inv (Suc m) s \<and> il_tid s = il_tid s0"
    using assms(6)
  proof (induction before arbitrary: s1)
    case (Cons op ops)
    then show ?case using run_idle_ok [of "Suc m" s1 "il_tid s0" op] by fastforce
  qed simp
  then show ?thesis unfolding m by (rule wheels.closed_when_idle [OF _ assms(7-9)])
qed

definition wheel_start :: idle_loop where
  "wheel_start = idle_start\<lparr>il_timing_wheel := Some \<lparr>tw_wheel = [[], []], tw_current_bucket = 0\<rparr>\<rparr>"

lemma wheel_start_enabled: "EnableIdleTimeout 2 idle_start = Inr wheel_start"
  by (simp add: EnableIdleTimeout_def new_TimingWheel_def idle_start_def wheel_start_def eval_nat_numeral)

lemma idle_start_ready: "il_timing_wheel idle_start = None" "il_entries idle_start = Map.empty"
    "\<forall>c e. il_conns idle_start c \<noteq> Some (Some e)" "il_tid idle_start = 1"
  by (auto simp: idle_start_def)

theorem idle_timeout_exact_witness:
  "\<exists>s'. idle_trace (run_idle 1) can_idle [FeedConn 4, Tick, Tick] wheel_start s' \<and> count_list (il_shut s') 4 = 1"
proof -
  have "\<exists>s'. idle_trace (run_idle 1) can_idle [FeedConn 4, Tick, Tick] wheel_start s'"
    by (simp add: wheel_start_def idle_start_def loop_Feed_def Feed_def loop_OnTimer_def OnTimer_def Let_def bucket_insert_def)
  then obtain s' where s': "idle_trace (run_idle 1) can_idle [FeedConn 4, Tick, Tick] wheel_start s'" by blast
  have "il_shut wheel_start = []" by (simp add: wheel_start_def idle_start_def)
  then show ?thesis
    using s' idle_timeout_exact [of 2 idle_start wheel_start "[]" wheel_start 4 "[Tick, Tick]" s'] idle_start_ready wheel_start_enabled
    by (intro exI [of _ s']) (simp del: idle_trace.simps(2))
qed

text \<open>
  Property C25. The wheel refines a map of remaining ticks: in every state of the ring the operations
  succeed; feeding a connection sets its count to the number of buckets, a tick decrements all
  counts, and exactly the connections whose count reaches zero are shut down, once each.
\<close>

theorem wheel_refines_countdown:
  assumes "wheel_inv n s" and "0 < n" and "can_idle op s"
  shows "\<exists>s' cs. run_idle (il_tid s) op s = Inr s' \<and> wheel_inv n s' \<and> idle s' = idle_spec n op (idle s)
    \<and> il_shut s' = il_shut s @ cs \<and> distinct cs \<and> set cs = idle_expired op (idle s)"
  using run_idle_ok [OF assms(1) refl assms(2,3)] by blast

theorem wheel_refines_countdown_witness:
  "\<exists>s'. run_idle 1 (FeedConn 4) wheel_start = Inr s' \<and> idle s' 4 = Some 2"
proof -
  have "wheel_inv 2 wheel_start" using EnableIdleTimeout_inv [of 2 idle_start] idle_start_ready wheel_start_enabled by simp
  moreover have "can_idle (FeedConn 4) wheel_start" "il_tid wheel_start = 1" by (simp_all add: wheel_start_def idle_start_def)
  ultimately show ?thesis using wheel_refines_countdown [of 2 wheel_start "FeedConn 4"] by auto
qed

text \<open>
  Remark. An idle timeout of zero seconds makes a wheel without buckets: the first tick divides
  by zero and feeding any connection indexes an empty vector.
\<close>

theorem zero_timeout_faults:
  "\<exists>s. EnableIdleTimeout 0 idle_start = Inr s \<and> loop_OnTimer s = Inl DivisionByZero \<and> loop_Feed 1 4 s = Inl OutOfRange"
  by (simp add: EnableIdleTimeout_def new_TimingWheel_def idle_start_def loop_OnTimer_def OnTimer_def loop_Feed_def Feed_def)

end
