(* ===== verification/Acceptor.thy ===== *)
theory Acceptor
  imports EpollPoller Sockets
begin

unbundle bit_operations_syntax

text \<open>
  Listening: \<open>Socket\<close> (\<open>src/Socket.cc\<close>) as the acceptor uses it, and \<open>Acceptor\<close> (\<open>src/Acceptor.cc\<close>)
  over the poller model. The socket calls act on the same kernel state as \<open>epoll_ctl\<close>; \<open>tcp\<close> reads
  the open sockets from it.
\<close>

section \<open>System calls\<close>

record 'k socket_calls =
  sk_socket :: "'k \<Rightarrow> nat \<Rightarrow> int \<times> 'k"
  sk_setsockopt :: "'k \<Rightarrow> int \<Rightarrow> int \<Rightarrow> int \<times> 'k"
  sk_bind :: "'k \<Rightarrow> int \<Rightarrow> sockaddr_in \<Rightarrow> int \<times> 'k"
  sk_listen :: "'k \<Rightarrow> int \<Rightarrow> int \<times> 'k"
  sk_accept4 :: "'k \<Rightarrow> int \<Rightarrow> (int \<times> sockaddr_in) \<times> 'k"
  sk_close :: "'k \<Rightarrow> int \<Rightarrow> 'k"

section \<open>Socket\<close>

text \<open>What \<open>BindAddress\<close>, \<open>Listen\<close> and \<open>SetReuseAddr\<close> write to the log; they return nothing.\<close>

datatype socket_error = BindFailed | ListenFailed | SetReuseAddrFailed

definition BindAddress :: "'k socket_calls \<Rightarrow> sockaddr_in \<Rightarrow> int \<Rightarrow> 'k \<Rightarrow> socket_error list \<times> 'k" where
  "BindAddress os localaddr sockfd k =
     (let (res, k') = sk_bind os k sockfd localaddr in (if res = - 1 then [BindFailed] else [], k'))"

definition Listen :: "'k socket_calls \<Rightarrow> int \<Rightarrow> 'k \<Rightarrow> socket_error list \<times> 'k" where
  "Listen os sockfd k =
     (let (res, k') = sk_listen os k sockfd in (if res = - 1 then [ListenFailed] else [], k'))"

definition SetReuseAddr :: "'k socket_calls \<Rightarrow> bool \<Rightarrow> int \<Rightarrow> 'k \<Rightarrow> socket_error list \<times> 'k" where
  "SetReuseAddr os on sockfd k =
     (let (res, k') = sk_setsockopt os k sockfd (if on then 1 else 0)
      in (if res < 0 then [SetReuseAddrFailed] else [], k'))"

definition destroy_Socket :: "'k socket_calls \<Rightarrow> int \<Rightarrow> 'k \<Rightarrow> 'k" where
  "destroy_Socket os sockfd k = sk_close os k sockfd"

section \<open>Acceptor\<close>

text \<open>\<open>ac_errors\<close> is what was logged so far.\<close>

record 'k acceptor = "(unit, 'k) poller" +
  ac_fd :: int
  ac_chan :: nat
  ac_listening :: bool
  ac_has_callback :: bool
  ac_errors :: "socket_error list"

definition new_Acceptor :: "'k socket_calls \<Rightarrow> (unit, 'k) poller \<Rightarrow> sockaddr_in \<Rightarrow> bool \<Rightarrow> nat \<Rightarrow> 'k acceptor" where
  "new_Acceptor os loop listenAddr reuseport c =
     (let (sockfd, k0) = sk_socket os (p_kernel loop) (sin_family listenAddr);
          (e1, k1) = SetReuseAddr os reuseport sockfd k0;
          (e2, k2) = BindAddress os listenAddr sockfd k1
      in poller.extend (create_channel c ((new_Channel sockfd)\<lparr>ch_read_callback := Some ()\<rparr>) (loop\<lparr>p_kernel := k2\<rparr>))
           (acceptor.fields sockfd c False False (e1 @ e2)))"

definition SetNewConnectionCallback :: "'k acceptor \<Rightarrow> 'k acceptor" where
  "SetNewConnectionCallback a = a\<lparr>ac_has_callback := True\<rparr>"

definition listen :: "'k socket_calls \<Rightarrow> 'k epoll_ctl_fun \<Rightarrow> int \<Rightarrow> 'k acceptor \<Rightarrow> 'k acceptor res" where
  "listen os ctl tid a =
     bindE (AssertInLoopThread tid a) (\<lambda>_.
       let (e, k) = Listen os (ac_fd a) (p_kernel a)
       in EnableReading ctl tid (ac_chan a)
            (a\<lparr>ac_listening := True, p_kernel := k, ac_errors := ac_errors a @ e\<rparr>))"

text \<open>What becomes of the descriptor \<open>accept4\<close> returned.\<close>

datatype accepted = HandedOver int sockaddr_in | ClosedAgain int | AcceptFailed

text \<open>\<open>peeraddr\<close> is the default-constructed address of the local variable.\<close>

definition Acceptor_HandleRead :: "'k socket_calls \<Rightarrow> int \<Rightarrow> sockaddr_in \<Rightarrow> 'k acceptor \<Rightarrow> (accepted \<times> 'k acceptor) res" where
  "Acceptor_HandleRead os tid peeraddr a =
     bindE (AssertInLoopThread tid a) (\<lambda>_.
       let (r, k) = sk_accept4 os (p_kernel a) (ac_fd a);
           (conn_fd, peer) = Accept r peeraddr
       in Inr (if conn_fd \<ge> 0
               then (if ac_has_callback a then (HandedOver conn_fd peer, a\<lparr>p_kernel := k\<rparr>)
                     else (ClosedAgain conn_fd, a\<lparr>p_kernel := sk_close os k conn_fd\<rparr>))
               else (AcceptFailed, a\<lparr>p_kernel := k\<rparr>)))"

text \<open>The destructor's body, then the members: the channel and, last, the socket.\<close>

definition destroy_Acceptor :: "'k socket_calls \<Rightarrow> 'k epoll_ctl_fun \<Rightarrow> int \<Rightarrow> 'k acceptor \<Rightarrow> 'k acceptor res" where
  "destroy_Acceptor os ctl tid a =
     bindE (bindE (DisableAll ctl tid (ac_chan a) a) (Remove ctl tid (ac_chan a))) (\<lambda>a1.
       let a2 = destroy_channel (ac_chan a1) a1
       in Inr (a2\<lparr>p_kernel := destroy_Socket os (ac_fd a2) (p_kernel a2)\<rparr>))"

section \<open>What the kernel documents\<close>

record tcp_socket =
  ts_reuse :: bool
  ts_addr :: "sockaddr_in option"
  ts_listening :: bool

text \<open>
  A call that fails returns \<open>- 1\<close> and changes nothing. \<open>socket\<close> and \<open>accept4\<close> return a descriptor that
  was not open, hence in no interest list; \<open>listen\<close> on a socket without an address gives it one of the kernel's choice; \<open>close\<close>
  removes the descriptor, from the interest list too, and no other call changes that list.
\<close>

definition socket_spec :: "'k socket_calls \<Rightarrow> ('k \<Rightarrow> int \<rightharpoonup> tcp_socket) \<Rightarrow> ('k \<Rightarrow> int \<rightharpoonup> epoll_event) \<Rightarrow> bool" where
  "socket_spec os tcp interest \<longleftrightarrow>
     (\<forall>k f fd k'. sk_socket os k f = (fd, k') \<longrightarrow> interest k' = interest k
        \<and> (if fd < 0 then tcp k' = tcp k
           else tcp k fd = None \<and> tcp k' = (tcp k)(fd \<mapsto> \<lparr>ts_reuse = False, ts_addr = None, ts_listening = False\<rparr>)))
   \<and> (\<forall>k fd v res k'. sk_setsockopt os k fd v = (res, k') \<longrightarrow> interest k' = interest k
        \<and> (res = - 1 \<and> tcp k' = tcp k
           \<or> res = 0 \<and> (\<exists>s. tcp k fd = Some s \<and> tcp k' = (tcp k)(fd \<mapsto> s\<lparr>ts_reuse := v \<noteq> 0\<rparr>))))
   \<and> (\<forall>k fd a res k'. sk_bind os k fd a = (res, k') \<longrightarrow> interest k' = interest k
        \<and> (res = - 1 \<and> tcp k' = tcp k
           \<or> res = 0 \<and> (\<exists>s. tcp k fd = Some s \<and> tcp k' = (tcp k)(fd \<mapsto> s\<lparr>ts_addr := Some a\<rparr>))))
   \<and> (\<forall>k fd res k'. sk_listen os k fd = (res, k') \<longrightarrow> interest k' = interest k
        \<and> (res = - 1 \<and> tcp k' = tcp k
           \<or> res = 0 \<and> (\<exists>s a. tcp k fd = Some s \<and> (ts_addr s = None \<or> ts_addr s = Some a)
               \<and> tcp k' = (tcp k)(fd \<mapsto> s\<lparr>ts_addr := Some a, ts_listening := True\<rparr>))))
   \<and> (\<forall>k fd cfd peer k'. sk_accept4 os k fd = ((cfd, peer), k') \<longrightarrow> interest k' = interest k
        \<and> (if cfd < 0 then tcp k' = tcp k else tcp k cfd = None \<and> interest k cfd = None \<and> (\<exists>s. tcp k' = (tcp k)(cfd \<mapsto> s))))
   \<and> (\<forall>k fd. interest (sk_close os k fd) = (interest k)(fd := None) \<and> tcp (sk_close os k fd) = (tcp k)(fd := None))"

text \<open>\<open>epoll_ctl\<close> does not touch the sockets.\<close>

definition ctl_keeps :: "'k epoll_ctl_fun \<Rightarrow> ('k \<Rightarrow> 'x) \<Rightarrow> bool" where
  "ctl_keeps ctl f \<longleftrightarrow> (\<forall>k op fd ev. f (snd (ctl k op fd ev)) = f k)"

lemma socket_specD:
  assumes "socket_spec os tcp interest"
  shows "sk_socket os k f = (fd, k') \<Longrightarrow> interest k' = interest k"
    "sk_socket os k f = (fd, k') \<Longrightarrow> 0 \<le> fd \<Longrightarrow> tcp k fd = None
       \<and> tcp k' = (tcp k)(fd \<mapsto> \<lparr>ts_reuse = False, ts_addr = None, ts_listening = False\<rparr>)"
    "sk_accept4 os k fd = ((cfd, peer), k') \<Longrightarrow> interest k' = interest k"
    "sk_accept4 os k fd = ((cfd, peer), k') \<Longrightarrow> cfd < 0 \<Longrightarrow> tcp k' = tcp k"
    "sk_accept4 os k fd = ((cfd, peer), k') \<Longrightarrow> 0 \<le> cfd \<Longrightarrow> tcp k cfd = None \<and> interest k cfd = None \<and> (\<exists>s. tcp k' = (tcp k)(cfd \<mapsto> s))"
    "interest (sk_close os k fd) = (interest k)(fd := None)" "tcp (sk_close os k fd) = (tcp k)(fd := None)"
  using assms unfolding socket_spec_def by (metis not_le)+

lemma SetReuseAddr_spec:
  assumes "socket_spec os tcp interest" and "SetReuseAddr os on fd k = (e, k')" and "tcp k fd = Some s"
  shows "interest k' = interest k \<and> tcp k' = (tcp k)(fd \<mapsto> if e = [] then s\<lparr>ts_reuse := on\<rparr> else s)
    \<and> e \<in> {[], [SetReuseAddrFailed]}"
proof -
  obtain res where r: "sk_setsockopt os k fd (if on then 1 else 0) = (res, k')" "e = (if res < 0 then [SetReuseAddrFailed] else [])"
    using assms(2) by (auto simp: SetReuseAddr_def split: prod.splits)
  have "interest k' = interest k \<and> (res = - 1 \<and> tcp k' = tcp k
      \<or> res = 0 \<and> (\<exists>s. tcp k fd = Some s \<and> tcp k' = (tcp k)(fd \<mapsto> s\<lparr>ts_reuse := (if on then 1 else 0) \<noteq> (0 :: int)\<rparr>)))"
    by (rule assms(1) [unfolded socket_spec_def, THEN conjunct2, THEN conjunct1, rule_format, OF r(1)])
  then show ?thesis using assms(3) r(2) by (auto simp: map_upd_triv)
qed

lemma BindAddress_spec:
  assumes "socket_spec os tcp interest" and "BindAddress os a fd k = (e, k')" and "tcp k fd = Some s"
  shows "interest k' = interest k \<and> tcp k' = (tcp k)(fd \<mapsto> if e = [] then s\<lparr>ts_addr := Some a\<rparr> else s) \<and> e \<in> {[], [BindFailed]}"
proof -
  obtain res where r: "sk_bind os k fd a = (res, k')" "e = (if res = - 1 then [BindFailed] else [])"
    using assms(2) by (auto simp: BindAddress_def split: prod.splits)
  have "interest k' = interest k \<and> (res = - 1 \<and> tcp k' = tcp k
      \<or> res = 0 \<and> (\<exists>s. tcp k fd = Some s \<and> tcp k' = (tcp k)(fd \<mapsto> s\<lparr>ts_addr := Some a\<rparr>)))"
    by (rule assms(1) [unfolded socket_spec_def, THEN conjunct2, THEN conjunct2, THEN conjunct1, rule_format, OF r(1)])
  then show ?thesis using assms(3) r(2) by (auto simp: map_upd_triv)
qed

lemma Listen_spec:
  assumes "socket_spec os tcp interest" and "Listen os fd k = (e, k')" and "tcp k fd = Some s"
  shows "interest k' = interest k \<and> e \<in> {[], [ListenFailed]}
    \<and> (\<exists>a. (ts_addr s = None \<or> ts_addr s = Some a)
         \<and> tcp k' = (tcp k)(fd \<mapsto> if e = [] then s\<lparr>ts_addr := Some a, ts_listening := True\<rparr> else s))"
proof -
  obtain res where r: "sk_listen os k fd = (res, k')" "e = (if res = - 1 then [ListenFailed] else [])"
    using assms(2) by (auto simp: Listen_def split: prod.splits)
  have "interest k' = interest k \<and> (res = - 1 \<and> tcp k' = tcp k
      \<or> res = 0 \<and> (\<exists>s a. tcp k fd = Some s \<and> (ts_addr s = None \<or> ts_addr s = Some a)
          \<and> tcp k' = (tcp k)(fd \<mapsto> s\<lparr>ts_addr := Some a, ts_listening := True\<rparr>)))"
    by (rule assms(1) [unfolded socket_spec_def, THEN conjunct2, THEN conjunct2, THEN conjunct2, THEN conjunct1, rule_format, OF r(1)])
  then consider "e = [ListenFailed]" "tcp k' = tcp k" "interest k' = interest k"
    | a where "e = []" "ts_addr s = None \<or> ts_addr s = Some a" "interest k' = interest k"
        "tcp k' = (tcp k)(fd \<mapsto> s\<lparr>ts_addr := Some a, ts_listening := True\<rparr>)"
    using assms(3) r(2) by auto
  then show ?thesis
  proof cases
    case 1
    then show ?thesis using assms(3) by (cases "ts_addr s") (auto simp: map_upd_triv)
  next
    case (2 a)
    then show ?thesis by (intro conjI exI [of _ a]) simp_all
  qed
qed

lemma ctl_keepsD [simp]: "ctl_keeps ctl f \<Longrightarrow> f (snd (ctl k op fd ev)) = f k"
  unfolding ctl_keeps_def by blast

text \<open>No operation of the poller on a channel changes what \<open>epoll_ctl\<close> keeps.\<close>

lemma Update_keeps:
  "ctl_keeps ctl f \<Longrightarrow> Update ctl op c p = Inr p' \<Longrightarrow> f (p_kernel p') = f (p_kernel p)"
  by (auto simp: Update_def Let_def split: option.splits if_splits)

lemma on_channel_kernel: "on_channel c g p = Inr p' \<Longrightarrow> p_kernel p' = p_kernel p"
  by (auto simp: on_channel_def split: option.splits)

lemma LoopUpdateChannel_keeps:
  "ctl_keeps ctl f \<Longrightarrow> LoopUpdateChannel ctl tid c p = Inr p' \<Longrightarrow> f (p_kernel p') = f (p_kernel p)"
  by (auto simp: LoopUpdateChannel_def UpdateChannel_def bindE_Inr_iff split: option.splits if_splits
      dest!: Update_keeps on_channel_kernel)

lemma LoopRemoveChannel_keeps:
  "ctl_keeps ctl f \<Longrightarrow> LoopRemoveChannel ctl tid c p = Inr p' \<Longrightarrow> f (p_kernel p') = f (p_kernel p)"
  by (auto simp: LoopRemoveChannel_def RemoveChannel_def bindE_Inr_iff split: option.splits if_splits
      dest!: Update_keeps on_channel_kernel)

lemma EnableReading_keeps:
  "ctl_keeps ctl f \<Longrightarrow> EnableReading ctl tid c p = Inr p' \<Longrightarrow> f (p_kernel p') = f (p_kernel p)"
  by (auto simp: EnableReading_def bindE_Inr_iff dest!: LoopUpdateChannel_keeps on_channel_kernel)

lemma DisableAll_keeps:
  "ctl_keeps ctl f \<Longrightarrow> DisableAll ctl tid c p = Inr p' \<Longrightarrow> f (p_kernel p') = f (p_kernel p)"
  by (auto simp: DisableAll_def bindE_Inr_iff dest!: LoopUpdateChannel_keeps on_channel_kernel)

lemma Remove_keeps:
  "ctl_keeps ctl f \<Longrightarrow> Remove ctl tid c p = Inr p' \<Longrightarrow> f (p_kernel p') = f (p_kernel p)"
  by (auto simp: Remove_def bindE_Inr_iff split: option.splits dest!: LoopRemoveChannel_keeps)

lemma poller_inv_interest:
  "p_chans a = p_chans b \<Longrightarrow> interest (p_kernel a) = interest (p_kernel b) \<Longrightarrow> poller_inv interest a = poller_inv interest b"
  by (simp add: poller_inv_def)

text \<open>The channels determine the interest list.\<close>

lemma poller_inv_same_interest:
  assumes x: "poller_inv interest x" and y: "poller_inv interest y" and eq: "p_chans x = p_chans y"
    and e: "interest (p_kernel x) fd = Some e"
  shows "interest (p_kernel y) fd = Some e"
proof -
  obtain ev c where ec: "e = (ev, c)" by (cases e)
  obtain ch where ch: "p_chans x c = Some ch" "ch_fd ch = fd" "ch_index ch = kAdded"
    using poller_inv_registered [OF x] e ec by blast
  then show ?thesis using poller_inv_added [OF x ch(1,3)] poller_inv_added [OF y, of c ch] eq e by simp
qed

lemma poller_inv_determines:
  assumes "poller_inv interest a" and "poller_inv interest b" and "p_chans a = p_chans b"
  shows "interest (p_kernel a) = interest (p_kernel b)"
proof
  fix fd
  show "interest (p_kernel a) fd = interest (p_kernel b) fd"
    using poller_inv_same_interest [OF assms, of fd] poller_inv_same_interest [OF assms(2,1) assms(3) [symmetric], of fd]
    by (cases "interest (p_kernel a) fd"; cases "interest (p_kernel b) fd") auto
qed

section \<open>The acceptor's life\<close>

text \<open>What the log says about the listening socket.\<close>

definition listener_state :: "sockaddr_in \<Rightarrow> bool \<Rightarrow> socket_error list \<Rightarrow> tcp_socket \<Rightarrow> bool" where
  "listener_state addr reuse errors s \<longleftrightarrow>
     (ts_reuse s \<longleftrightarrow> reuse \<and> SetReuseAddrFailed \<notin> set errors)
   \<and> (ts_listening s \<longrightarrow> ts_addr s \<noteq> None)
   \<and> (BindFailed \<notin> set errors \<longrightarrow> ts_addr s = Some addr)"

definition ac_inv :: "('k \<Rightarrow> int \<rightharpoonup> epoll_event) \<Rightarrow> 'k acceptor \<Rightarrow> bool" where
  "ac_inv interest a \<longleftrightarrow> poller_inv interest a
     \<and> (\<exists>ch. p_chans a (ac_chan a) = Some ch \<and> ch_fd ch = ac_fd a \<and> (ac_listening a \<longrightarrow> ch_index ch = kAdded \<and> is_reading ch))"

lemma new_Acceptor_ok:
  fixes reuse :: bool
  assumes os: "socket_spec os tcp interest" and inv: "poller_inv interest p" and c: "p_chans p c = None"
    and sock: "sk_socket os (p_kernel p) (sin_family addr) = (fd, k0)" "0 \<le> fd"
    and fresh: "\<forall>d dh. p_chans p d = Some dh \<longrightarrow> ch_fd dh \<noteq> fd"
  defines "a \<equiv> new_Acceptor os p addr reuse c"
  shows "ac_inv interest a" "ac_fd a = fd" "ac_chan a = c" "p_loop_tid a = p_loop_tid p" "tcp (p_kernel p) fd = None"
    "\<exists>s. tcp (p_kernel a) = (tcp (p_kernel p))(fd \<mapsto> s) \<and> listener_state addr reuse (ac_errors a) s \<and> \<not> ts_listening s"
    "ListenFailed \<notin> set (ac_errors a)" "\<exists>ch. p_chans a = (p_chans p)(c \<mapsto> ch)"
proof -
  obtain e1 k1 where r1: "SetReuseAddr os reuse fd k0 = (e1, k1)" by fastforce
  obtain e2 k2 where r2: "BindAddress os addr fd k1 = (e2, k2)" by fastforce
  let ?ch = "(new_Channel fd)\<lparr>ch_read_callback := Some ()\<rparr> :: unit channel"
  define p2 where "p2 = p\<lparr>p_kernel := k2\<rparr>"
  have a: "a = poller.extend (create_channel c ?ch p2) (acceptor.fields fd c False False (e1 @ e2))"
    using sock(1) r1 r2 by (simp add: a_def new_Acceptor_def p2_def)
  have t0: "tcp (p_kernel p) fd = None"
      "tcp k0 = (tcp (p_kernel p))(fd \<mapsto> \<lparr>ts_reuse = False, ts_addr = None, ts_listening = False\<rparr>)" "interest k0 = interest (p_kernel p)"
    using socket_specD(1,2) [OF os sock(1)] sock(2) by auto
  have "tcp k0 fd = Some \<lparr>ts_reuse = False, ts_addr = None, ts_listening = False\<rparr>" using t0(2) by simp
  note s1 = SetReuseAddr_spec [OF os r1 this]
  then have "tcp k1 fd = Some (if e1 = [] then \<lparr>ts_reuse = reuse, ts_addr = None, ts_listening = False\<rparr>
      else \<lparr>ts_reuse = False, ts_addr = None, ts_listening = False\<rparr>)" by simp
  note s2 = BindAddress_spec [OF os r2 this]
  have k: "interest (p_kernel p2) = interest (p_kernel p)" using s1 s2 t0(3) by (simp add: p2_def)
  then have "poller_inv interest p2" using inv poller_inv_interest [of p2 p interest] by (simp add: p2_def)
  then have "poller_inv interest (create_channel c ?ch p2)"
    using create_channel_inv [of interest p2 c ?ch] c fresh by (auto simp: p2_def new_Channel_def kNew_def)
  moreover have eq: "p_chans a = p_chans (create_channel c ?ch p2)" "p_kernel a = p_kernel (create_channel c ?ch p2)"
    by (simp_all add: a poller.defs)
  ultimately have "poller_inv interest a" using poller_inv_cong [OF eq] by blast
  then show "ac_inv interest a"
    by (simp add: ac_inv_def a poller.defs acceptor.defs create_channel_def new_Channel_def)
  show "ac_fd a = fd" "ac_chan a = c" "p_loop_tid a = p_loop_tid p"
    by (simp_all add: a poller.defs acceptor.defs create_channel_def p2_def)
  show "tcp (p_kernel p) fd = None" by (rule t0(1))
  show "\<exists>ch. p_chans a = (p_chans p)(c \<mapsto> ch)" unfolding eq(1) by (auto simp: create_channel_def p2_def)
  have errs: "ac_errors a = e1 @ e2" by (simp add: a poller.defs acceptor.defs create_channel_def)
  show "ListenFailed \<notin> set (ac_errors a)" using s1 s2 by (auto simp: errs)
  have "p_kernel a = k2" by (simp add: a poller.defs create_channel_def p2_def)
  then show "\<exists>s. tcp (p_kernel a) = (tcp (p_kernel p))(fd \<mapsto> s) \<and> listener_state addr reuse (ac_errors a) s \<and> \<not> ts_listening s"
    using s1 s2 t0(2)
    by (intro exI [of _ "\<lparr>ts_reuse = reuse \<and> e1 = [], ts_addr = if e2 = [] then Some addr else None, ts_listening = False\<rparr>"])
      (auto simp: listener_state_def errs)
qed

lemma listen_ok:
  assumes os: "socket_spec os tcp interest" and spec: "epoll_ctl_spec ctl interest" and keeps: "ctl_keeps ctl tcp"
    and inv: "ac_inv interest a" and t: "tid = p_loop_tid a" and s: "tcp (p_kernel a) (ac_fd a) = Some s"
    and st: "listener_state addr reuse (ac_errors a) s" "ListenFailed \<notin> set (ac_errors a)"
  shows "\<exists>a' s'. listen os ctl tid a = Inr a' \<and> ac_inv interest a' \<and> ac_listening a' \<and> ac_fd a' = ac_fd a \<and> ac_chan a' = ac_chan a
    \<and> p_loop_tid a' = p_loop_tid a \<and> ac_has_callback a' = ac_has_callback a \<and> (\<exists>ch. p_chans a' = (p_chans a)(ac_chan a \<mapsto> ch))
    \<and> (\<exists>ev. interest (p_kernel a') (ac_fd a) = Some (ev, ac_chan a) \<and> ev AND kReadEvent \<noteq> 0)
    \<and> tcp (p_kernel a') = (tcp (p_kernel a))(ac_fd a \<mapsto> s') \<and> listener_state addr reuse (ac_errors a') s'
    \<and> (ts_listening s' \<longleftrightarrow> ts_listening s \<or> ListenFailed \<notin> set (ac_errors a'))"
proof -
  obtain ch where ch: "p_chans a (ac_chan a) = Some ch" "ch_fd ch = ac_fd a" using inv by (auto simp: ac_inv_def)
  obtain e k0 where r: "Listen os (ac_fd a) (p_kernel a) = (e, k0)" by fastforce
  obtain x where x: "interest k0 = interest (p_kernel a)" "e \<in> {[], [ListenFailed]}" "ts_addr s = None \<or> ts_addr s = Some x"
      "tcp k0 = (tcp (p_kernel a))(ac_fd a \<mapsto> if e = [] then s\<lparr>ts_addr := Some x, ts_listening := True\<rparr> else s)"
    using Listen_spec [OF os r s] by blast
  define a1 where "a1 = a\<lparr>ac_listening := True, p_kernel := k0, ac_errors := ac_errors a @ e\<rparr>"
  have p: "poller_inv interest a1" using inv poller_inv_interest [of a1 a interest] x(1) by (simp add: ac_inv_def a1_def)
  have c: "p_chans a1 (ac_chan a) = Some ch" "tid = p_loop_tid a1" using ch t by (simp_all add: a1_def)
  obtain k m ch' where s1: "EnableReading ctl tid (ac_chan a) a1 = Inr (a1\<lparr>p_chans := (p_chans a1)(ac_chan a \<mapsto> ch'), p_channels := m, p_kernel := k\<rparr>)"
      "ch_events ch' = ch_events (set_reading ch)" "ch_fd ch' = ch_fd ch"
      "ch_index ch' = kAdded \<longleftrightarrow> \<not> (ch_index ch = kAdded \<and> is_none_event (set_reading ch))"
      "poller_inv interest (a1\<lparr>p_chans := (p_chans a1)(ac_chan a \<mapsto> ch'), p_channels := m, p_kernel := k\<rparr>)"
    using run_setter_Inr [OF spec p c, of SetReading] by auto
  have r': "is_reading ch'" "ch_index ch' = kAdded"
    using is_reading_events [OF s1(2)] s1(4) is_reading_none [of "set_reading ch"] by simp_all
  define a' where "a' = a1\<lparr>p_chans := (p_chans a1)(ac_chan a \<mapsto> ch'), p_channels := m, p_kernel := k\<rparr>"
  have c': "p_chans a' (ac_chan a) = Some ch'" by (simp add: a'_def)
  have f: "ac_fd a' = ac_fd a" "ac_chan a' = ac_chan a" "p_loop_tid a' = p_loop_tid a" "ac_has_callback a' = ac_has_callback a"
      "ac_listening a'" "ac_errors a' = ac_errors a @ e" "p_chans a' = (p_chans a)(ac_chan a \<mapsto> ch')"
    by (simp_all add: a'_def a1_def)
  have reg: "interest (p_kernel a') (ac_fd a) = Some (ch_events ch', ac_chan a)" "ch_events ch' AND kReadEvent \<noteq> 0"
    using poller_inv_added [OF s1(5) [folded a'_def] c' r'(2)] ch(2) s1(3) r'(1) by (simp_all add: is_reading_def)
  have "ac_inv interest a'" using s1(5) [folded a'_def] c' r' ch(2) s1(3) f by (simp add: ac_inv_def)
  moreover have "listen os ctl tid a = Inr a'"
    using s1(1) t r by (simp add: listen_def AssertInLoopThread_def a'_def a1_def)
  moreover have "tcp (p_kernel a') = tcp (p_kernel a1)" using EnableReading_keeps [OF keeps s1(1)] by (simp add: a'_def)
  then have "tcp (p_kernel a') = (tcp (p_kernel a))(ac_fd a \<mapsto> if e = [] then s\<lparr>ts_addr := Some x, ts_listening := True\<rparr> else s)"
    using x(4) by (simp add: a1_def)
  moreover have "listener_state addr reuse (ac_errors a') (if e = [] then s\<lparr>ts_addr := Some x, ts_listening := True\<rparr> else s)"
    using st(1) x(2,3) f(6) by (auto simp: listener_state_def)
  ultimately show ?thesis using reg f x(2) st(2)
    by (intro exI [of _ a'] exI [of _ "if e = [] then s\<lparr>ts_addr := Some x, ts_listening := True\<rparr> else s"]) auto
qed

lemma destroy_Acceptor_ok:
  assumes os: "socket_spec os tcp interest" and spec: "epoll_ctl_spec ctl interest" and keeps: "ctl_keeps ctl tcp"
    and inv: "ac_inv interest a" and t: "tid = p_loop_tid a"
  shows "\<exists>a'. destroy_Acceptor os ctl tid a = Inr a' \<and> poller_inv interest a' \<and> interest (p_kernel a') (ac_fd a) = None
    \<and> p_chans a' = (p_chans a)(ac_chan a := None) \<and> tcp (p_kernel a') = (tcp (p_kernel a))(ac_fd a := None)"
proof -
  obtain ch where ch: "p_chans a (ac_chan a) = Some ch" "ch_fd ch = ac_fd a" and p: "poller_inv interest a"
    using inv by (auto simp: ac_inv_def)
  obtain k m ch' where s1: "bindE (DisableAll ctl tid (ac_chan a) a) (Remove ctl tid (ac_chan a)) =
        Inr (a\<lparr>p_chans := (p_chans a)(ac_chan a \<mapsto> ch'), p_channels := m, p_kernel := k\<rparr>)"
      "ch_fd ch' = ch_fd ch" "ch_index ch' \<noteq> kAdded" "interest k (ch_fd ch) = None"
      "poller_inv interest (a\<lparr>p_chans := (p_chans a)(ac_chan a \<mapsto> ch'), p_channels := m, p_kernel := k\<rparr>)"
    using teardown_Inr [OF spec p ch(1) t] by blast
  define a1 where "a1 = a\<lparr>p_chans := (p_chans a)(ac_chan a \<mapsto> ch'), p_channels := m, p_kernel := k\<rparr>"
  define a2 where "a2 = destroy_channel (ac_chan a) a1"
  define a3 where "a3 = a2\<lparr>p_kernel := sk_close os k (ac_fd a)\<rparr>"
  have keep: "tcp k = tcp (p_kernel a)"
    using s1(1) DisableAll_keeps [OF keeps] Remove_keeps [OF keeps] by (fastforce simp: bindE_Inr_iff)
  have run: "destroy_Acceptor os ctl tid a = Inr a3"
    using s1(1) by (simp add: destroy_Acceptor_def a3_def a2_def a1_def destroy_channel_def destroy_Socket_def)
  have "poller_inv interest a2" unfolding a2_def
    using destroy_channel_inv [OF s1(5), of "ac_chan a" ch'] s1(3) by (simp add: a1_def)
  moreover have "interest (p_kernel a3) = interest (p_kernel a2)"
    using socket_specD(6) [OF os] s1(4) ch(2) by (auto simp: a3_def a2_def a1_def destroy_channel_def)
  ultimately have "poller_inv interest a3" using poller_inv_interest [of a3 a2 interest] by (simp add: a3_def)
  moreover have "tcp (p_kernel a3) = (tcp (p_kernel a))(ac_fd a := None)" "interest (p_kernel a3) (ac_fd a) = None"
    using socket_specD(6,7) [OF os] keep by (simp_all add: a3_def)
  ultimately show ?thesis using run by (intro exI [of _ a3]) (simp add: a3_def a2_def a1_def destroy_channel_def)
qed

lemma Acceptor_HandleRead_ok:
  assumes os: "socket_spec os tcp interest" and inv: "ac_inv interest a" and t: "tid = p_loop_tid a"
    and r: "sk_accept4 os (p_kernel a) (ac_fd a) = ((conn_fd, peer), k)"
  shows "\<exists>a'. Acceptor_HandleRead os tid any a =
      Inr (if conn_fd < 0 then AcceptFailed else if ac_has_callback a then HandedOver conn_fd peer else ClosedAgain conn_fd, a')
    \<and> ac_inv interest a' \<and> interest (p_kernel a') = interest (p_kernel a)
    \<and> (if 0 \<le> conn_fd \<and> ac_has_callback a then \<exists>s. tcp (p_kernel a') = (tcp (p_kernel a))(conn_fd \<mapsto> s)
       else tcp (p_kernel a') = tcp (p_kernel a))"
proof -
  define k' where "k' = (if 0 \<le> conn_fd \<and> \<not> ac_has_callback a then sk_close os k conn_fd else k)"
  have i: "interest k' = interest (p_kernel a)"
    using socket_specD(3,5) [OF os r] socket_specD(6) [OF os, of k conn_fd] by (auto simp: k'_def)
  have "ac_inv interest (a\<lparr>p_kernel := k'\<rparr>)"
    using inv poller_inv_interest [of "a\<lparr>p_kernel := k'\<rparr>" a interest] i by (simp add: ac_inv_def)
  moreover have "if 0 \<le> conn_fd \<and> ac_has_callback a then \<exists>s. tcp k' = (tcp (p_kernel a))(conn_fd \<mapsto> s) else tcp k' = tcp (p_kernel a)"
    using socket_specD(4,5) [OF os r] socket_specD(7) [OF os, of k conn_fd] by (auto simp: k'_def fun_upd_idem)
  moreover have "Acceptor_HandleRead os tid any a =
      Inr (if conn_fd < 0 then AcceptFailed else if ac_has_callback a then HandedOver conn_fd peer else ClosedAgain conn_fd, a\<lparr>p_kernel := k'\<rparr>)"
    using r t by (simp add: Acceptor_HandleRead_def AssertInLoopThread_def Accept_def k'_def)
  ultimately show ?thesis using i by (intro exI [of _ "a\<lparr>p_kernel := k'\<rparr>"]) simp
qed

text \<open>Readable events of the listening socket.\<close>

definition accept_step :: "'k socket_calls \<Rightarrow> int \<Rightarrow> 'k acceptor \<Rightarrow> 'k acceptor \<Rightarrow> bool" where
  "accept_step os tid a b \<longleftrightarrow> (\<exists>any r. Acceptor_HandleRead os tid any a = Inr (r, b))"

lemma accept_step_keeps:
  assumes "socket_spec os tcp interest" "accept_step os tid a b" "ac_inv interest a"
  shows "ac_inv interest b \<and> p_chans b = p_chans a \<and> ac_fd b = ac_fd a \<and> ac_chan b = ac_chan a \<and> p_loop_tid b = p_loop_tid a"
proof -
  obtain any r where run: "Acceptor_HandleRead os tid any a = Inr (r, b)" using assms(2) by (auto simp: accept_step_def)
  then have t: "tid = p_loop_tid a" by (auto simp: Acceptor_HandleRead_def AssertInLoopThread_def split: if_splits)
  obtain conn peer k where acc: "sk_accept4 os (p_kernel a) (ac_fd a) = ((conn, peer), k)" by (metis surj_pair)
  have "ac_inv interest b" using Acceptor_HandleRead_ok [OF assms(1,3) t acc, of any] run by auto
  then show ?thesis using run t acc by (auto simp: Acceptor_HandleRead_def AssertInLoopThread_def Accept_def split: if_splits)
qed

lemma accept_steps_keep:
  assumes "socket_spec os tcp interest" "(accept_step os tid)\<^sup>*\<^sup>* a b" "ac_inv interest a"
  shows "ac_inv interest b \<and> p_chans b = p_chans a \<and> ac_fd b = ac_fd a \<and> ac_chan b = ac_chan a \<and> p_loop_tid b = p_loop_tid a"
  using assms(2,3) by (induction rule: rtranclp_induct) (use accept_step_keeps [OF assms(1)] in \<open>simp, metis\<close>)

section \<open>Properties\<close>

text \<open>
  Property C34. The acceptor's life, on a kernel that behaves as documented and that has given it a
  socket. Whatever \<open>setsockopt\<close>, \<open>bind\<close> and \<open>listen\<close> answer, \<open>listen()\<close> returns with the socket
  registered for reading; the log alone tells whether the socket listens and whether on the requested
  address: after a failed \<open>bind\<close> it may listen on any. A readable event hands the accepted descriptor
  to the server or, without a callback, closes it again. After any number of them, the destructor
  unregisters and closes the socket, and nothing else: the channels and the whole interest list are
  those from before the construction, and of the open sockets only the listening one is gone.
\<close>

theorem acceptor_lifecycle:
  assumes "socket_spec os tcp interest" and "epoll_ctl_spec ctl interest" and "ctl_keeps ctl tcp"
    and "poller_inv interest p" and "p_chans p c = None"
    and "sk_socket os (p_kernel p) (sin_family addr) = (fd, k)" and "0 \<le> fd" and "\<forall>d dh. p_chans p d = Some dh \<longrightarrow> ch_fd dh \<noteq> fd"
  shows "\<exists>a s. listen os ctl (p_loop_tid p) (SetNewConnectionCallback (new_Acceptor os p addr reuse c)) = Inr a
    \<and> (\<exists>ev. interest (p_kernel a) fd = Some (ev, c) \<and> ev AND kReadEvent \<noteq> 0)
    \<and> tcp (p_kernel a) = (tcp (p_kernel p))(fd \<mapsto> s) \<and> listener_state addr reuse (ac_errors a) s
    \<and> (ts_listening s \<longleftrightarrow> ListenFailed \<notin> set (ac_errors a))
    \<and> (\<forall>conn peer k1 cb any. sk_accept4 os (p_kernel a) fd = ((conn, peer), k1) \<longrightarrow>
         (\<exists>a1. Acceptor_HandleRead os (p_loop_tid p) any (a\<lparr>ac_has_callback := cb\<rparr>) =
             Inr (if conn < 0 then AcceptFailed else if cb then HandedOver conn peer else ClosedAgain conn, a1)
           \<and> interest (p_kernel a1) = interest (p_kernel a)
           \<and> (if 0 \<le> conn \<and> cb then \<exists>s. tcp (p_kernel a1) = (tcp (p_kernel a))(conn \<mapsto> s) else tcp (p_kernel a1) = tcp (p_kernel a))))
    \<and> (\<forall>b. (accept_step os (p_loop_tid p))\<^sup>*\<^sup>* a b \<longrightarrow>
         (\<exists>a'. destroy_Acceptor os ctl (p_loop_tid p) b = Inr a' \<and> poller_inv interest a' \<and> p_chans a' = p_chans p
           \<and> interest (p_kernel a') = interest (p_kernel p) \<and> tcp (p_kernel a') = (tcp (p_kernel b))(fd := None)
           \<and> (b = a \<longrightarrow> tcp (p_kernel a') = tcp (p_kernel p))))"
proof -
  define n where "n = new_Acceptor os p addr reuse c"
  define a0 where "a0 = SetNewConnectionCallback n"
  note n = new_Acceptor_ok(1-4,6-8) [where reuse = reuse, OF assms(1,4-8), folded n_def]
    and closed = new_Acceptor_ok(5) [OF assms(1,4-8)]
  obtain s0 where s0: "tcp (p_kernel n) = (tcp (p_kernel p))(fd \<mapsto> s0)" "listener_state addr reuse (ac_errors n) s0" "\<not> ts_listening s0"
    using n(5) by blast
  have f: "p_loop_tid p = p_loop_tid a0" "ac_fd a0 = fd" "ac_chan a0 = c" "p_kernel a0 = p_kernel n" "ac_errors a0 = ac_errors n"
    using n(2-4) by (simp_all add: a0_def SetNewConnectionCallback_def)
  have inv0: "ac_inv interest a0"
    using n(1) poller_inv_cong [of a0 n] by (simp add: ac_inv_def a0_def SetNewConnectionCallback_def)
  have "tcp (p_kernel a0) (ac_fd a0) = Some s0" "listener_state addr reuse (ac_errors a0) s0" "ListenFailed \<notin> set (ac_errors a0)"
    using s0 f n(6) by simp_all
  from listen_ok [OF assms(1-3) inv0 f(1) this]
  obtain a s where a: "listen os ctl (p_loop_tid p) a0 = Inr a" "ac_inv interest a" "ac_fd a = ac_fd a0" "p_loop_tid a = p_loop_tid a0"
      "\<exists>ev. interest (p_kernel a) (ac_fd a0) = Some (ev, ac_chan a0) \<and> ev AND kReadEvent \<noteq> 0"
      "tcp (p_kernel a) = (tcp (p_kernel a0))(ac_fd a0 \<mapsto> s)" "listener_state addr reuse (ac_errors a) s"
      "ts_listening s \<longleftrightarrow> ts_listening s0 \<or> ListenFailed \<notin> set (ac_errors a)"
      "ac_chan a = ac_chan a0" "\<exists>ch. p_chans a = (p_chans a0)(ac_chan a0 \<mapsto> ch)"
    by blast
  have tcp: "tcp (p_kernel a) = (tcp (p_kernel p))(fd \<mapsto> s)" using a(6) s0(1) f by simp
  have read: "\<exists>a1. Acceptor_HandleRead os (p_loop_tid p) any (a\<lparr>ac_has_callback := cb\<rparr>) =
        Inr (if conn < 0 then AcceptFailed else if cb then HandedOver conn peer else ClosedAgain conn, a1)
      \<and> interest (p_kernel a1) = interest (p_kernel a)
      \<and> (if 0 \<le> conn \<and> cb then \<exists>s. tcp (p_kernel a1) = (tcp (p_kernel a))(conn \<mapsto> s) else tcp (p_kernel a1) = tcp (p_kernel a))"
    if "sk_accept4 os (p_kernel a) fd = ((conn, peer), k1)" for conn peer k1 cb any
  proof -
    let ?a = "a\<lparr>ac_has_callback := cb\<rparr>"
    have "ac_inv interest ?a" using a(2) poller_inv_cong [of ?a a] by (simp add: ac_inv_def)
    moreover have "p_loop_tid p = p_loop_tid ?a" "sk_accept4 os (p_kernel ?a) (ac_fd ?a) = ((conn, peer), k1)"
      using that a(3,4) f by simp_all
    moreover have eq: "ac_has_callback ?a = cb" "p_kernel ?a = p_kernel a" by simp_all
    ultimately show ?thesis
      using Acceptor_HandleRead_ok [OF assms(1), of ?a "p_loop_tid p" conn peer k1 any] unfolding eq by blast
  qed
  have chans: "(p_chans a)(c := None) = p_chans p"
    using a(10) n(7) f(3) assms(5) by (auto simp: a0_def SetNewConnectionCallback_def fun_eq_iff)
  have gone: "\<exists>a'. destroy_Acceptor os ctl (p_loop_tid p) b = Inr a' \<and> poller_inv interest a' \<and> p_chans a' = p_chans p
      \<and> interest (p_kernel a') = interest (p_kernel p) \<and> tcp (p_kernel a') = (tcp (p_kernel b))(fd := None)
      \<and> (b = a \<longrightarrow> tcp (p_kernel a') = tcp (p_kernel p))" if steps: "(accept_step os (p_loop_tid p))\<^sup>*\<^sup>* a b" for b
  proof -
    note b = accept_steps_keep [OF assms(1) steps a(2)]
    have "ac_inv interest b" "p_loop_tid p = p_loop_tid b" using b a(4) f(1) by simp_all
    from destroy_Acceptor_ok [OF assms(1-3) this]
    obtain a' where a': "destroy_Acceptor os ctl (p_loop_tid p) b = Inr a'" "poller_inv interest a'"
        "p_chans a' = p_chans p" "tcp (p_kernel a') = (tcp (p_kernel b))(fd := None)"
      using b a(3,9) f(2,3) chans by auto
    have "tcp (p_kernel a') = tcp (p_kernel p)" if "b = a" using a'(4) that closed tcp by (simp add: fun_upd_idem)
    then show ?thesis using a' poller_inv_determines [of interest a' p] assms(4) by blast
  qed
  have reg: "\<exists>ev. interest (p_kernel a) fd = Some (ev, c) \<and> ev AND kReadEvent \<noteq> 0" using a(5) f(2,3) by simp
  have "ts_listening s \<longleftrightarrow> ListenFailed \<notin> set (ac_errors a)" using a(8) s0(3) by simp
  with a(1) [unfolded a0_def n_def] reg tcp a(7) read gone show ?thesis by blast
qed

text \<open>A kernel that behaves as documented, for the witness: it gives out the descriptors 5 and 9.\<close>

record ref_kernel =
  rk_interest :: "int \<rightharpoonup> epoll_event"
  rk_tcp :: "int \<rightharpoonup> tcp_socket"

definition ref_sys_ctl :: "ref_kernel epoll_ctl_fun" where
  "ref_sys_ctl k op fd ev = (let (r, m) = ref_ctl (rk_interest k) op fd ev in (r, k\<lparr>rk_interest := m\<rparr>))"

definition ref_open :: "int \<Rightarrow> ref_kernel \<Rightarrow> int \<times> ref_kernel" where
  "ref_open fd k =
     (if rk_tcp k fd = None \<and> rk_interest k fd = None
      then (fd, k\<lparr>rk_tcp := (rk_tcp k)(fd \<mapsto> \<lparr>ts_reuse = False, ts_addr = None, ts_listening = False\<rparr>)\<rparr>) else (- 1, k))"

definition ref_change :: "int \<Rightarrow> (tcp_socket \<Rightarrow> tcp_socket) \<Rightarrow> ref_kernel \<Rightarrow> int \<times> ref_kernel" where
  "ref_change fd f k =
     (case rk_tcp k fd of None \<Rightarrow> (- 1, k) | Some s \<Rightarrow> (0, k\<lparr>rk_tcp := (rk_tcp k)(fd \<mapsto> f s)\<rparr>))"

definition ref_calls :: "sockaddr_in \<Rightarrow> ref_kernel socket_calls" where
  "ref_calls peer =
     \<lparr>sk_socket = (\<lambda>k f. ref_open 5 k),
      sk_setsockopt = (\<lambda>k fd v. ref_change fd (\<lambda>s. s\<lparr>ts_reuse := v \<noteq> 0\<rparr>) k),
      sk_bind = (\<lambda>k fd a. ref_change fd (\<lambda>s. s\<lparr>ts_addr := Some a\<rparr>) k),
      sk_listen = (\<lambda>k fd. ref_change fd (\<lambda>s. s\<lparr>ts_addr := Some (case ts_addr s of None \<Rightarrow> peer | Some a \<Rightarrow> a), ts_listening := True\<rparr>) k),
      sk_accept4 = (\<lambda>k fd. let (c, k') = ref_open 9 k in ((c, peer), k')),
      sk_close = (\<lambda>k fd. k\<lparr>rk_tcp := (rk_tcp k)(fd := None), rk_interest := (rk_interest k)(fd := None)\<rparr>)\<rparr>"

lemma ref_calls_spec: "socket_spec (ref_calls peer) rk_tcp rk_interest"
  unfolding socket_spec_def
  by (intro conjI allI impI)
    (auto simp: ref_calls_def ref_open_def ref_change_def split: if_splits option.splits)

lemma ref_sys_ctl_spec: "epoll_ctl_spec ref_sys_ctl rk_interest" "ctl_keeps ref_sys_ctl rk_tcp"
  by (auto simp: epoll_ctl_spec_def ctl_keeps_def ref_sys_ctl_def split: option.splits prod.splits)

definition idle_poller :: "(unit, ref_kernel) poller" where
  "idle_poller = \<lparr>p_loop_tid = 1, p_chans = Map.empty, p_channels = Map.empty,
     p_kernel = \<lparr>rk_interest = Map.empty, rk_tcp = Map.empty\<rparr>, p_events_size = 16, p_events_cap = 16\<rparr>"

definition sample_peer :: sockaddr_in where
  "sample_peer = new_InetAddress (\<lambda>_. 0) 80 []"

theorem acceptor_lifecycle_witness:
  "\<exists>a s. listen (ref_calls sample_peer) ref_sys_ctl 1
       (SetNewConnectionCallback (new_Acceptor (ref_calls sample_peer) idle_poller sample_peer True 7)) = Inr a
    \<and> rk_tcp (p_kernel a) = [5 \<mapsto> s] \<and> (\<exists>a'. destroy_Acceptor (ref_calls sample_peer) ref_sys_ctl 1 a = Inr a'
         \<and> rk_tcp (p_kernel a') = Map.empty \<and> rk_interest (p_kernel a') = Map.empty)"
proof -
  let ?k = "\<lparr>rk_interest = Map.empty, rk_tcp = [5 \<mapsto> \<lparr>ts_reuse = False, ts_addr = None, ts_listening = False\<rparr>]\<rparr>"
  have p: "poller_inv rk_interest idle_poller" "p_chans idle_poller 7 = None"
      "sk_socket (ref_calls sample_peer) (p_kernel idle_poller) (sin_family sample_peer) = (5, ?k)" "(0 :: int) \<le> 5"
      "\<forall>d dh. p_chans idle_poller d = Some dh \<longrightarrow> ch_fd dh \<noteq> 5"
    by (simp_all add: poller_inv_def idle_poller_def ref_calls_def ref_open_def)
  have e: "rk_tcp (p_kernel idle_poller) = Map.empty" "rk_interest (p_kernel idle_poller) = Map.empty" "p_loop_tid idle_poller = 1"
    by (simp_all add: idle_poller_def)
  from acceptor_lifecycle [OF ref_calls_spec ref_sys_ctl_spec p, of True, unfolded e]
  obtain a s where a: "listen (ref_calls sample_peer) ref_sys_ctl 1
       (SetNewConnectionCallback (new_Acceptor (ref_calls sample_peer) idle_poller sample_peer True 7)) = Inr a" "rk_tcp (p_kernel a) = [5 \<mapsto> s]"
      and gone: "\<forall>b. (accept_step (ref_calls sample_peer) 1)\<^sup>*\<^sup>* a b \<longrightarrow>
         (\<exists>a'. destroy_Acceptor (ref_calls sample_peer) ref_sys_ctl 1 b = Inr a' \<and> poller_inv rk_interest a' \<and> p_chans a' = p_chans idle_poller
           \<and> rk_interest (p_kernel a') = Map.empty \<and> rk_tcp (p_kernel a') = (rk_tcp (p_kernel b))(5 := None)
           \<and> (b = a \<longrightarrow> rk_tcp (p_kernel a') = Map.empty))"
    by blast
  from spec [OF gone, of a] a show ?thesis by blast
qed

end
