(* ===== verification/Threads.thy ===== *)
theory Threads
  imports Transitions Decimal
begin

text \<open>
  Threads and loops in threads: \<open>CurrentThread\<close> (\<open>src/base/CurrentThread.cc\<close>), \<open>Exception\<close>,
  \<open>Thread\<close> (\<open>src/base/Thread.cc\<close>), \<open>EventLoopThread\<close> (\<open>src/EventLoopThread.cc\<close>) and the pool that
  hands loops out (\<open>src/EventLoopThreadPool.cc\<close>).
\<close>

section \<open>CurrentThread\<close>

text \<open>The thread-local variables; \<open>t_tidString\<close> is kept as its text.\<close>

record tls =
  t_cachedTid :: int
  t_tidString :: string
  t_tidStringLength :: nat
  t_threadName :: string

definition new_tls :: tls where
  "new_tls = \<lparr>t_cachedTid = 0, t_tidString = [], t_tidStringLength = 6, t_threadName = ''unknown''\<rparr>"

text \<open>\<open>printf\<close> with \<open>%5d\<close>.\<close>

definition pad5 :: "int \<Rightarrow> string" where
  "pad5 i = (let t = show_int i in replicate (5 - length t) (CHR '' '') @ t)"

text \<open>\<open>gettid\<close> is what the system call returns; \<open>snprintf\<close> cuts the text to 31 characters.\<close>

definition cacheTid :: "int \<Rightarrow> tls \<Rightarrow> tls" where
  "cacheTid gettid t =
     (if t_cachedTid t = 0
      then (let text = pad5 gettid @ '' ''
            in t\<lparr>t_cachedTid := gettid, t_tidString := take 31 text, t_tidStringLength := length text\<rparr>)
      else t)"

definition CurrentThread_tid :: "int \<Rightarrow> tls \<Rightarrow> int \<times> tls" where
  "CurrentThread_tid gettid t = (let t1 = (if t_cachedTid t = 0 then cacheTid gettid t else t) in (t_cachedTid t1, t1))"

subsection \<open>Stack traces\<close>

text \<open>The scan for the last parenthesis and the last plus sign of a line.\<close>

fun scan_symbol :: "nat \<Rightarrow> string \<Rightarrow> nat option \<times> nat option \<Rightarrow> nat option \<times> nat option" where
  "scan_symbol i [] r = r"
| "scan_symbol i (c # cs) (left_par, plus_at) =
     scan_symbol (i + 1) cs (if c = CHR ''('' then (Some i, plus_at) else if c = CHR ''+'' then (left_par, Some i) else (left_par, plus_at))"

text \<open>
  One line: the text between the parenthesis and the plus sign, where the scan stops at the
  terminator put over the plus sign, goes to the demangler.
\<close>

definition trace_line :: "(string \<Rightarrow> string option) \<Rightarrow> bool \<Rightarrow> string \<Rightarrow> string" where
  "trace_line cxa_demangle demangle line =
     (case (demangle, scan_symbol 0 line (None, None)) of
        (True, Some left_par, Some plus_at) \<Rightarrow>
          (let mangled = (if left_par < plus_at then segment (left_par + 1) plus_at line else drop (left_par + 1) line)
           in case cxa_demangle mangled of
                Some demangled \<Rightarrow> take (left_par + 1) line @ demangled @ drop plus_at line @ [CHR 0x0A]
              | None \<Rightarrow> line @ [CHR 0x0A])
      | _ \<Rightarrow> line @ [CHR 0x0A])"

text \<open>\<open>lines\<close> is what \<open>backtrace_symbols\<close> returned, if it did; the first line is this function's.\<close>

definition stackTrace :: "(string \<Rightarrow> string option) \<Rightarrow> string list option \<Rightarrow> bool \<Rightarrow> string" where
  "stackTrace cxa_demangle lines demangle =
     (case lines of None \<Rightarrow> [] | Some ls \<Rightarrow> concat (map (trace_line cxa_demangle demangle) (drop 1 ls)))"

section \<open>Exception\<close>

record exception =
  ex_message :: string
  ex_stack :: string

definition new_Exception :: "(string \<Rightarrow> string option) \<Rightarrow> string list option \<Rightarrow> string \<Rightarrow> exception" where
  "new_Exception cxa_demangle lines what = \<lparr>ex_message = what, ex_stack = stackTrace cxa_demangle lines True\<rparr>"

section \<open>Thread\<close>

text \<open>What the task of a thread threw, if it did.\<close>

datatype thrown = ThrewException exception | ThrewStd string | ThrewOther

definition nl :: string where
  "nl = [CHR 0x0A]"

text \<open>
  \<open>RunInThread\<close>: the id it publishes, the thread's variables, and what follows the task: a normal
  return, or the lines printed before \<open>abort\<close>.
\<close>

definition RunInThread :: "int \<Rightarrow> string \<Rightarrow> thrown option \<Rightarrow> tls \<Rightarrow> int \<times> tls \<times> (string, unit) sum" where
  "RunInThread gettid name task t =
     (let (i, t1) = CurrentThread_tid gettid t;
          t2 = t1\<lparr>t_threadName := (if name = [] then ''minimuduo_Thread'' else name)\<rparr>
      in (i, t2,
          case task of
            None \<Rightarrow> Inr ()
          | Some (ThrewException ex) \<Rightarrow>
              Inl (''exception caught in Thread '' @ name @ nl @ ''reason: '' @ ex_message ex @ nl @ ''stack trace: '' @ ex_stack ex @ nl)
          | Some (ThrewStd what) \<Rightarrow> Inl (''exception caught in Thread '' @ name @ nl @ ''reason: '' @ what @ nl)
          | Some ThrewOther \<Rightarrow> Inl (''unknown exception caught in Thread '' @ name @ nl)))"

text \<open>A thread object; \<open>th_detached\<close> tells whether its handle was given up.\<close>

record thread =
  th_started :: bool
  th_joined :: bool
  th_tid :: int
  th_name :: string
  th_detached :: bool

text \<open>The constructor, with the counter \<open>thread_create_num_\<close>.\<close>

definition SetDefaultName :: "int \<Rightarrow> thread \<Rightarrow> int \<times> thread" where
  "SetDefaultName thread_create_num th =
     (thread_create_num + 1,
      if th_name th = [] then th\<lparr>th_name := ''Thread-'' @ show_int thread_create_num\<rparr> else th)"

definition new_Thread :: "int \<Rightarrow> string \<Rightarrow> int \<times> thread" where
  "new_Thread thread_create_num name =
     SetDefaultName thread_create_num
       \<lparr>th_started = False, th_joined = False, th_tid = 0, th_name = name, th_detached = False\<rparr>"

text \<open>\<open>Start\<close> waits until the new thread has stored its id; \<open>pthread_create\<close> may fail.\<close>

definition Thread_Start :: "bool \<Rightarrow> int \<Rightarrow> thread \<Rightarrow> thread res" where
  "Thread_Start pthread_create_ok child_tid th =
     bindE (assertE (\<not> th_started th)) (\<lambda>_.
       if pthread_create_ok then Inr (th\<lparr>th_started := True, th_tid := child_tid\<rparr>) else Inl Aborted)"

definition Join :: "thread \<Rightarrow> thread res" where
  "Join th =
     bindE (assertE (th_started th)) (\<lambda>_. bindE (assertE (\<not> th_joined th)) (\<lambda>_. Inr (th\<lparr>th_joined := True\<rparr>)))"

definition destroy_Thread :: "thread \<Rightarrow> thread" where
  "destroy_Thread th = (if th_started th \<and> \<not> th_joined th then th\<lparr>th_detached := True\<rparr> else th)"

section \<open>EventLoopThreadPool\<close>

text \<open>Loops by address; \<open>tp_inits\<close> lists the loops the init callback ran on.\<close>

record thread_pool =
  tp_base_loop :: nat
  tp_num_threads :: int
  tp_started :: bool
  tp_base_name :: string
  tp_threads :: "string list"
  tp_loops :: "nat list"
  tp_next :: nat
  tp_inits :: "nat list"

definition new_EventLoopThreadPool :: "nat \<Rightarrow> int \<Rightarrow> string \<Rightarrow> thread_pool" where
  "new_EventLoopThreadPool base_loop num_threads base_name =
     \<lparr>tp_base_loop = base_loop, tp_num_threads = num_threads, tp_started = False, tp_base_name = base_name,
      tp_threads = [], tp_loops = [], tp_next = 0, tp_inits = []\<rparr>"

definition SetThreadNum :: "int \<Rightarrow> thread_pool \<Rightarrow> thread_pool res" where
  "SetThreadNum num_threads p = bindE (assertE (\<not> tp_started p)) (\<lambda>_. Inr (p\<lparr>tp_num_threads := num_threads\<rparr>))"

text \<open>The loop of \<open>Start\<close> from \<open>i\<close> on, \<open>k\<close> rounds to go; \<open>StartLoop\<close> returns the loop made in thread \<open>i\<close>.\<close>

fun start_threads :: "(nat \<Rightarrow> nat) \<Rightarrow> bool \<Rightarrow> nat \<Rightarrow> nat \<Rightarrow> thread_pool \<Rightarrow> thread_pool" where
  "start_threads StartLoop cb i 0 p = p"
| "start_threads StartLoop cb i (Suc k) p =
     (let thread_name = (if tp_base_name p = [] then [] else tp_base_name p @ show_nat i)
      in start_threads StartLoop cb (i + 1) k
           (p\<lparr>tp_loops := tp_loops p @ [StartLoop i], tp_threads := tp_threads p @ [thread_name],
              tp_inits := tp_inits p @ (if cb then [StartLoop i] else [])\<rparr>))"

definition Pool_Start :: "(nat \<Rightarrow> nat) \<Rightarrow> bool \<Rightarrow> thread_pool \<Rightarrow> thread_pool res" where
  "Pool_Start StartLoop cb p =
     bindE (assertE (\<not> tp_started p)) (\<lambda>_.
       let p1 = (start_threads StartLoop cb 0 (nat (tp_num_threads p)) p)\<lparr>tp_started := True\<rparr>
       in Inr (if tp_num_threads p1 = 0 \<and> cb then p1\<lparr>tp_inits := tp_inits p1 @ [tp_base_loop p1]\<rparr> else p1))"

definition GetNextLoop :: "thread_pool \<Rightarrow> (nat \<times> thread_pool) res" where
  "GetNextLoop p =
     bindE (assertE (tp_started p)) (\<lambda>_.
       if tp_loops p \<noteq> []
       then if tp_next p < length (tp_loops p)
            then (let n = tp_next p + 1
                  in Inr (tp_loops p ! tp_next p, p\<lparr>tp_next := (if n \<ge> length (tp_loops p) then 0 else n)\<rparr>))
            else Inl OutOfRange
       else Inr (tp_base_loop p, p))"

text \<open>\<open>k\<close> successive calls.\<close>

fun get_loops :: "nat \<Rightarrow> thread_pool \<Rightarrow> (nat list \<times> thread_pool) res" where
  "get_loops 0 p = Inr ([], p)"
| "get_loops (Suc k) p = bindE (GetNextLoop p) (\<lambda>(l, p1). bindE (get_loops k p1) (\<lambda>(ls, p2). Inr (l # ls, p2)))"

lemma start_threads_fields:
  "start_threads StartLoop cb i k p = p\<lparr>tp_loops := tp_loops p @ map StartLoop [i..<i + k],
     tp_threads := tp_threads p @ map (\<lambda>j. if tp_base_name p = [] then [] else tp_base_name p @ show_nat j) [i..<i + k],
     tp_inits := tp_inits p @ (if cb then map StartLoop [i..<i + k] else [])\<rparr>"
  by (induction k arbitrary: i p) (auto simp: upt_conv_Cons Let_def simp del: upt_Suc)

lemma get_loops_round_robin:
  assumes "tp_started p" "tp_loops p \<noteq> []" "tp_next p < length (tp_loops p)"
  shows "\<exists>p'. get_loops k p = Inr (map (\<lambda>i. tp_loops p ! ((tp_next p + i) mod length (tp_loops p))) [0..<k], p')"
  using assms
proof (induction k arbitrary: p)
  case (Suc k)
  let ?n = "length (tp_loops p)"
  define m where "m = (if tp_next p + 1 \<ge> ?n then 0 else tp_next p + 1)"
  define q where "q = p\<lparr>tp_next := m\<rparr>"
  have m: "m = (tp_next p + 1) mod ?n" "m < ?n" using Suc.prems(3) by (cases "tp_next p + 1 = ?n"; auto simp: m_def)+
  have next1: "GetNextLoop p = Inr (tp_loops p ! tp_next p, q)"
    using Suc.prems by (simp add: GetNextLoop_def Let_def q_def m_def)
  obtain p' where "get_loops k q = Inr (map (\<lambda>i. tp_loops p ! ((m + i) mod ?n)) [0..<k], p')"
    using Suc.IH [of q] Suc.prems m(2) by (auto simp: q_def)
  moreover have "(m + i) mod ?n = (tp_next p + Suc i) mod ?n" for i unfolding m(1) by (simp add: mod_add_left_eq)
  moreover have "map (\<lambda>i. tp_loops p ! ((tp_next p + i) mod ?n)) [0..<Suc k] =
      tp_loops p ! tp_next p # map (\<lambda>i. tp_loops p ! ((tp_next p + Suc i) mod ?n)) [0..<k]"
    using Suc.prems(3) by (simp add: upt_conv_Cons map_Suc_upt [symmetric] del: upt_Suc)
  ultimately show ?case using next1 by auto
qed simp

section \<open>EventLoopThread\<close>

text \<open>
  The two threads, statement by statement: the child in \<open>ThreadFunc\<close>, the owner in \<open>StartLoop\<close> and
  in the destructor (\<open>P_read b\<close>: it has read whether \<open>loop_\<close> is set). \<open>et_loop\<close> is \<open>loop_ != nullptr\<close>,
  \<open>et_alive\<close> whether the loop object exists, \<open>et_quit\<close> its \<open>quit_\<close>.
\<close>

datatype child_pc = C_none | C_begun | C_made | C_ready | C_published | C_looping | C_left | C_unpublished | C_done

datatype owner_pc = P_new | P_waiting | P_running | P_read bool | P_joining | P_done | P_fault

record loop_thread =
  et_child :: child_pc
  et_owner :: owner_pc
  et_loop :: bool
  et_alive :: bool
  et_init :: bool
  et_quit :: bool

definition new_EventLoopThread :: loop_thread where
  "new_EventLoopThread = \<lparr>et_child = C_none, et_owner = P_new, et_loop = False, et_alive = False, et_init = False, et_quit = False\<rparr>"

inductive et_step :: "loop_thread \<Rightarrow> loop_thread \<Rightarrow> bool" where
  et_start: "et_owner s = P_new \<Longrightarrow> et_step s (s\<lparr>et_owner := P_waiting, et_child := C_begun\<rparr>)"
| et_make: "et_child s = C_begun \<Longrightarrow> et_step s (s\<lparr>et_child := C_made, et_alive := True\<rparr>)"
| et_init: "et_child s = C_made \<Longrightarrow> et_step s (s\<lparr>et_child := C_ready, et_init := True\<rparr>)"
| et_publish: "et_child s = C_ready \<Longrightarrow> et_step s (s\<lparr>et_child := C_published, et_loop := True\<rparr>)"
| et_enter: "et_child s = C_published \<Longrightarrow> et_step s (s\<lparr>et_child := C_looping, et_quit := False\<rparr>)"
| et_leave: "et_child s = C_looping \<Longrightarrow> et_quit s \<Longrightarrow> et_step s (s\<lparr>et_child := C_left\<rparr>)"
| et_unpublish: "et_child s = C_left \<Longrightarrow> et_step s (s\<lparr>et_child := C_unpublished, et_loop := False\<rparr>)"
| et_finish: "et_child s = C_unpublished \<Longrightarrow> et_step s (s\<lparr>et_child := C_done, et_alive := False\<rparr>)"
| et_return: "et_owner s = P_waiting \<Longrightarrow> et_loop s \<Longrightarrow> et_step s (s\<lparr>et_owner := P_running\<rparr>)"
| et_read: "et_owner s = P_running \<Longrightarrow> et_step s (s\<lparr>et_owner := P_read (et_loop s)\<rparr>)"
| et_quit: "et_owner s = P_read b \<Longrightarrow>
     et_step s (if b then if et_alive s then s\<lparr>et_owner := P_joining, et_quit := True\<rparr> else s\<lparr>et_owner := P_fault\<rparr>
                else s\<lparr>et_owner := P_joining\<rparr>)"
| et_discard: "et_owner s = P_new \<Longrightarrow> et_step s (s\<lparr>et_owner := P_done\<rparr>)"
| et_join: "et_owner s = P_joining \<Longrightarrow> et_child s = C_done \<Longrightarrow> et_step s (s\<lparr>et_owner := P_done\<rparr>)"

inductive_cases et_stepE: "et_step s s'"

definition et_inv :: "loop_thread \<Rightarrow> bool" where
  "et_inv s \<longleftrightarrow>
     (et_alive s \<longleftrightarrow> et_child s \<in> {C_made, C_ready, C_published, C_looping, C_left, C_unpublished})
   \<and> (et_loop s \<longleftrightarrow> et_child s \<in> {C_published, C_looping, C_left})
   \<and> (et_child s \<in> {C_ready, C_published, C_looping, C_left, C_unpublished, C_done} \<longrightarrow> et_init s)
   \<and> (et_child s = C_none \<longrightarrow> et_owner s \<in> {P_new, P_done}) \<and> (et_owner s = P_new \<longrightarrow> et_child s = C_none)
   \<and> (et_owner s = P_done \<longrightarrow> et_child s \<in> {C_none, C_done})
   \<and> (et_owner s \<in> {P_new, P_waiting, P_running} \<union> range P_read \<longrightarrow> \<not> et_quit s)
   \<and> (et_child s \<in> {C_left, C_unpublished, C_done} \<longrightarrow> et_owner s \<in> {P_joining, P_done})
   \<and> (et_owner s \<in> {P_running} \<union> range P_read \<longrightarrow> et_child s \<in> {C_published, C_looping})
   \<and> et_owner s \<noteq> P_read False \<and> et_owner s \<noteq> P_fault"

lemma et_step_inv: "et_inv s \<Longrightarrow> et_step s s' \<Longrightarrow> et_inv s'"
  by (erule et_stepE; cases "et_owner s") (auto simp: et_inv_def split: if_splits)

interpretation loop_threads: transition_system et_step et_inv
  by unfold_locales (rule et_step_inv)

lemma new_EventLoopThread_inv: "et_inv new_EventLoopThread"
  by (auto simp: et_inv_def new_EventLoopThread_def)

section \<open>Symbol scanning\<close>

lemma scan_symbol_append:
  "scan_symbol i (xs @ ys) r = scan_symbol (i + length xs) ys (scan_symbol i xs r)"
proof (induction xs arbitrary: i r)
  case (Cons c cs)
  obtain l p where "r = (l, p)" by (cases r)
  then show ?case using Cons by simp
qed simp

lemma scan_symbol_none:
  "CHR ''('' \<notin> set xs \<Longrightarrow> CHR ''+'' \<notin> set xs \<Longrightarrow> scan_symbol i xs r = r"
proof (induction xs arbitrary: i r)
  case (Cons c cs)
  obtain l p where "r = (l, p)" by (cases r)
  then show ?case using Cons by auto
qed simp

section \<open>Properties\<close>

text \<open>
  Property C33. Connections are spread evenly: after \<open>Start\<close> with \<open>n\<close> threads, the \<open>i\<close>-th call of
  \<open>GetNextLoop\<close> returns the loop of thread \<open>i mod n\<close>, and with no threads always the base loop;
  none of the calls faults. The init callback has run once on each of the loops handed out.
\<close>

theorem round_robin:
  "\<exists>p p'. Pool_Start StartLoop cb (new_EventLoopThreadPool base n name) = Inr p
    \<and> get_loops k p = Inr (if n \<le> 0 then replicate k base else map (\<lambda>i. StartLoop (i mod nat n)) [0..<k], p')
    \<and> tp_inits p = (if \<not> cb then [] else if n = 0 then [base] else map StartLoop [0..<nat n])
    \<and> length (tp_threads p) = nat n"
proof -
  define p where "p = (start_threads StartLoop cb 0 (nat n) (new_EventLoopThreadPool base n name))
    \<lparr>tp_started := True, tp_inits := (if \<not> cb then [] else if n = 0 then [base] else map StartLoop [0..<nat n])\<rparr>"
  have run: "Pool_Start StartLoop cb (new_EventLoopThreadPool base n name) = Inr p"
    by (auto simp: Pool_Start_def p_def start_threads_fields new_EventLoopThreadPool_def Let_def)
  have f: "tp_started p" "tp_loops p = map StartLoop [0..<nat n]" "tp_next p = 0" "tp_base_loop p = base"
      "length (tp_threads p) = nat n"
    by (simp_all add: p_def start_threads_fields new_EventLoopThreadPool_def)
  have "\<exists>p'. get_loops k p = Inr (if n \<le> 0 then replicate k base else map (\<lambda>i. StartLoop (i mod nat n)) [0..<k], p')"
  proof (cases "n \<le> 0")
    case True
    then have "GetNextLoop p = Inr (base, p)" using f by (simp add: GetNextLoop_def)
    then have "get_loops k p = Inr (replicate k base, p)" by (induction k) simp_all
    with True show ?thesis by simp
  next
    case False
    then have n: "0 < nat n" by simp
    obtain p' where "get_loops k p = Inr (map (\<lambda>i. map StartLoop [0..<nat n] ! (i mod nat n)) [0..<k], p')"
      using get_loops_round_robin [of p k] f n by auto
    moreover have "map StartLoop [0..<nat n] ! (i mod nat n) = StartLoop (i mod nat n)" for i using n by simp
    ultimately show ?thesis using False by simp
  qed
  moreover have "tp_inits p = (if \<not> cb then [] else if n = 0 then [base] else map StartLoop [0..<nat n])" by (simp add: p_def)
  ultimately show ?thesis using run f(5) by blast
qed

text \<open>
  Remark. \<open>StartLoop\<close> hands over a usable loop: when it has returned, the loop object exists, is
  published and its init callback has run; and the destructor of \<open>EventLoopThread\<close> calls \<open>Quit\<close> on
  a live loop (no other code asking that loop to quit).
\<close>

theorem loop_thread_handshake:
  assumes "et_step\<^sup>*\<^sup>* new_EventLoopThread s"
  shows "(et_owner s = P_running \<or> (\<exists>b. et_owner s = P_read b) \<longrightarrow> et_alive s \<and> et_loop s \<and> et_init s)
    \<and> et_owner s \<noteq> P_fault \<and> (et_owner s = P_done \<longrightarrow> \<not> et_alive s)"
proof -
  have "et_inv s" by (rule loop_threads.steps_inv [OF assms new_EventLoopThread_inv])
  then show ?thesis unfolding et_inv_def by (cases "et_owner s"; cases "et_child s") simp_all
qed

definition published_thread :: loop_thread where
  "published_thread = \<lparr>et_child = C_published, et_owner = P_running, et_loop = True, et_alive = True, et_init = True, et_quit = False\<rparr>"

lemma published_thread_reachable: "et_step\<^sup>*\<^sup>* new_EventLoopThread published_thread"
proof -
  define s1 where "s1 = new_EventLoopThread\<lparr>et_owner := P_waiting, et_child := C_begun\<rparr>"
  define s2 where "s2 = s1\<lparr>et_child := C_made, et_alive := True\<rparr>"
  define s3 where "s3 = s2\<lparr>et_child := C_ready, et_init := True\<rparr>"
  define s4 where "s4 = s3\<lparr>et_child := C_published, et_loop := True\<rparr>"
  note defs = s1_def s2_def s3_def s4_def new_EventLoopThread_def published_thread_def
  have "et_step new_EventLoopThread s1" unfolding s1_def by (rule et_start) (simp add: defs)
  moreover have "et_step s1 s2" unfolding s2_def by (rule et_make) (simp add: defs)
  moreover have "et_step s2 s3" unfolding s3_def by (rule et_step.et_init) (simp add: defs)
  moreover have "et_step s3 s4" unfolding s4_def by (rule et_publish) (simp add: defs)
  moreover have "et_step s4 published_thread" using et_return [of s4] by (simp add: defs)
  ultimately show ?thesis by (meson converse_rtranclp_into_rtranclp rtranclp.rtrancl_refl)
qed

theorem loop_thread_handshake_witness:
  "et_alive published_thread \<and> et_loop published_thread \<and> et_init published_thread"
  using loop_thread_handshake [OF published_thread_reachable] by (simp add: published_thread_def)

text \<open>
  Remark. The destructor may hang: the loop is published before \<open>Loop\<close> resets \<open>quit_\<close>, so a
  destructor that runs in between has its \<open>Quit\<close> undone, and the two threads reach a state in
  which the owner waits in \<open>Join\<close>, the loop runs on, and neither can make a step again.
\<close>

theorem loop_thread_join_hangs:
  "\<exists>s. et_step\<^sup>*\<^sup>* new_EventLoopThread s \<and> et_owner s = P_joining \<and> et_child s = C_looping \<and> (\<nexists>s'. et_step s s')"
proof -
  define s1 where "s1 = published_thread\<lparr>et_owner := P_read True\<rparr>"
  define s2 where "s2 = s1\<lparr>et_owner := P_joining, et_quit := True\<rparr>"
  define s3 where "s3 = s2\<lparr>et_child := C_looping, et_quit := False\<rparr>"
  note defs = s1_def s2_def s3_def published_thread_def
  have "et_step published_thread s1" using et_read [of published_thread] by (simp add: defs)
  moreover have "et_step s1 s2" using et_step.et_quit [of s1 True] by (simp add: defs)
  moreover have "et_step s2 s3" unfolding s3_def by (rule et_enter) (simp add: defs)
  ultimately have "et_step\<^sup>*\<^sup>* new_EventLoopThread s3"
    using published_thread_reachable by (meson rtranclp.rtrancl_into_rtrancl)
  moreover have "\<not> et_step s3 s'" for s' by (auto simp: defs elim!: et_stepE)
  ultimately show ?thesis by (intro exI [of _ s3]) (simp add: defs)
qed

text \<open>
  Remark. The thread id is asked for once per thread: the first \<open>tid()\<close> stores what the kernel
  said, every later one returns it whatever the kernel says then, and the text kept for the log is
  the id right-aligned in five columns and a space, whole, for every 32-bit id.
\<close>

theorem tid_cached:
  assumes "fst (CurrentThread_tid g new_tls) \<noteq> 0" and "\<bar>g\<bar> < 2 ^ 31"
  shows "fst (CurrentThread_tid h (snd (CurrentThread_tid g new_tls))) = g \<and> snd (CurrentThread_tid h (snd (CurrentThread_tid g new_tls))) = snd (CurrentThread_tid g new_tls)
    \<and> t_tidString (snd (CurrentThread_tid g new_tls)) = pad5 g @ '' ''
    \<and> t_tidStringLength (snd (CurrentThread_tid g new_tls)) = length (t_tidString (snd (CurrentThread_tid g new_tls)))"
proof -
  have "length (show_int g) \<le> Suc 10" by (rule length_show_int_le) (use assms(2) in simp_all)
  then have "length (pad5 g @ '' '') \<le> 31" by (simp add: pad5_def Let_def)
  then show ?thesis using assms(1) by (simp add: CurrentThread_tid_def cacheTid_def new_tls_def Let_def)
qed

theorem tid_cached_witness:
  "fst (CurrentThread_tid 9 (snd (CurrentThread_tid 4242 new_tls))) = 4242 \<and> t_tidStringLength (snd (CurrentThread_tid 4242 new_tls)) = length (t_tidString (snd (CurrentThread_tid 4242 new_tls)))"
  using tid_cached [of 4242 9] by (simp add: CurrentThread_tid_def cacheTid_def new_tls_def Let_def)

text \<open>
  Remark. Demangling replaces the symbol and nothing else: on a line of the form
  \<open>module(symbol+offset) rest\<close>, the symbol is replaced by its demangled form when it has one, and
  the line is kept as it is when not.
\<close>

theorem trace_line_symbol:
  assumes "CHR ''('' \<notin> set symbol \<union> set rest" and "CHR ''+'' \<notin> set symbol \<union> set rest"
  shows "trace_line cxa_demangle True (module @ ''('' @ symbol @ ''+'' @ rest) =
    module @ ''('' @ (case cxa_demangle symbol of Some d \<Rightarrow> d | None \<Rightarrow> symbol) @ ''+'' @ rest @ [CHR 0x0A]"
proof -
  let ?line = "module @ ''('' @ symbol @ ''+'' @ rest"
  let ?l = "length module" and ?p = "length module + 1 + length symbol"
  have "scan_symbol 0 ?line (None, None) = (Some ?l, Some ?p)"
  proof -
    obtain a b where m: "scan_symbol 0 module (None, None) = (a, b)" by (cases "scan_symbol 0 module (None, None)")
    have "scan_symbol 0 ?line (None, None) = scan_symbol (?l + 1) (symbol @ ''+'' @ rest) (Some ?l, b)"
      by (simp add: scan_symbol_append m)
    also have "\<dots> = scan_symbol (?p + 1) rest (Some ?l, Some ?p)"
      using assms by (simp add: scan_symbol_append scan_symbol_none [of symbol])
    finally show ?thesis using assms by (simp add: scan_symbol_none)
  qed
  moreover have "segment (?l + 1) ?p ?line = symbol" by (simp add: segment_def)
  ultimately show ?thesis by (simp add: trace_line_def Let_def split: option.splits)
qed

theorem trace_line_symbol_witness:
  "trace_line (\<lambda>s. if s = ''_Z3foov'' then Some ''foo()'' else None) True ''a(_Z3foov+0x9) [0x1]'' = ''a(foo()+0x9) [0x1]'' @ [CHR 0x0A]"
  using trace_line_symbol [of "''_Z3foov''" "''0x9) [0x1]''" "\<lambda>s. if s = ''_Z3foov'' then Some ''foo()'' else None" "''a''"] by simp

text \<open>
  Remark. A thread is disposed of once: a thread object that was started and destroyed has its
  thread either joined or detached, not both; joining twice, joining before the start and starting
  twice are refused; unnamed threads get distinct names.
\<close>

theorem thread_disposed_once:
  assumes "Thread_Start True i (snd (new_Thread n name)) = Inr th"
  shows "th_detached (destroy_Thread th) \<and> (\<exists>th'. Join th = Inr th' \<and> th_joined th' \<and> \<not> th_detached (destroy_Thread th')
       \<and> Join th' = Inl AssertFailed)
     \<and> Join (snd (new_Thread n name)) = Inl AssertFailed \<and> Thread_Start ok j th = Inl AssertFailed
     \<and> (m \<noteq> n \<longrightarrow> th_name (snd (new_Thread m [])) \<noteq> th_name (snd (new_Thread n [])))"
proof -
  define base where "base = snd (new_Thread n name)"
  have base: "\<not> th_started base" "\<not> th_joined base" "\<not> th_detached base"
    by (simp_all add: base_def new_Thread_def SetDefaultName_def)
  then have th: "th = base\<lparr>th_started := True, th_tid := i\<rparr>"
    using assms by (simp add: base_def [symmetric] Thread_Start_def)
  have "Join th = Inr (th\<lparr>th_joined := True\<rparr>)" "Join (th\<lparr>th_joined := True\<rparr>) = Inl AssertFailed"
      "Join base = Inl AssertFailed" "Thread_Start ok j th = Inl AssertFailed"
    using base by (simp_all add: th Join_def Thread_Start_def)
  moreover have "th_detached (destroy_Thread th)" "\<not> th_detached (destroy_Thread (th\<lparr>th_joined := True\<rparr>))"
    using base by (simp_all add: th destroy_Thread_def)
  moreover have "m \<noteq> n \<longrightarrow> th_name (snd (new_Thread m [])) \<noteq> th_name (snd (new_Thread n []))"
    by (simp add: new_Thread_def SetDefaultName_def show_int_inj)
  ultimately show ?thesis unfolding base_def [symmetric]
    by (intro conjI exI [of _ "th\<lparr>th_joined := True\<rparr>"]) simp_all
qed

theorem thread_disposed_once_witness:
  "\<exists>th. Thread_Start True 42 (snd (new_Thread 0 [])) = Inr th \<and> th_detached (destroy_Thread th)"
proof -
  obtain th where th: "Thread_Start True 42 (snd (new_Thread 0 [])) = Inr th"
    by (simp add: Thread_Start_def new_Thread_def SetDefaultName_def)
  from thread_disposed_once [OF th] th show ?thesis by blast
qed

end
