(* ===== verification/TcpServer.thy ===== *)
theory TcpServer
  imports TcpConnection Threads Sockets "HOL-Library.Multiset"
begin

text \<open>
  Keeping connections: \<open>TcpServer\<close> (\<open>src/TcpServer.cc\<close>) as a system of loops with task queues. A
  connection is here its name, loop and state; what its handlers do inside is the theory of
  \<open>TcpConnection\<close>, and accepting is the theory \<open>Acceptor\<close>.
\<close>

section \<open>TcpServer\<close>

datatype server_task = ConnectEstablishedTask nat | RemoveConnectionInLoopTask nat | ConnectDestroyedTask nat

record server_conn =
  sc_name :: string
  sc_loop :: nat
  sc_state :: StateE

text \<open>
  Connections are objects by address. \<open>sv_queues\<close> are the task queues of the loops; a loop stands
  for its thread.
\<close>

record server =
  sv_loop :: nat
  sv_name :: string
  sv_started :: bool
  sv_next_conn_id :: int
  sv_connections :: "string \<rightharpoonup> nat"
  sv_thread_pool :: thread_pool
  sv_init_callback :: bool
  sv_conns :: "nat \<rightharpoonup> server_conn"
  sv_queues :: "nat \<Rightarrow> server_task list"

definition new_TcpServer :: "nat \<Rightarrow> string \<Rightarrow> server" where
  "new_TcpServer loop name =
     \<lparr>sv_loop = loop, sv_name = name, sv_started = False, sv_next_conn_id = 0, sv_connections = Map.empty,
      sv_thread_pool = new_EventLoopThreadPool loop 0 name, sv_init_callback = False, sv_conns = Map.empty,
      sv_queues = (\<lambda>_. [])\<rparr>"

definition Server_SetThreadNum :: "int \<Rightarrow> server \<Rightarrow> server res" where
  "Server_SetThreadNum num_threads s =
     bindE (assertE (\<not> sv_started s)) (\<lambda>_.
     bindE (SetThreadNum num_threads (sv_thread_pool s)) (\<lambda>p. Inr (s\<lparr>sv_thread_pool := p\<rparr>)))"

text \<open>\<open>Start\<close> without the acceptor's \<open>listen\<close>, which is in the theory \<open>Acceptor\<close>.\<close>

definition Server_Start :: "(nat \<Rightarrow> nat) \<Rightarrow> server \<Rightarrow> server res" where
  "Server_Start StartLoop s =
     (if sv_started s then Inr s
      else bindE (Pool_Start StartLoop (sv_init_callback s) (sv_thread_pool s)) (\<lambda>p.
             Inr (s\<lparr>sv_thread_pool := p, sv_started := True\<rparr>)))"

definition push_task :: "nat \<Rightarrow> server_task \<Rightarrow> server \<Rightarrow> server" where
  "push_task loop task s = s\<lparr>sv_queues := (sv_queues s)(loop := sv_queues s loop @ [task])\<rparr>"

text \<open>The counter is an \<open>atomic_int\<close>, which wraps around.\<close>

definition next_id :: "int \<Rightarrow> int" where
  "next_id i = (if i = 2 ^ 31 - 1 then - (2 ^ 31) else i + 1)"

definition conn_name :: "string \<Rightarrow> int \<Rightarrow> string" where
  "conn_name name i = name @ ''#'' @ show_int i"

text \<open>\<open>obj\<close> is the address of the new connection. \<open>emplace\<close> leaves an existing entry alone.\<close>

definition NewConnectionCallback :: "nat \<Rightarrow> server \<Rightarrow> server res" where
  "NewConnectionCallback obj s =
     bindE (GetNextLoop (sv_thread_pool s)) (\<lambda>(io_loop, pool).
       let name = conn_name (sv_name s) (sv_next_conn_id s);
           s1 = s\<lparr>sv_thread_pool := pool, sv_next_conn_id := next_id (sv_next_conn_id s)\<rparr>;
           s2 = (case sv_connections s1 name of
                   Some _ \<Rightarrow> s1
                 | None \<Rightarrow> s1\<lparr>sv_connections := (sv_connections s1)(name \<mapsto> obj),
                     sv_conns := (sv_conns s1)(obj \<mapsto> \<lparr>sc_name = name, sc_loop = io_loop, sc_state = kConnecting\<rparr>)\<rparr>)
       in Inr (push_task io_loop (ConnectEstablishedTask (the (sv_connections s2 name))) s2))"

definition RemoveConnection :: "nat \<Rightarrow> server \<Rightarrow> server" where
  "RemoveConnection conn s = push_task (sv_loop s) (RemoveConnectionInLoopTask conn) s"

text \<open>
  \<open>ConnectDestroyed\<close> on thread \<open>me\<close>: off the connection's loop the removal of its channel aborts.
\<close>

definition run_ConnectDestroyed :: "nat \<Rightarrow> nat \<Rightarrow> server \<Rightarrow> server res" where
  "run_ConnectDestroyed me conn s =
     (case sv_conns s conn of
        None \<Rightarrow> Inl UseAfterFree
      | Some k \<Rightarrow>
          if me = sc_loop k
          then Inr (s\<lparr>sv_conns := (sv_conns s)(conn \<mapsto>
                 (if sc_state k = kConnected \<or> sc_state k = kDisconnecting then k\<lparr>sc_state := kDisconnected\<rparr> else k))\<rparr>)
          else Inl Aborted)"

definition RemoveConnectionInLoop :: "nat \<Rightarrow> nat \<Rightarrow> server \<Rightarrow> server res" where
  "RemoveConnectionInLoop me conn s =
     (if me \<noteq> sv_loop s then Inl Aborted
      else case sv_conns s conn of
        None \<Rightarrow> Inl UseAfterFree
      | Some k \<Rightarrow>
          bindE (assertE (sv_connections s (sc_name k) \<noteq> None)) (\<lambda>_.
            let s1 = s\<lparr>sv_connections := (sv_connections s)(sc_name k := None)\<rparr>
            in if me = sc_loop k then run_ConnectDestroyed me conn s1
               else Inr (push_task (sc_loop k) (ConnectDestroyedTask conn) s1)))"

text \<open>The destructor over the connections still in the map, in some order.\<close>

fun destroy_TcpServer :: "nat \<Rightarrow> nat list \<Rightarrow> server \<Rightarrow> server res" where
  "destroy_TcpServer me [] s = Inr s"
| "destroy_TcpServer me (conn # conns) s = bindE (run_ConnectDestroyed me conn s) (destroy_TcpServer me conns)"

section \<open>The running server\<close>

fun run_server_task :: "nat \<Rightarrow> server_task \<Rightarrow> server \<Rightarrow> server res" where
  "run_server_task me (ConnectEstablishedTask c) s =
     (case sv_conns s c of
        None \<Rightarrow> Inl UseAfterFree
      | Some k \<Rightarrow> Inr (s\<lparr>sv_conns := (sv_conns s)(c \<mapsto> k\<lparr>sc_state := kConnected\<rparr>)\<rparr>))"
| "run_server_task me (RemoveConnectionInLoopTask c) s = RemoveConnectionInLoop me c s"
| "run_server_task me (ConnectDestroyedTask c) s = run_ConnectDestroyed me c s"

text \<open>
  Steps: a connection is accepted, a loop runs its next task, the user shuts a connection down, or
  a connection is closed by its handler, which calls the server back.
\<close>

inductive server_step :: "server \<Rightarrow> server \<Rightarrow> bool" where
  sv_accept: "sv_started s \<Longrightarrow> sv_conns s obj = None \<Longrightarrow> sv_next_conn_id s < 2 ^ 31 - 1 \<Longrightarrow>
     NewConnectionCallback obj s = Inr s' \<Longrightarrow> server_step s s'"
| sv_task: "sv_queues s l = t # ts \<Longrightarrow> run_server_task l t (s\<lparr>sv_queues := (sv_queues s)(l := ts)\<rparr>) = Inr s' \<Longrightarrow>
     server_step s s'"
| sv_shutdown: "sv_conns s c = Some k \<Longrightarrow> sc_state k = kConnected \<Longrightarrow>
     server_step s (s\<lparr>sv_conns := (sv_conns s)(c \<mapsto> k\<lparr>sc_state := kDisconnecting\<rparr>)\<rparr>)"
| sv_close: "sv_conns s c = Some k \<Longrightarrow> sc_state k = kConnected \<or> sc_state k = kDisconnecting \<Longrightarrow>
     server_step s (RemoveConnection c (s\<lparr>sv_conns := (sv_conns s)(c \<mapsto> k\<lparr>sc_state := kDisconnected\<rparr>)\<rparr>))"

section \<open>Invariant\<close>

text \<open>
  The life of a connection: queued to come up; up; closed, its removal queued on the server's loop;
  removed, its destruction queued on its own loop; destroyed.
\<close>

datatype phase = Establishing | Up | Closing | Leaving | Finished

fun task_conn :: "server_task \<Rightarrow> nat" where
  "task_conn (ConnectEstablishedTask c) = c"
| "task_conn (RemoveConnectionInLoopTask c) = c"
| "task_conn (ConnectDestroyedTask c) = c"

text \<open>The one task a connection waits for, and the loop it is queued on.\<close>

fun due_at :: "nat \<Rightarrow> server_conn \<Rightarrow> phase \<Rightarrow> nat \<Rightarrow> server_task \<Rightarrow> bool" where
  "due_at main k p l (ConnectEstablishedTask c) \<longleftrightarrow> p = Establishing \<and> l = sc_loop k"
| "due_at main k p l (RemoveConnectionInLoopTask c) \<longleftrightarrow> p = Closing \<and> l = main"
| "due_at main k p l (ConnectDestroyedTask c) \<longleftrightarrow> p = Leaving \<and> l = sc_loop k"

definition due :: "(nat \<Rightarrow> phase) \<Rightarrow> server \<Rightarrow> nat \<Rightarrow> server_task \<Rightarrow> bool" where
  "due ph s l t \<longleftrightarrow> (\<exists>k. sv_conns s (task_conn t) = Some k \<and> due_at (sv_loop s) k (ph (task_conn t)) l t)"

fun phase_state :: "phase \<Rightarrow> StateE \<Rightarrow> bool" where
  "phase_state Establishing st \<longleftrightarrow> st = kConnecting"
| "phase_state Up st \<longleftrightarrow> st = kConnected \<or> st = kDisconnecting"
| "phase_state _ st \<longleftrightarrow> st = kDisconnected"

definition listed :: "phase \<Rightarrow> bool" where
  "listed p \<longleftrightarrow> p \<in> {Establishing, Up, Closing}"

definition pool_ready :: "thread_pool \<Rightarrow> bool" where
  "pool_ready p \<longleftrightarrow> tp_started p \<and> (tp_loops p = [] \<or> tp_next p < length (tp_loops p))"

definition sv_inv :: "(nat \<Rightarrow> phase) \<Rightarrow> server \<Rightarrow> bool" where
  "sv_inv ph s \<longleftrightarrow> (sv_started s \<longrightarrow> pool_ready (sv_thread_pool s)) \<and> 0 \<le> sv_next_conn_id s
     \<and> (\<forall>c k. sv_conns s c = Some k \<longrightarrow> phase_state (ph c) (sc_state k)
          \<and> (\<exists>i. 0 \<le> i \<and> i < sv_next_conn_id s \<and> sc_name k = conn_name (sv_name s) i))
     \<and> (\<forall>c d k k'. sv_conns s c = Some k \<longrightarrow> sv_conns s d = Some k' \<longrightarrow> sc_name k = sc_name k' \<longrightarrow> c = d)
     \<and> (\<forall>n c. sv_connections s n = Some c \<longleftrightarrow> (\<exists>k. sv_conns s c = Some k \<and> sc_name k = n \<and> listed (ph c)))
     \<and> (\<forall>l t. count_list (sv_queues s l) t = of_bool (due ph s l t))"

lemma sv_invD:
  assumes "sv_inv ph s"
  shows "sv_started s \<Longrightarrow> pool_ready (sv_thread_pool s)" "0 \<le> sv_next_conn_id s"
    "sv_conns s c = Some k \<Longrightarrow> phase_state (ph c) (sc_state k)"
    "sv_conns s c = Some k \<Longrightarrow> \<exists>i. 0 \<le> i \<and> i < sv_next_conn_id s \<and> sc_name k = conn_name (sv_name s) i"
    "sv_conns s c = Some k \<Longrightarrow> sv_conns s d = Some k' \<Longrightarrow> sc_name k = sc_name k' \<Longrightarrow> c = d"
    "sv_connections s n = Some c \<longleftrightarrow> (\<exists>k. sv_conns s c = Some k \<and> sc_name k = n \<and> listed (ph c))"
    "count_list (sv_queues s l) t = of_bool (due ph s l t)"
  using assms unfolding sv_inv_def by blast+

lemma sv_invI:
  assumes "sv_started s \<Longrightarrow> pool_ready (sv_thread_pool s)" "0 \<le> sv_next_conn_id s"
    "\<And>c k. sv_conns s c = Some k \<Longrightarrow> phase_state (ph c) (sc_state k)"
    "\<And>c k. sv_conns s c = Some k \<Longrightarrow> \<exists>i. 0 \<le> i \<and> i < sv_next_conn_id s \<and> sc_name k = conn_name (sv_name s) i"
    "\<And>c d k k'. sv_conns s c = Some k \<Longrightarrow> sv_conns s d = Some k' \<Longrightarrow> sc_name k = sc_name k' \<Longrightarrow> c = d"
    "\<And>n c. sv_connections s n = Some c \<longleftrightarrow> (\<exists>k. sv_conns s c = Some k \<and> sc_name k = n \<and> listed (ph c))"
    "\<And>l t. count_list (sv_queues s l) t = of_bool (due ph s l t)"
  shows "sv_inv ph s"
  using assms unfolding sv_inv_def by blast

text \<open>One connection moves on: its record, its place in the map and its task change together.\<close>

lemma sv_inv_move:
  assumes inv: "sv_inv ph s" and c: "sv_conns s c = Some k"
    and k': "sc_name k' = sc_name k" "sc_loop k' = sc_loop k" "phase_state p (sc_state k')"
    and same: "sv_loop s' = sv_loop s" "sv_name s' = sv_name s" "sv_started s' = sv_started s"
      "sv_thread_pool s' = sv_thread_pool s" "sv_next_conn_id s' = sv_next_conn_id s"
    and conns: "sv_conns s' = (sv_conns s)(c \<mapsto> k')"
    and map: "sv_connections s' = (sv_connections s)(sc_name k := if listed p then Some c else None)"
    and queues: "\<And>l t. count_list (sv_queues s' l) t =
      (if task_conn t = c then of_bool (due_at (sv_loop s) k p l t) else count_list (sv_queues s l) t)"
  shows "sv_inv (ph(c := p)) s'"
proof (rule sv_invI)
  note i = sv_invD [OF inv]
  show "sv_started s' \<Longrightarrow> pool_ready (sv_thread_pool s')" "0 \<le> sv_next_conn_id s'" using i(1,2) same by simp_all
  have was: "\<exists>h'. sv_conns s d = Some h' \<and> sc_name h' = sc_name h" if "sv_conns s' d = Some h" for d h
    using that c k'(1) unfolding conns by (cases "d = c") auto
  show "phase_state ((ph(c := p)) d) (sc_state h)" if "sv_conns s' d = Some h" for d h
    using that i(3) [of d h] k'(3) unfolding conns by (cases "d = c") auto
  show "\<exists>i. 0 \<le> i \<and> i < sv_next_conn_id s' \<and> sc_name h = conn_name (sv_name s') i" if "sv_conns s' d = Some h" for d h
    using was [OF that] i(4) unfolding same by metis
  show "d = e" if "sv_conns s' d = Some h" "sv_conns s' e = Some h'" "sc_name h = sc_name h'" for d e h h'
    using was [OF that(1)] was [OF that(2)] that(3) i(5) by metis
  show "sv_connections s' n = Some d \<longleftrightarrow> (\<exists>h. sv_conns s' d = Some h \<and> sc_name h = n \<and> listed ((ph(c := p)) d))" for n d
  proof (cases "n = sc_name k")
    case True
    have "(\<exists>h. sv_conns s' d = Some h \<and> sc_name h = n) \<longleftrightarrow> d = c"
    proof
      assume "\<exists>h. sv_conns s' d = Some h \<and> sc_name h = n"
      then obtain h where "sv_conns s d = Some h" "sc_name h = sc_name k" using was True by metis
      then show "d = c" using i(5) c by blast
    qed (use True k'(1) in \<open>simp add: conns\<close>)
    then show ?thesis using True unfolding map by auto
  next
    case False
    then have "d \<noteq> c" if "sv_conns s' d = Some h" "sc_name h = n" for h
      using that k'(1) unfolding conns by auto
    moreover have "sv_connections s' n = Some d \<longleftrightarrow> sv_connections s n = Some d" using False unfolding map by simp
    moreover have "d \<noteq> c" if "sv_connections s n = Some d" using that i(6) [of n d] c False by auto
    ultimately show ?thesis unfolding i(6) by (auto simp: conns)
  qed
  show "count_list (sv_queues s' l) t = of_bool (due (ph(c := p)) s' l t)" for l t
  proof (cases "task_conn t = c")
    case True
    have "due_at (sv_loop s) k' p l t = due_at (sv_loop s) k p l t" using k'(2) by (cases t) simp_all
    then show ?thesis using True unfolding queues by (simp add: due_def conns same)
  next
    case False
    then show ?thesis unfolding queues by (simp add: i(7) due_def conns same)
  qed
qed

lemma count_push: "count_list (sv_queues (push_task l t s) l') t' = count_list (sv_queues s l') t' + of_bool (l' = l \<and> t' = t)"
  by (auto simp: push_task_def)

lemma push_task_fields [simp]:
  "sv_loop (push_task l t s) = sv_loop s" "sv_name (push_task l t s) = sv_name s" "sv_started (push_task l t s) = sv_started s"
  "sv_next_conn_id (push_task l t s) = sv_next_conn_id s" "sv_connections (push_task l t s) = sv_connections s"
  "sv_thread_pool (push_task l t s) = sv_thread_pool s" "sv_conns (push_task l t s) = sv_conns s"
  by (simp_all add: push_task_def)

text \<open>The only task a connection has, by its phase.\<close>

lemma due_at_iff:
  "task_conn t = c \<Longrightarrow> due_at main k p l t \<longleftrightarrow>
     (case p of
        Establishing \<Rightarrow> t = ConnectEstablishedTask c \<and> l = sc_loop k
      | Closing \<Rightarrow> t = RemoveConnectionInLoopTask c \<and> l = main
      | Leaving \<Rightarrow> t = ConnectDestroyedTask c \<and> l = sc_loop k
      | _ \<Rightarrow> False)"
  by (cases t; cases p) auto

lemma due_at_unique:
  "due_at main k p l t \<Longrightarrow> task_conn t' = task_conn t \<Longrightarrow> due_at main k p l' t' \<longleftrightarrow> l' = l \<and> t' = t"
  by (cases t; cases t') auto

lemma head_task_due:
  assumes inv: "sv_inv ph s" and q: "sv_queues s l = t # ts"
  obtains k where "sv_conns s (task_conn t) = Some k" "due_at (sv_loop s) k (ph (task_conn t)) l t"
proof -
  have "count_list (sv_queues s l) t \<noteq> 0" by (simp add: q)
  then have "due ph s l t" using sv_invD(7) [OF inv, of l t] by (cases "due ph s l t") simp_all
  then show thesis using that by (auto simp: due_def)
qed

lemma count_own:
  assumes "sv_inv ph s" and "sv_conns s c = Some k" and "task_conn t = c"
  shows "count_list (sv_queues s l) t = of_bool (due_at (sv_loop s) k (ph c) l t)"
  using sv_invD(7) [OF assms(1), of l t] assms(2,3) by (simp add: due_def)

text \<open>After a task is taken from its queue, its connection has none.\<close>

lemma count_pop:
  assumes inv: "sv_inv ph s" and q: "sv_queues s l = t # ts"
  shows "count_list (((sv_queues s)(l := ts)) l') t' = (if task_conn t' = task_conn t then 0 else count_list (sv_queues s l') t')"
proof -
  obtain k where k: "sv_conns s (task_conn t) = Some k" "due_at (sv_loop s) k (ph (task_conn t)) l t"
    by (rule head_task_due [OF inv q])
  show ?thesis
  proof (cases "task_conn t' = task_conn t")
    case True
    have "count_list (sv_queues s l') t' = of_bool (l' = l \<and> t' = t)"
      unfolding count_own [OF inv k(1) True] due_at_unique [OF k(2) True] ..
    with True q show ?thesis by (auto split: if_splits)
  next
    case False
    then have "t' \<noteq> t" by auto
    with False q show ?thesis by simp
  qed
qed

lemma listed_connection:
  "sv_inv ph s \<Longrightarrow> sv_conns s c = Some k \<Longrightarrow> sv_connections s (sc_name k) = (if listed (ph c) then Some c else None)"
proof (cases "sv_connections s (sc_name k)")
  case None
  assume "sv_inv ph s" "sv_conns s c = Some k"
  then show ?thesis using sv_invD(6) [of ph s "sc_name k" c] None by auto
next
  case (Some d)
  assume a: "sv_inv ph s" "sv_conns s c = Some k"
  then obtain h where "sv_conns s d = Some h" "sc_name h = sc_name k" "listed (ph d)"
    using sv_invD(6) [OF a(1), of "sc_name k" d] Some by auto
  then show ?thesis using sv_invD(5) [OF a(1) _ a(2)] Some by auto
qed

text \<open>The tasks a connection still has before it.\<close>

fun tasks_left :: "phase \<Rightarrow> nat" where
  "tasks_left Establishing = 1"
| "tasks_left Closing = 2"
| "tasks_left Leaving = 1"
| "tasks_left _ = 0"

text \<open>Running a task: it is the one its connection waits for, it does not fault, and it brings the connection on.\<close>

lemma run_task_ok:
  assumes inv: "sv_inv ph s" and q: "sv_queues s l = t # ts"
  shows "\<exists>s' c p. run_server_task l t (s\<lparr>sv_queues := (sv_queues s)(l := ts)\<rparr>) = Inr s' \<and> sv_inv (ph(c := p)) s'
    \<and> tasks_left p < tasks_left (ph c) \<and> c \<in> dom (sv_conns s) \<and> dom (sv_conns s') = dom (sv_conns s)"
proof -
  let ?p = "s\<lparr>sv_queues := (sv_queues s)(l := ts)\<rparr>"
  obtain k where k: "sv_conns s (task_conn t) = Some k" "due_at (sv_loop s) k (ph (task_conn t)) l t"
    by (rule head_task_due [OF inv q])
  note pop = count_pop [OF inv q] and where_listed = listed_connection [OF inv k(1)] and st = sv_invD(3) [OF inv k(1)]
  show ?thesis
  proof (cases t)
    case (ConnectEstablishedTask c)
    let ?k = "k\<lparr>sc_state := kConnected\<rparr>"
    let ?s = "?p\<lparr>sv_conns := (sv_conns s)(c \<mapsto> ?k)\<rparr>"
    have c: "sv_conns s c = Some k" "ph c = Establishing" using k ConnectEstablishedTask by simp_all
    have "sv_inv (ph(c := Up)) ?s"
    proof (rule sv_inv_move [OF inv c(1), of ?k])
      show "sv_connections ?s = (sv_connections s)(sc_name k := if listed Up then Some c else None)"
        using where_listed c ConnectEstablishedTask by (simp add: listed_def fun_upd_idem)
      show "count_list (sv_queues ?s l') t' =
          (if task_conn t' = c then of_bool (due_at (sv_loop s) k Up l' t') else count_list (sv_queues s l') t')" for l' t'
        using pop [of l' t'] ConnectEstablishedTask due_at_iff [of t' c "sv_loop s" k Up l'] by simp
    qed simp_all
    then show ?thesis using ConnectEstablishedTask c(1,2) by (intro exI [of _ ?s] exI [of _ c] exI [of _ Up]) auto
  next
    case (RemoveConnectionInLoopTask c)
    define p where "p = (if l = sc_loop k then Finished else Leaving)"
    let ?s1 = "?p\<lparr>sv_connections := (sv_connections s)(sc_name k := None)\<rparr>"
    let ?s = "if l = sc_loop k then ?s1\<lparr>sv_conns := (sv_conns s)(c \<mapsto> k)\<rparr> else push_task (sc_loop k) (ConnectDestroyedTask c) ?s1"
    have c: "sv_conns s c = Some k" "ph c = Closing" "l = sv_loop s" "sc_state k = kDisconnected"
      using k st RemoveConnectionInLoopTask by auto
    have run: "run_server_task l t ?p = Inr ?s"
      using c where_listed RemoveConnectionInLoopTask
      by (simp add: RemoveConnectionInLoop_def run_ConnectDestroyed_def listed_def Let_def)
    have "sv_inv (ph(c := p)) ?s"
    proof (rule sv_inv_move [OF inv c(1), of k])
      show "sv_conns ?s = (sv_conns s)(c \<mapsto> k)" using c(1) by (simp add: fun_upd_idem)
      show "count_list (sv_queues ?s l') t' =
          (if task_conn t' = c then of_bool (due_at (sv_loop s) k p l' t') else count_list (sv_queues s l') t')" for l' t'
        using pop [of l' t'] RemoveConnectionInLoopTask due_at_iff [of t' c "sv_loop s" k p l']
        by (auto simp: p_def count_push)
    qed (use c(4) in \<open>simp_all add: p_def listed_def\<close>)
    moreover have "dom (sv_conns ?s) = dom (sv_conns s)" "tasks_left p < tasks_left (ph c)" using c by (auto simp: p_def)
    ultimately show ?thesis using run c(1) by blast
  next
    case (ConnectDestroyedTask c)
    let ?s = "?p\<lparr>sv_conns := (sv_conns s)(c \<mapsto> k)\<rparr>"
    have c: "sv_conns s c = Some k" "ph c = Leaving" "l = sc_loop k" "sc_state k = kDisconnected"
      using k st ConnectDestroyedTask by auto
    have "sv_inv (ph(c := Finished)) ?s"
    proof (rule sv_inv_move [OF inv c(1), of k])
      show "sv_connections ?s = (sv_connections s)(sc_name k := if listed Finished then Some c else None)"
        using where_listed c ConnectDestroyedTask by (simp add: listed_def fun_upd_idem)
      show "count_list (sv_queues ?s l') t' =
          (if task_conn t' = c then of_bool (due_at (sv_loop s) k Finished l' t') else count_list (sv_queues s l') t')" for l' t'
        using pop [of l' t'] ConnectDestroyedTask due_at_iff [of t' c "sv_loop s" k Finished l'] by simp
    qed (use c(4) in simp_all)
    then show ?thesis using ConnectDestroyedTask c
      by (intro exI [of _ ?s] exI [of _ c] exI [of _ Finished]) (auto simp: run_ConnectDestroyed_def)
  qed
qed

lemma GetNextLoop_ready: "pool_ready p \<Longrightarrow> \<exists>l p'. GetNextLoop p = Inr (l, p') \<and> pool_ready p'"
  by (auto simp: pool_ready_def GetNextLoop_def Let_def)

lemma conn_name_inj: "conn_name n i = conn_name n j \<longleftrightarrow> i = j"
  by (simp add: conn_name_def show_int_inj)

lemma accept_ok:
  assumes inv: "sv_inv ph s" and up: "sv_started s" and obj: "sv_conns s obj = None" and id: "sv_next_conn_id s < 2 ^ 31 - 1"
  shows "\<exists>s'. NewConnectionCallback obj s = Inr s' \<and> sv_inv (ph(obj := Establishing)) s' \<and> dom (sv_conns s') = insert obj (dom (sv_conns s))"
proof -
  note i = sv_invD [OF inv]
  let ?i = "sv_next_conn_id s" and ?n = "conn_name (sv_name s) (sv_next_conn_id s)"
  obtain l p where p: "GetNextLoop (sv_thread_pool s) = Inr (l, p)" "pool_ready p" using GetNextLoop_ready i(1) [OF up] by blast
  define k where "k = \<lparr>sc_name = ?n, sc_loop = l, sc_state = kConnecting\<rparr>"
  define s1 where "s1 = s\<lparr>sv_thread_pool := p, sv_next_conn_id := ?i + 1, sv_connections := (sv_connections s)(?n \<mapsto> obj),
      sv_conns := (sv_conns s)(obj \<mapsto> k)\<rparr>"
  define s' where "s' = push_task l (ConnectEstablishedTask obj) s1"
  have fresh: "sc_name h \<noteq> ?n" if "sv_conns s c = Some h" for c h
    using i(4) [OF that] conn_name_inj by force
  have free: "sv_connections s ?n = None"
    using i(6) [of ?n] fresh by (cases "sv_connections s ?n") auto
  have run: "NewConnectionCallback obj s = Inr s'"
    using p(1) free id by (simp add: NewConnectionCallback_def next_id_def s'_def s1_def k_def Let_def)
  have conns: "sv_conns s' = (sv_conns s)(obj \<mapsto> k)" by (simp add: s'_def s1_def)
  have "sv_inv (ph(obj := Establishing)) s'"
  proof (rule sv_invI)
    show "pool_ready (sv_thread_pool s')" "0 \<le> sv_next_conn_id s'" using p(2) i(2) by (simp_all add: s'_def s1_def)
    show "phase_state ((ph(obj := Establishing)) c) (sc_state h)" if "sv_conns s' c = Some h" for c h
      using that i(3) [of c h] unfolding conns by (cases "c = obj") (auto simp: k_def)
    show "\<exists>j. 0 \<le> j \<and> j < sv_next_conn_id s' \<and> sc_name h = conn_name (sv_name s') j" if "sv_conns s' c = Some h" for c h
    proof (cases "c = obj")
      case True
      then show ?thesis using that i(2) unfolding conns by (auto simp: k_def s'_def s1_def)
    next
      case False
      then show ?thesis using that i(4) [of c h] unfolding conns by (force simp: s'_def s1_def)
    qed
    show "c = d" if "sv_conns s' c = Some h" "sv_conns s' d = Some h'" "sc_name h = sc_name h'" for c d h h'
      using that fresh [of c h] fresh [of d h'] i(5) [of c h d h'] unfolding conns by (cases "c = obj"; cases "d = obj") (auto simp: k_def)
    show "sv_connections s' n = Some c \<longleftrightarrow> (\<exists>h. sv_conns s' c = Some h \<and> sc_name h = n \<and> listed ((ph(obj := Establishing)) c))" for n c
    proof (cases "c = obj")
      case True
      then show ?thesis using i(6) [of n obj] obj by (auto simp: s'_def s1_def k_def listed_def)
    next
      case False
      then show ?thesis using i(6) [of n c] fresh by (auto simp: s'_def s1_def)
    qed
    show "count_list (sv_queues s' m) t = of_bool (due (ph(obj := Establishing)) s' m t)" for m t
    proof (cases "task_conn t = obj")
      case True
      have "count_list (sv_queues s m) t = 0" using i(7) [of m t] True obj by (simp add: due_def)
      moreover have "sv_queues s1 = sv_queues s" by (simp add: s1_def)
      ultimately show ?thesis
        using True due_at_iff [OF True, of "sv_loop s'" k Establishing m] unfolding s'_def count_push
        by (auto simp: due_def s1_def k_def)
    next
      case False
      then have "t \<noteq> ConnectEstablishedTask obj" by auto
      then show ?thesis using False i(7) [of m t] unfolding s'_def count_push by (simp add: due_def s1_def)
    qed
  qed
  with run conns show ?thesis by auto
qed

lemma close_ok:
  assumes inv: "sv_inv ph s" and c: "sv_conns s c = Some k" and st: "sc_state k = kConnected \<or> sc_state k = kDisconnecting"
  shows "sv_inv (ph(c := Closing)) (RemoveConnection c (s\<lparr>sv_conns := (sv_conns s)(c \<mapsto> k\<lparr>sc_state := kDisconnected\<rparr>)\<rparr>))"
    (is "sv_inv _ ?s")
proof (rule sv_inv_move [OF inv c, of "k\<lparr>sc_state := kDisconnected\<rparr>"])
  have up: "ph c = Up" using sv_invD(3) [OF inv c] st by (cases "ph c") auto
  show "sv_connections ?s = (sv_connections s)(sc_name k := if listed Closing then Some c else None)"
    using listed_connection [OF inv c] up by (simp add: RemoveConnection_def listed_def fun_upd_idem)
  show "count_list (sv_queues ?s l) t =
      (if task_conn t = c then of_bool (due_at (sv_loop s) k Closing l t) else count_list (sv_queues s l) t)" for l t
  proof (cases "task_conn t = c")
    case True
    have "count_list (sv_queues s l) t = 0" using count_own [OF inv c True, of l] due_at_iff [OF True, of _ _ Up] up by simp
    then show ?thesis using True due_at_iff [OF True, of "sv_loop s" k Closing l] by (auto simp: RemoveConnection_def count_push)
  next
    case False
    then have "t \<noteq> RemoveConnectionInLoopTask c" by auto
    then show ?thesis using False by (simp add: RemoveConnection_def count_push)
  qed
qed (simp_all add: RemoveConnection_def)

lemma shutdown_ok:
  assumes inv: "sv_inv ph s" and c: "sv_conns s c = Some k" and st: "sc_state k = kConnected"
  shows "sv_inv (ph(c := Up)) (s\<lparr>sv_conns := (sv_conns s)(c \<mapsto> k\<lparr>sc_state := kDisconnecting\<rparr>)\<rparr>)"
proof (rule sv_inv_move [OF inv c, of "k\<lparr>sc_state := kDisconnecting\<rparr>"])
  have up: "ph c = Up" using sv_invD(3) [OF inv c] st by (cases "ph c") auto
  show "sv_connections (s\<lparr>sv_conns := (sv_conns s)(c \<mapsto> k\<lparr>sc_state := kDisconnecting\<rparr>)\<rparr>) =
      (sv_connections s)(sc_name k := if listed Up then Some c else None)"
    using listed_connection [OF inv c] up by (simp add: listed_def fun_upd_idem)
  show "count_list (sv_queues (s\<lparr>sv_conns := (sv_conns s)(c \<mapsto> k\<lparr>sc_state := kDisconnecting\<rparr>)\<rparr>) l) t =
      (if task_conn t = c then of_bool (due_at (sv_loop s) k Up l t) else count_list (sv_queues s l) t)" for l t
    using count_own [OF inv c, of t l] up by simp
qed simp_all

definition sv_good :: "server \<Rightarrow> bool" where
  "sv_good s \<longleftrightarrow> finite (dom (sv_conns s)) \<and> (\<exists>ph. sv_inv ph s)"

lemma server_step_good: "sv_good s \<Longrightarrow> server_step s s' \<Longrightarrow> sv_good s'"
proof -
  assume "sv_good s"
  then obtain ph where inv: "sv_inv ph s" and fin: "finite (dom (sv_conns s))" by (auto simp: sv_good_def)
  assume "server_step s s'"
  then show "sv_good s'"
  proof cases
    case (sv_accept obj)
    then show ?thesis using accept_ok [OF inv sv_accept(1,2,3)] fin by (auto simp: sv_good_def)
  next
    case (sv_task l t ts)
    then show ?thesis using run_task_ok [OF inv sv_task(1)] fin by (auto simp: sv_good_def)
  next
    case (sv_shutdown c k)
    then show ?thesis using shutdown_ok [OF inv sv_shutdown(2,3)] fin by (auto simp: sv_good_def)
  next
    case (sv_close c k)
    then show ?thesis using close_ok [OF inv sv_close(2,3)] fin by (auto simp: sv_good_def RemoveConnection_def)
  qed
qed

definition sv_busy :: "server \<Rightarrow> bool" where
  "sv_busy s \<longleftrightarrow> (\<exists>l. sv_queues s l \<noteq> [])"

interpretation servers: live_system server_step sv_good sv_busy
proof unfold_locales
  fix s
  assume "sv_good s" "sv_busy s"
  then obtain ph l t ts where "sv_inv ph s" "sv_queues s l = t # ts" by (auto simp: sv_good_def sv_busy_def neq_Nil_conv)
  then show "\<exists>s'. server_step s s'" using run_task_ok sv_task by blast
qed (rule server_step_good)

lemma started_server_good:
  assumes "Server_SetThreadNum n (new_TcpServer loop name) = Inr s" and "Server_Start StartLoop s = Inr s0"
  shows "sv_good s0" and "sv_loop s0 = loop"
proof -
  have s: "s = (new_TcpServer loop name)\<lparr>sv_thread_pool := new_EventLoopThreadPool loop n name\<rparr>"
    using assms(1) by (auto simp: Server_SetThreadNum_def SetThreadNum_def new_TcpServer_def new_EventLoopThreadPool_def)
  have p: "pool_ready (sv_thread_pool s0)" "sv_conns s0 = Map.empty" "sv_connections s0 = Map.empty" "sv_queues s0 = (\<lambda>_. [])"
      "sv_next_conn_id s0 = 0" "sv_loop s0 = loop"
    using assms(2) by (auto simp: s Server_Start_def new_TcpServer_def Pool_Start_def start_threads_fields
        new_EventLoopThreadPool_def pool_ready_def Let_def split: if_splits)
  then show "sv_loop s0 = loop" by simp
  have "sv_inv (\<lambda>_. Finished) s0" by (rule sv_invI) (use p in \<open>auto simp: due_def\<close>)
  then show "sv_good s0" using p(2) by (auto simp: sv_good_def)
qed

text \<open>Steps of the queues alone.\<close>

definition task_step :: "server \<Rightarrow> server \<Rightarrow> bool" where
  "task_step s s' \<longleftrightarrow> (\<exists>l t ts. sv_queues s l = t # ts
     \<and> run_server_task l t (s\<lparr>sv_queues := (sv_queues s)(l := ts)\<rparr>) = Inr s')"

lemma task_step_server_step: "task_step s s' \<Longrightarrow> server_step s s'"
  by (auto simp: task_step_def intro: sv_task)

lemma task_step_disconnected:
  assumes inv: "sv_inv ph s" and run: "run_server_task l t (s\<lparr>sv_queues := (sv_queues s)(l := ts)\<rparr>) = Inr s'"
    and q: "sv_queues s l = t # ts" and d: "sv_conns s d = Some k" "sc_state k = kDisconnected"
  shows "sv_conns s' d = Some k"
proof -
  obtain h where h: "sv_conns s (task_conn t) = Some h" "due_at (sv_loop s) h (ph (task_conn t)) l t"
    by (rule head_task_due [OF inv q])
  have "sc_state h = kConnecting" if "t = ConnectEstablishedTask c" for c
    using sv_invD(3) [OF inv h(1)] h(2) that by simp
  with run h(1) d show ?thesis
    by (cases t)
      (auto simp: RemoveConnectionInLoop_def run_ConnectDestroyed_def Let_def bindE_assertE split: if_splits option.splits)
qed

lemma drain_tasks:
  "sv_inv ph s \<Longrightarrow> finite (dom (sv_conns s)) \<Longrightarrow> \<exists>s' ph'. task_step\<^sup>*\<^sup>* s s' \<and> sv_inv ph' s' \<and> \<not> sv_busy s'
     \<and> dom (sv_conns s') = dom (sv_conns s)
     \<and> (\<forall>c k. sv_conns s c = Some k \<and> sc_state k = kDisconnected \<longrightarrow> sv_conns s' c = Some k)"
proof (induction "\<Sum>c \<in> dom (sv_conns s). tasks_left (ph c)" arbitrary: s ph rule: less_induct)
  case less
  show ?case
  proof (cases "sv_busy s")
    case False
    then show ?thesis using less.prems by blast
  next
    case True
    then obtain l t ts where q: "sv_queues s l = t # ts" by (auto simp: sv_busy_def neq_Nil_conv)
    obtain s1 c p where s1: "run_server_task l t (s\<lparr>sv_queues := (sv_queues s)(l := ts)\<rparr>) = Inr s1" "sv_inv (ph(c := p)) s1"
        "tasks_left p < tasks_left (ph c)" "c \<in> dom (sv_conns s)" "dom (sv_conns s1) = dom (sv_conns s)"
      using run_task_ok [OF less.prems(1) q] by blast
    have "(\<Sum>d \<in> dom (sv_conns s1). tasks_left ((ph(c := p)) d)) < (\<Sum>d \<in> dom (sv_conns s). tasks_left (ph d))"
      unfolding s1(5) using s1(3,4) less.prems(2) by (intro sum_strict_mono_ex1) auto
    from less.hyps [OF this s1(2)] less.prems(2) s1(5)
    obtain s' ph' where s': "task_step\<^sup>*\<^sup>* s1 s'" "sv_inv ph' s'" "\<not> sv_busy s'" "dom (sv_conns s') = dom (sv_conns s)"
        "\<forall>c k. sv_conns s1 c = Some k \<and> sc_state k = kDisconnected \<longrightarrow> sv_conns s' c = Some k"
      by auto
    have "task_step s s1" using q s1(1) by (auto simp: task_step_def)
    then have "task_step\<^sup>*\<^sup>* s s'" using s'(1) by (rule converse_rtranclp_into_rtranclp)
    moreover have "sv_conns s' c = Some k" if "sv_conns s c = Some k" "sc_state k = kDisconnected" for c k
      using s'(5) that task_step_disconnected [OF less.prems(1) s1(1) q that] by blast
    ultimately show ?thesis using s'(2-4) by blast
  qed
qed

section \<open>Properties\<close>

text \<open>
  Property C2. The server's bookkeeping is right. From a started server, over any interleaving of
  accepts, closes, shutdowns and queued tasks of all loops: no queued task faults, in particular
  the assertion that a removed connection was in the map; a connection is established and
  destroyed on its own loop and removed on the server's; the map names distinct connections by
  their own names; and the next accept succeeds (fewer than \<open>2\<^sup>31\<close> connections so far).
\<close>

theorem server_bookkeeping:
  assumes "Server_SetThreadNum n (new_TcpServer loop name) = Inr s1" and "Server_Start StartLoop s1 = Inr s0"
    and "server_step\<^sup>*\<^sup>* s0 s"
  shows "(\<forall>l t ts. sv_queues s l = t # ts \<longrightarrow> (\<exists>s'. run_server_task l t (s\<lparr>sv_queues := (sv_queues s)(l := ts)\<rparr>) = Inr s'))
    \<and> (\<forall>l c. ConnectEstablishedTask c \<in> set (sv_queues s l) \<or> ConnectDestroyedTask c \<in> set (sv_queues s l) \<longrightarrow>
          (\<exists>k. sv_conns s c = Some k \<and> sc_loop k = l))
    \<and> (\<forall>l c. RemoveConnectionInLoopTask c \<in> set (sv_queues s l) \<longrightarrow> l = sv_loop s)
    \<and> (\<forall>m c. sv_connections s m = Some c \<longrightarrow> (\<exists>k. sv_conns s c = Some k \<and> sc_name k = m))
    \<and> (\<forall>obj. sv_started s \<and> sv_conns s obj = None \<and> sv_next_conn_id s < 2 ^ 31 - 1 \<longrightarrow> (\<exists>s'. NewConnectionCallback obj s = Inr s'))"
proof (intro conjI allI impI)
  have "sv_good s" by (rule servers.steps_inv [OF assms(3) started_server_good(1) [OF assms(1,2)]])
  then obtain ph where inv: "sv_inv ph s" by (auto simp: sv_good_def)
  have isdue: "due ph s l t" if "t \<in> set (sv_queues s l)" for l t
    using sv_invD(7) [OF inv, of l t] that by (cases "due ph s l t") (simp_all add: count_list_0_iff)
  show "\<exists>s'. run_server_task l t (s\<lparr>sv_queues := (sv_queues s)(l := ts)\<rparr>) = Inr s'" if "sv_queues s l = t # ts" for l t ts
    using run_task_ok [OF inv that] by blast
  show "\<exists>k. sv_conns s c = Some k \<and> sc_loop k = l"
    if "ConnectEstablishedTask c \<in> set (sv_queues s l) \<or> ConnectDestroyedTask c \<in> set (sv_queues s l)" for l c
    using that isdue [of "ConnectEstablishedTask c" l] isdue [of "ConnectDestroyedTask c" l] by (auto simp: due_def)
  show "l = sv_loop s" if "RemoveConnectionInLoopTask c \<in> set (sv_queues s l)" for l c
    using isdue [OF that] by (auto simp: due_def)
  show "\<exists>k. sv_conns s c = Some k \<and> sc_name k = m" if "sv_connections s m = Some c" for m c
    using that sv_invD(6) [OF inv] by blast
  show "\<exists>s'. NewConnectionCallback obj s = Inr s'"
    if "sv_started s \<and> sv_conns s obj = None \<and> sv_next_conn_id s < 2 ^ 31 - 1" for obj
    using accept_ok [OF inv] that by blast
qed

definition sample_server :: server where
  "sample_server = \<lparr>sv_loop = 1, sv_name = ''s'', sv_started = True, sv_next_conn_id = 0, sv_connections = Map.empty,
     sv_thread_pool = (new_EventLoopThreadPool 1 1 ''s'')\<lparr>tp_started := True, tp_loops := [2], tp_threads := [''s0'']\<rparr>,
     sv_init_callback = False, sv_conns = Map.empty, sv_queues = (\<lambda>_. [])\<rparr>"

lemma sample_server_started:
  "\<exists>s1. Server_SetThreadNum 1 (new_TcpServer 1 ''s'') = Inr s1 \<and> Server_Start (\<lambda>i. i + 2) s1 = Inr sample_server"
  by (simp add: Server_SetThreadNum_def SetThreadNum_def new_TcpServer_def new_EventLoopThreadPool_def Server_Start_def
      Pool_Start_def sample_server_def show_nat_0)

theorem server_bookkeeping_witness:
  "\<exists>s'. NewConnectionCallback 7 sample_server = Inr s'"
proof -
  obtain s1 where "Server_SetThreadNum 1 (new_TcpServer 1 ''s'') = Inr s1" "Server_Start (\<lambda>i. i + 2) s1 = Inr sample_server"
    using sample_server_started by blast
  from server_bookkeeping [OF this rtranclp.rtrancl_refl] show ?thesis by (simp add: sample_server_def)
qed

text \<open>
  Property C11. Closed connections go away: from every reachable state the queued tasks alone lead,
  without a fault, to a state with no task left, and there every connection is either up and in
  the server's map, or disconnected and in it no more; those closed before are among the latter.
\<close>

theorem closed_connections_removed:
  assumes "Server_SetThreadNum n (new_TcpServer loop name) = Inr s1" and "Server_Start StartLoop s1 = Inr s0"
    and "server_step\<^sup>*\<^sup>* s0 s"
  shows "\<exists>s'. task_step\<^sup>*\<^sup>* s s' \<and> (\<forall>l. sv_queues s' l = [])
    \<and> (\<forall>c k. sv_conns s' c = Some k \<longrightarrow>
          (if sc_state k = kDisconnected then sv_connections s' (sc_name k) = None
           else sc_state k \<noteq> kConnecting \<and> sv_connections s' (sc_name k) = Some c))
    \<and> (\<forall>c k. sv_conns s c = Some k \<and> sc_state k = kDisconnected \<longrightarrow> sv_conns s' c = Some k)"
proof -
  have "sv_good s" by (rule servers.steps_inv [OF assms(3) started_server_good(1) [OF assms(1,2)]])
  then obtain ph where inv: "sv_inv ph s" "finite (dom (sv_conns s))" by (auto simp: sv_good_def)
  obtain s' ph' where s': "task_step\<^sup>*\<^sup>* s s'" "sv_inv ph' s'" "\<not> sv_busy s'"
      "\<forall>c k. sv_conns s c = Some k \<and> sc_state k = kDisconnected \<longrightarrow> sv_conns s' c = Some k"
    using drain_tasks [OF inv] by blast
  have idle: "sv_queues s' l = []" for l using s'(3) by (simp add: sv_busy_def)
  have "if sc_state k = kDisconnected then sv_connections s' (sc_name k) = None
      else sc_state k \<noteq> kConnecting \<and> sv_connections s' (sc_name k) = Some c" if c: "sv_conns s' c = Some k" for c k
  proof -
    have none: "\<not> due_at (sv_loop s') k (ph' c) l t" if "task_conn t = c" for l t
      using count_own [OF s'(2) c that, of l] idle [of l] by (cases "due_at (sv_loop s') k (ph' c) l t") simp_all
    have "ph' c = Up \<or> ph' c = Finished"
      using none [of "ConnectEstablishedTask c" "sc_loop k"] none [of "RemoveConnectionInLoopTask c" "sv_loop s'"]
        none [of "ConnectDestroyedTask c" "sc_loop k"] by (cases "ph' c") auto
    then show ?thesis using sv_invD(3) [OF s'(2) c] listed_connection [OF s'(2) c] by (auto simp: listed_def)
  qed
  with s'(1,4) idle show ?thesis by blast
qed

definition closed_server :: server where
  "closed_server = sample_server\<lparr>sv_next_conn_id := 1, sv_connections := [''s#0'' \<mapsto> 7],
     sv_conns := [7 \<mapsto> \<lparr>sc_name = ''s#0'', sc_loop = 2, sc_state = kDisconnected\<rparr>],
     sv_queues := (\<lambda>_. [])(1 := [RemoveConnectionInLoopTask 7])\<rparr>"

lemma closed_server_reachable: "server_step\<^sup>*\<^sup>* sample_server closed_server"
proof -
  define k where "k = \<lparr>sc_name = ''s#0'', sc_loop = 2, sc_state = kConnecting\<rparr>"
  define a where "a = sample_server\<lparr>sv_next_conn_id := 1, sv_connections := [''s#0'' \<mapsto> 7],
     sv_conns := [7 \<mapsto> k], sv_queues := (\<lambda>_. [])(2 := [ConnectEstablishedTask 7])\<rparr>"
  define b where "b = a\<lparr>sv_conns := [7 \<mapsto> k\<lparr>sc_state := kConnected\<rparr>], sv_queues := (\<lambda>_. [])\<rparr>"
  have "server_step sample_server a"
    by (rule sv_accept [of _ 7])
      (simp_all add: sample_server_def a_def k_def NewConnectionCallback_def GetNextLoop_def new_EventLoopThreadPool_def
        conn_name_def next_id_def push_task_def show_int_def show_nat_0 Let_def)
  moreover have "server_step a b"
    by (rule sv_task [of a 2 "ConnectEstablishedTask 7" "[]"]) (simp_all add: a_def b_def sample_server_def fun_eq_iff)
  moreover have "server_step b closed_server"
    using sv_close [of b 7 "k\<lparr>sc_state := kConnected\<rparr>"]
    by (simp add: b_def a_def k_def closed_server_def sample_server_def RemoveConnection_def push_task_def)
  ultimately show ?thesis by (meson converse_rtranclp_into_rtranclp rtranclp.rtrancl_refl)
qed

theorem closed_connections_removed_witness:
  "\<exists>s'. task_step\<^sup>*\<^sup>* closed_server s' \<and> sv_connections s' ''s#0'' = None"
proof -
  obtain s1 where "Server_SetThreadNum 1 (new_TcpServer 1 ''s'') = Inr s1" "Server_Start (\<lambda>i. i + 2) s1 = Inr sample_server"
    using sample_server_started by blast
  from closed_connections_removed [OF this closed_server_reachable]
  obtain s' where "task_step\<^sup>*\<^sup>* closed_server s'"
      "\<forall>c k. sv_conns s' c = Some k \<longrightarrow> (if sc_state k = kDisconnected then sv_connections s' (sc_name k) = None
           else sc_state k \<noteq> kConnecting \<and> sv_connections s' (sc_name k) = Some c)"
      "\<forall>c k. sv_conns closed_server c = Some k \<and> sc_state k = kDisconnected \<longrightarrow> sv_conns s' c = Some k"
    by blast
  moreover have "sv_conns closed_server 7 = Some \<lparr>sc_name = ''s#0'', sc_loop = 2, sc_state = kDisconnected\<rparr>"
    by (simp add: closed_server_def)
  ultimately show ?thesis by (intro exI [of _ s']) fastforce
qed

text \<open>
  Remark. Destroying a server is not safe while a connection lives on another loop: the
  destructor runs \<open>ConnectDestroyed\<close> on its own thread, and off the connection's loop that aborts
  the process, with whatever state the connection is in.
\<close>

theorem ConnectDestroyed_off_thread_aborts:
  fixes s :: "('u, 'k) tcp_connection"
  assumes "p_chans s (tc_chan s) = Some ch" and "env_tid e \<noteq> p_loop_tid s"
    and "tc_connection_callback s = Some f" and "\<forall>s. call f s = Inr s"
  shows "ConnectDestroyed e call s = Inl Aborted"
proof -
  have off: "DisableAll (env_ctl e) (env_tid e) (tc_chan t) t = Inr (t\<lparr>p_chans := (p_chans t)(tc_chan t \<mapsto> clear_all h)\<rparr>)"
    if "p_chans t (tc_chan t) = Some h" "env_tid e \<noteq> p_loop_tid t" for t :: "('u, 'k) tcp_connection" and h
    using that by (simp add: DisableAll_def on_channel_def LoopUpdateChannel_def)
  have gone: "bindE (DisableAll (env_ctl e) (env_tid e) (tc_chan t) t) (\<lambda>s. Remove (env_ctl e) (env_tid e) (tc_chan s) s) = Inl Aborted"
    if "p_chans t (tc_chan t) = Some h" "env_tid e \<noteq> p_loop_tid t" for t :: "('u, 'k) tcp_connection" and h
    using that by (simp add: off Remove_def LoopRemoveChannel_def RemoveChannel_def AssertInLoopThread_def is_none_event_def clear_all_def)
  let ?t = "s\<lparr>tc_state := kDisconnected\<rparr>"
  have t: "p_chans ?t (tc_chan ?t) = Some ch" "env_tid e \<noteq> p_loop_tid ?t" using assms(1,2) by simp_all
  show ?thesis
  proof (cases "tc_state s = kConnected \<or> tc_state s = kDisconnecting")
    case True
    let ?u = "?t\<lparr>p_chans := (p_chans ?t)(tc_chan ?t \<mapsto> clear_all ch)\<rparr>"
    have "ConnectDestroyed e call s = bindE (DisableAll (env_ctl e) (env_tid e) (tc_chan ?u) ?u) (\<lambda>s. Remove (env_ctl e) (env_tid e) (tc_chan s) s)"
      using True off [OF t] assms(3,4) by (simp add: ConnectDestroyed_def call_must_def)
    also have "\<dots> = Inl Aborted" by (rule gone [of ?u "clear_all ch"]) (use t in simp_all)
    finally show ?thesis .
  next
    case False
    then show ?thesis using gone [OF assms(1,2)] by (simp add: ConnectDestroyed_def)
  qed
qed

theorem ConnectDestroyed_off_thread_aborts_witness:
  "ConnectDestroyed (sample_env\<lparr>env_tid := 2\<rparr>) (\<lambda>_. Inr) (sample_conn\<lparr>tc_connection_callback := Some ()\<rparr>) = Inl Aborted"
proof -
  obtain ch where "p_chans sample_conn (tc_chan sample_conn) = Some ch" using tc_inv_chan [OF sample_conn_inv] by blast
  then show ?thesis by (intro ConnectDestroyed_off_thread_aborts [where f = "()" and ch = ch]) (simp_all add: sample_conn_def)
qed

end
