(* ===== verification/Reactor.thy ===== *)
theory Reactor
  imports EventLoop EpollPoller
begin

unbundle bit_operations_syntax

text \<open>
  The event loop assembled from its parts: the constructor and destructor of \<open>EventLoop\<close>
  (\<open>src/EventLoop.cc\<close>) and of \<open>TimerQueue\<close> (\<open>src/TimerQueue.cc\<close>), which register the wake-up and
  the timer descriptor with the poller, and one whole iteration of \<open>Loop\<close>: \<open>Poll\<close>, \<open>HandleEvent\<close> on
  every active channel, \<open>DoPendingFunctors\<close>. The record extends the timer queue's, so that timer
  callbacks act on the whole loop; the task queue and the poller are fields. Interleaving inside
  an iteration is the subject of \<open>EventLoop\<close>; here other threads act between iterations.
\<close>

section \<open>State\<close>

datatype 'u loop_callback = WakeUpCallback | TimerCallback | UserCallback 'u

datatype 'f loop_task = TimerTask timer_task | UserTask 'f

text \<open>User code the loop calls: channel callbacks, queued tasks and timer callbacks.\<close>

datatype ('u, 'f, 'cb) user_code = OnEvent 'u | OnTask 'f | OnTimer 'cb

text \<open>\<open>rc_trace\<close> records the user code called, in order.\<close>

record ('u, 'f, 'cb, 'k) reactor = "'cb timer_queue" +
  rc_loop :: "'f loop_task event_loop"
  rc_poller :: "('u loop_callback, 'k) poller"
  rc_wakeup_channel :: nat
  rc_timer_channel :: nat
  rc_trace :: "('u, 'f, 'cb) user_code list"

type_synonym ('u, 'f, 'cb, 'k) reactor_op = "('u, 'f, 'cb, 'k) reactor \<Rightarrow> ('u, 'f, 'cb, 'k) reactor res"

text \<open>What an iteration takes from outside: system calls, the clock, and which tied objects live.\<close>

record 'k loop_env =
  le_ctl :: "'k epoll_ctl_fun"
  le_wait :: "'k epoll_wait_fun"
  le_now :: Timestamp
  le_now2 :: Timestamp
  le_alive :: "nat \<Rightarrow> bool"

abbreviation rc_tid :: "('u, 'f, 'cb, 'k) reactor \<Rightarrow> int" where
  "rc_tid s \<equiv> el_tid (rc_loop s)"

section \<open>Construction\<close>

text \<open>A channel of the loop itself: a descriptor with its read callback.\<close>

definition read_channel :: "int \<Rightarrow> 'u loop_callback \<Rightarrow> 'u loop_callback channel" where
  "read_channel fd cb = (new_Channel fd)\<lparr>ch_read_callback := Some cb\<rparr>"

text \<open>A failed \<open>timerfd_create\<close> is only logged.\<close>

definition CreateTimerFd :: "int \<Rightarrow> int" where
  "CreateTimerFd timerfd = timerfd"

definition construct_TimerQueue :: "'k epoll_ctl_fun \<Rightarrow> int \<Rightarrow> int \<Rightarrow> ('u, 'f, 'cb, 'k) reactor_op" where
  "construct_TimerQueue ctl me timerfd s =
     (let c = rc_timer_channel s;
          p = create_channel c (read_channel (CreateTimerFd timerfd) TimerCallback) (rc_poller s)
      in bindE (EnableReading ctl me c p) (\<lambda>p1. Inr (s\<lparr>rc_poller := p1\<rparr>)))"

text \<open>
  \<open>evtfd\<close>, \<open>epollfd\<close> and \<open>timerfd\<close> are what the system calls return, \<open>wc\<close> and \<open>tc\<close> the addresses of the
  two channels; the second result is \<open>t_loopInThisThread\<close> afterwards.
\<close>

definition construct_EventLoop :: "'k epoll_ctl_fun \<Rightarrow> int \<Rightarrow> int \<Rightarrow> int \<Rightarrow> int \<Rightarrow> 'k \<Rightarrow> nat \<Rightarrow> nat \<Rightarrow> bool \<Rightarrow>
    (('u, 'f, 'cb, 'k) reactor \<times> bool) res" where
  "construct_EventLoop ctl me evtfd epollfd timerfd k wc tc t_loop =
     bindE (new_EventLoop me evtfd t_loop) (\<lambda>(wakeup_fd, l, t_loop').
     bindE (new_EpollPoller epollfd me k) (\<lambda>p.
       let s = timer_queue.extend (new_TimerQueue me)
                 (reactor.fields l (create_channel wc (new_Channel wakeup_fd) p) wc tc [])
       in bindE (construct_TimerQueue ctl me timerfd s) (\<lambda>s1.
          bindE (on_channel wc (\<lambda>ch. ch\<lparr>ch_read_callback := Some WakeUpCallback\<rparr>) (rc_poller s1)) (\<lambda>p1.
          bindE (EnableReading ctl me wc p1) (\<lambda>p2.
            Inr (s1\<lparr>rc_poller := p2\<rparr>, t_loop'))))))"

section \<open>The interface\<close>

text \<open>The tasks an operation of the timer queue has queued go to the loop's queue.\<close>

definition post_tasks :: "int \<Rightarrow> ('u, 'f, 'cb, 'k) reactor \<Rightarrow> ('u, 'f, 'cb, 'k) reactor \<Rightarrow> ('u, 'f, 'cb, 'k) reactor" where
  "post_tasks me s s' = s'\<lparr>rc_loop := fold (QueueInLoop me)
     (map TimerTask (drop (length (tq_queued s)) (tq_queued s'))) (rc_loop s')\<rparr>"

text \<open>On the loop's thread \<open>AddTimer\<close> is one call; another thread hands the timer over and reads its number later.\<close>

definition loop_hand_over :: "int \<Rightarrow> Timestamp \<Rightarrow> nat \<Rightarrow> Timestamp \<Rightarrow> 'cb \<Rightarrow> double \<Rightarrow> ('u, 'f, 'cb, 'k) reactor_op" where
  "loop_hand_over me now a when' cb interval s =
     bindE (hand_over_timer me now a when' cb interval s) (\<lambda>s'. Inr (post_tasks me s s'))"

definition loop_AddTimer :: "int \<Rightarrow> Timestamp \<Rightarrow> nat \<Rightarrow> Timestamp \<Rightarrow> 'cb \<Rightarrow> double \<Rightarrow> ('u, 'f, 'cb, 'k) reactor \<Rightarrow>
    (timer_id \<times> ('u, 'f, 'cb, 'k) reactor) res" where
  "loop_AddTimer me now a when' cb interval s =
     bindE (AddTimer me now a when' cb interval s) (\<lambda>(i, s'). Inr (i, post_tasks me s s'))"

definition loop_CancelTimer :: "int \<Rightarrow> timer_id \<Rightarrow> ('u, 'f, 'cb, 'k) reactor \<Rightarrow> ('u, 'f, 'cb, 'k) reactor" where
  "loop_CancelTimer me i s = post_tasks me s (CancelTimer i s)"

definition loop_QueueInLoop :: "int \<Rightarrow> 'f \<Rightarrow> ('u, 'f, 'cb, 'k) reactor \<Rightarrow> ('u, 'f, 'cb, 'k) reactor" where
  "loop_QueueInLoop me f s = s\<lparr>rc_loop := QueueInLoop me (UserTask f) (rc_loop s)\<rparr>"

definition loop_Quit :: "int \<Rightarrow> ('u, 'f, 'cb, 'k) reactor \<Rightarrow> ('u, 'f, 'cb, 'k) reactor" where
  "loop_Quit me s = s\<lparr>rc_loop := Quit me (rc_loop s)\<rparr>"

section \<open>One iteration\<close>

definition run_user :: "(('u, 'f, 'cb) user_code \<Rightarrow> ('u, 'f, 'cb, 'k) reactor \<Rightarrow> ('u, 'f, 'cb, 'k) reactor) \<Rightarrow>
    ('u, 'f, 'cb) user_code \<Rightarrow> ('u, 'f, 'cb, 'k) reactor \<Rightarrow> ('u, 'f, 'cb, 'k) reactor" where
  "run_user call code s = call code (s\<lparr>rc_trace := rc_trace s @ [code]\<rparr>)"

fun loop_call :: "'k loop_env \<Rightarrow> (('u, 'f, 'cb) user_code \<Rightarrow> ('u, 'f, 'cb, 'k) reactor \<Rightarrow> ('u, 'f, 'cb, 'k) reactor) \<Rightarrow>
    'u loop_callback \<Rightarrow> ('u, 'f, 'cb, 'k) reactor_op" where
  "loop_call e call WakeUpCallback s = Inr (s\<lparr>rc_loop := WakeUpHandleRead (rc_loop s)\<rparr>)"
| "loop_call e call TimerCallback s = HandleRead (\<lambda>cb. run_user call (OnTimer cb)) (rc_tid s) (le_now e) (le_now2 e) s"
| "loop_call e call (UserCallback u) s = Inr (run_user call (OnEvent u) s)"

fun handle_active :: "'k loop_env \<Rightarrow> (('u, 'f, 'cb) user_code \<Rightarrow> ('u, 'f, 'cb, 'k) reactor \<Rightarrow> ('u, 'f, 'cb, 'k) reactor) \<Rightarrow>
    nat list \<Rightarrow> ('u, 'f, 'cb, 'k) reactor_op" where
  "handle_active e call [] s = Inr s"
| "handle_active e call (c # cs) s =
     (case p_chans (rc_poller s) c of
        None \<Rightarrow> Inl UseAfterFree
      | Some _ \<Rightarrow>
          bindE (HandleEvent (loop_call e call) (\<lambda>obj _. le_alive e obj) (\<lambda>s. the (p_chans (rc_poller s) c)) s)
            (handle_active e call cs))"

fun run_tasks :: "'k loop_env \<Rightarrow> (('u, 'f, 'cb) user_code \<Rightarrow> ('u, 'f, 'cb, 'k) reactor \<Rightarrow> ('u, 'f, 'cb, 'k) reactor) \<Rightarrow>
    'f loop_task list \<Rightarrow> ('u, 'f, 'cb, 'k) reactor_op" where
  "run_tasks e call [] s = Inr s"
| "run_tasks e call (TimerTask t # ts) s =
     bindE (run_task (rc_tid s) (le_now e) t (s\<lparr>tq_queued := tl (tq_queued s)\<rparr>)) (run_tasks e call ts)"
| "run_tasks e call (UserTask f # ts) s = run_tasks e call ts (run_user call (OnTask f) s)"

definition loop_DoPendingFunctors :: "'k loop_env \<Rightarrow>
    (('u, 'f, 'cb) user_code \<Rightarrow> ('u, 'f, 'cb, 'k) reactor \<Rightarrow> ('u, 'f, 'cb, 'k) reactor) \<Rightarrow> ('u, 'f, 'cb, 'k) reactor_op" where
  "loop_DoPendingFunctors e call s =
     (let l = rc_loop s;
          funtors = el_pending l
      in bindE (run_tasks e call funtors (s\<lparr>rc_loop := l\<lparr>el_calling := True, el_pending := []\<rparr>\<rparr>))
           (\<lambda>s'. Inr (s'\<lparr>rc_loop := (rc_loop s')\<lparr>el_calling := False\<rparr>\<rparr>)))"

definition loop_iterate :: "'k loop_env \<Rightarrow>
    (('u, 'f, 'cb) user_code \<Rightarrow> ('u, 'f, 'cb, 'k) reactor \<Rightarrow> ('u, 'f, 'cb, 'k) reactor) \<Rightarrow> ('u, 'f, 'cb, 'k) reactor_op" where
  "loop_iterate e call s =
     bindE (Poll (le_wait e) 10000 (rc_poller s)) (\<lambda>(active, p).
     bindE (handle_active e call active (s\<lparr>rc_poller := p\<rparr>)) (loop_DoPendingFunctors e call))"

section \<open>Destruction\<close>

definition destruct_TimerQueue :: "'k epoll_ctl_fun \<Rightarrow> int \<Rightarrow> ('u, 'f, 'cb, 'k) reactor_op" where
  "destruct_TimerQueue ctl me s =
     (let c = rc_timer_channel s
      in bindE (DisableAll ctl me c (rc_poller s)) (\<lambda>p.
         bindE (Remove ctl me c p) (\<lambda>p1.
           Inr (destroy_TimerQueue (s\<lparr>rc_poller := destroy_channel c p1\<rparr>)))))"

text \<open>
  \<open>~EventLoop\<close> clears \<open>t_loopInThisThread\<close> and destroys the members in the reverse of the order of
  their declaration. \<open>dead\<close> are the members destroyed so far: a push to \<open>pending_functors_\<close> is defined
  while that vector exists. The destructor of \<open>timing_wheel_\<close> cancels its timer through the loop's
  queue; those of \<open>wakeup_channel_\<close> and \<open>poller_\<close> have no other effect here.
\<close>

datatype loop_member = wakeup_channel_member | poller_member | timer_queue_member | timing_wheel_member | activeChannels_member | pending_functors_member

definition loop_members :: "loop_member list" where
  "loop_members = [wakeup_channel_member, poller_member, timer_queue_member, timing_wheel_member, activeChannels_member, pending_functors_member]"

definition push_pending :: "loop_member list \<Rightarrow> int \<Rightarrow> 'f loop_task \<Rightarrow> ('u, 'f, 'cb, 'k) reactor_op" where
  "push_pending dead me task s =
     (if pending_functors_member \<in> set dead then Inl UseAfterFree else Inr (s\<lparr>rc_loop := QueueInLoop me task (rc_loop s)\<rparr>))"

fun destruct_member :: "'k epoll_ctl_fun \<Rightarrow> int \<Rightarrow> timer_id option \<Rightarrow> loop_member list \<Rightarrow> loop_member \<Rightarrow> ('u, 'f, 'cb, 'k) reactor_op" where
  "destruct_member ctl me timing_wheel dead wakeup_channel_member s =
     Inr (s\<lparr>rc_poller := destroy_channel (rc_wakeup_channel s) (rc_poller s)\<rparr>)"
| "destruct_member ctl me timing_wheel dead poller_member s = Inr s"
| "destruct_member ctl me timing_wheel dead timer_queue_member s = destruct_TimerQueue ctl me s"
| "destruct_member ctl me timing_wheel dead timing_wheel_member s =
     (case timing_wheel of None \<Rightarrow> Inr s | Some timer_id \<Rightarrow> push_pending dead me (TimerTask (CancelTask timer_id)) s)"
| "destruct_member ctl me timing_wheel dead activeChannels_member s = Inr s"
| "destruct_member ctl me timing_wheel dead pending_functors_member s = Inr (s\<lparr>rc_loop := (rc_loop s)\<lparr>el_pending := []\<rparr>\<rparr>)"

fun destruct_members :: "'k epoll_ctl_fun \<Rightarrow> int \<Rightarrow> timer_id option \<Rightarrow> loop_member list \<Rightarrow> loop_member list \<Rightarrow> ('u, 'f, 'cb, 'k) reactor_op" where
  "destruct_members ctl me timing_wheel dead [] s = Inr s"
| "destruct_members ctl me timing_wheel dead (m # ms) s =
     bindE (destruct_member ctl me timing_wheel dead m s) (destruct_members ctl me timing_wheel (m # dead) ms)"

definition destruct_EventLoop :: "'k epoll_ctl_fun \<Rightarrow> int \<Rightarrow> timer_id option \<Rightarrow> ('u, 'f, 'cb, 'k) reactor \<Rightarrow>
    (('u, 'f, 'cb, 'k) reactor \<times> bool) res" where
  "destruct_EventLoop ctl me timing_wheel s =
     bindE (destruct_members ctl me timing_wheel [] (rev loop_members) s) (\<lambda>s'. Inr (s', False))"

section \<open>What user code may do\<close>

text \<open>
  A call of the interface on the loop's own thread: timers, tasks, \<open>Quit\<close>, and the user's own
  channels. Tasks may also destroy a channel that is not registered, which \<open>TcpServer\<close> does with
  a closed connection; handlers of events do not.
\<close>

inductive api_call :: "'k epoll_ctl_fun \<Rightarrow> ('u, 'f, 'cb, 'k) reactor \<Rightarrow> ('u, 'f, 'cb, 'k) reactor \<Rightarrow> bool"
  for ctl where
  api_add: "tq_heap s a = None \<Longrightarrow> a < UINTPTR_MAX \<Longrightarrow>
     loop_AddTimer (rc_tid s) now a w cb interval s = Inr (i, s') \<Longrightarrow> api_call ctl s s'"
| api_cancel: "api_call ctl s (loop_CancelTimer (rc_tid s) i s)"
| api_queue: "api_call ctl s (loop_QueueInLoop (rc_tid s) f s)"
| api_quit: "api_call ctl s (loop_Quit (rc_tid s) s)"
| api_channel: "p_chans (rc_poller s) c = None \<Longrightarrow> ch_index ch = kNew \<Longrightarrow>
     (\<And>d dh. p_chans (rc_poller s) d = Some dh \<Longrightarrow> ch_fd dh \<noteq> ch_fd ch) \<Longrightarrow>
     api_call ctl s (s\<lparr>rc_poller := create_channel c ch (rc_poller s)\<rparr>)"
| api_setter: "c \<noteq> rc_wakeup_channel s \<Longrightarrow> c \<noteq> rc_timer_channel s \<Longrightarrow>
     run_setter ctl (rc_tid s) c op (rc_poller s) = Inr p \<Longrightarrow> api_call ctl s (s\<lparr>rc_poller := p\<rparr>)"
| api_remove: "c \<noteq> rc_wakeup_channel s \<Longrightarrow> c \<noteq> rc_timer_channel s \<Longrightarrow>
     Remove ctl (rc_tid s) c (rc_poller s) = Inr p \<Longrightarrow> api_call ctl s (s\<lparr>rc_poller := p\<rparr>)"

inductive task_call :: "'k epoll_ctl_fun \<Rightarrow> ('u, 'f, 'cb, 'k) reactor \<Rightarrow> ('u, 'f, 'cb, 'k) reactor \<Rightarrow> bool"
  for ctl where
  task_api: "api_call ctl s s' \<Longrightarrow> task_call ctl s s'"
| task_destroy: "c \<noteq> rc_wakeup_channel s \<Longrightarrow> c \<noteq> rc_timer_channel s \<Longrightarrow>
     p_chans (rc_poller s) c = Some ch \<Longrightarrow> ch_index ch \<noteq> kAdded \<Longrightarrow>
     task_call ctl s (s\<lparr>rc_poller := destroy_channel c (rc_poller s)\<rparr>)"

fun code_call :: "'k epoll_ctl_fun \<Rightarrow> ('u, 'f, 'cb) user_code \<Rightarrow> ('u, 'f, 'cb, 'k) reactor \<Rightarrow>
    ('u, 'f, 'cb, 'k) reactor \<Rightarrow> bool" where
  "code_call ctl (OnTask f) = task_call ctl"
| "code_call ctl (OnEvent u) = api_call ctl"
| "code_call ctl (OnTimer cb) = api_call ctl"

definition user_ok :: "'k epoll_ctl_fun \<Rightarrow>
    (('u, 'f, 'cb) user_code \<Rightarrow> ('u, 'f, 'cb, 'k) reactor \<Rightarrow> ('u, 'f, 'cb, 'k) reactor) \<Rightarrow> bool" where
  "user_ok ctl call \<longleftrightarrow> (\<forall>code s. (code_call ctl code)\<^sup>*\<^sup>* s (call code s))"

section \<open>Invariant of the loop around the timer queue\<close>

fun timer_tasks :: "'f loop_task list \<Rightarrow> timer_task list" where
  "timer_tasks [] = []"
| "timer_tasks (TimerTask t # ts) = t # timer_tasks ts"
| "timer_tasks (UserTask f # ts) = timer_tasks ts"

fun user_tasks :: "'f loop_task list \<Rightarrow> 'f list" where
  "user_tasks [] = []"
| "user_tasks (TimerTask t # ts) = user_tasks ts"
| "user_tasks (UserTask f # ts) = f # user_tasks ts"

lemma tasks_append [simp]:
  "timer_tasks (ts @ us) = timer_tasks ts @ timer_tasks us" "user_tasks (ts @ us) = user_tasks ts @ user_tasks us"
  by (induction ts rule: timer_tasks.induct) auto

lemma tasks_timer [simp]: "timer_tasks (map TimerTask ts) = ts" "user_tasks (map TimerTask ts) = []"
  by (induction ts) auto

lemma in_timer_tasks: "t \<in> set (timer_tasks ts) \<longleftrightarrow> TimerTask t \<in> set ts"
  by (induction ts rule: timer_tasks.induct) auto

text \<open>One of the loop's own two channels: registered, watching for input, with its callback only.\<close>

definition own_channel :: "('u, 'f, 'cb, 'k) reactor \<Rightarrow> nat \<Rightarrow> 'u loop_callback \<Rightarrow> bool" where
  "own_channel s c cb \<longleftrightarrow> (\<exists>ch. p_chans (rc_poller s) c = Some ch \<and> ch_index ch = kAdded
     \<and> ch_events ch = kReadEvent \<and> \<not> ch_tied ch \<and> ch_read_callback ch = Some cb
     \<and> ch_write_callback ch = None \<and> ch_error_callback ch = None \<and> ch_close_callback ch = None)"

text \<open>
  \<open>rest\<close> are the tasks taken by \<open>DoPendingFunctors\<close> and not yet run: the timer queue's own view of the
  tasks queued for it is the loop's. \<open>awake\<close> tells whether a pending task is known to have a
  wake-up: outside an iteration and while tasks run.
\<close>

definition lp_inv :: "('k \<Rightarrow> int \<rightharpoonup> epoll_event) \<Rightarrow> bool \<Rightarrow> bool \<Rightarrow> 'f loop_task list \<Rightarrow> ('u, 'f, 'cb, 'k) reactor \<Rightarrow> bool" where
  "lp_inv interest calling awake rest s \<longleftrightarrow> poller_inv interest (rc_poller s)
     \<and> p_loop_tid (rc_poller s) = rc_tid s \<and> tq_loop_tid s = rc_tid s
     \<and> rc_wakeup_channel s \<noteq> rc_timer_channel s
     \<and> own_channel s (rc_wakeup_channel s) WakeUpCallback \<and> own_channel s (rc_timer_channel s) TimerCallback
     \<and> tq_queued s = timer_tasks (rest @ el_pending (rc_loop s))
     \<and> el_calling (rc_loop s) = calling \<and> el_wakeup (rc_loop s) \<le> eventfd_max
     \<and> (awake \<and> el_pending (rc_loop s) \<noteq> [] \<longrightarrow> 0 < el_wakeup (rc_loop s))"

text \<open>It depends on nothing the timer queue's own work changes.\<close>

lemma outer_eqD:
  assumes "tq_outer s' = tq_outer s"
  shows "tq_loop_tid s' = tq_loop_tid s" "tq_queued s' = tq_queued s"
    "timer_queue.more s' = timer_queue.more s"
  using assms by (simp_all add: tq_outer_def)

lemma outer_reactor:
  assumes "tq_outer s' = tq_outer (s :: ('u, 'f, 'cb, 'k) reactor)"
  shows "rc_loop s' = rc_loop s" "rc_poller s' = rc_poller s" "rc_wakeup_channel s' = rc_wakeup_channel s"
    "rc_timer_channel s' = rc_timer_channel s" "rc_trace s' = rc_trace s"
  using outer_eqD(3) [OF assms] by (cases s; cases s'; simp)+

lemma lp_inv_outer:
  "tq_outer s' = tq_outer s \<Longrightarrow> lp_inv interest calling awake rest s' = lp_inv interest calling awake rest s"
  using outer_eqD [of s' s] outer_reactor [of s' s] by (simp add: lp_inv_def own_channel_def)

lemma QueueInLoop_loop [simp]:
  "el_tid (QueueInLoop me t l) = el_tid l" "el_calling (QueueInLoop me t l) = el_calling l"
  "el_pending (QueueInLoop me t l) = el_pending l @ [t]"
  by (simp_all add: QueueInLoop_def push_functor_def Let_def)

lemma QueueInLoop_wakeup:
  "el_wakeup l \<le> eventfd_max \<Longrightarrow> el_wakeup (QueueInLoop me t l) \<le> eventfd_max"
  "me \<noteq> el_tid l \<or> el_calling l \<Longrightarrow> 0 < el_wakeup (QueueInLoop me t l)"
  using WakeUp_max [of "push_functor t l"] WakeUp_pos [of "push_functor t l"]
  by (auto simp: QueueInLoop_def IsInLoopThread_def push_functor_def Let_def)

lemma WakeUp_grows [simp]: "el_wakeup l \<le> el_wakeup (WakeUp l)"
  by (simp add: WakeUp_def)

lemma QueueInLoop_grows [simp]: "el_wakeup l \<le> el_wakeup (QueueInLoop me t l)"
  using WakeUp_grows [of "push_functor t l"] by (simp add: QueueInLoop_def push_functor_def Let_def)

lemma Quit_grows [simp]: "el_wakeup l \<le> el_wakeup (Quit me l)"
  using WakeUp_grows [of "l\<lparr>el_quit := True\<rparr>"] by (simp add: Quit_def Let_def)

lemma Quit_loop [simp]:
  "el_tid (Quit me l) = el_tid l" "el_calling (Quit me l) = el_calling l" "el_pending (Quit me l) = el_pending l"
  by (simp_all add: Quit_def Let_def)

lemma fold_QueueInLoop_grows [simp]: "el_wakeup l \<le> el_wakeup (fold (QueueInLoop me) ts l)"
  by (induction ts arbitrary: l) (auto intro: order_trans [OF QueueInLoop_grows])

lemma fold_QueueInLoop [simp]:
  "el_tid (fold (QueueInLoop me) ts l) = el_tid l" "el_calling (fold (QueueInLoop me) ts l) = el_calling l"
  "el_pending (fold (QueueInLoop me) ts l) = el_pending l @ ts"
  by (induction ts arbitrary: l) simp_all

lemma fold_QueueInLoop_wakeup:
  "el_wakeup l \<le> eventfd_max \<Longrightarrow> el_wakeup (fold (QueueInLoop me) ts l) \<le> eventfd_max"
  "me \<noteq> el_tid l \<or> el_calling l \<Longrightarrow> ts \<noteq> [] \<Longrightarrow> 0 < el_wakeup (fold (QueueInLoop me) ts l)"
proof -
  show "el_wakeup l \<le> eventfd_max \<Longrightarrow> el_wakeup (fold (QueueInLoop me) ts l) \<le> eventfd_max"
    by (induction ts arbitrary: l) (simp_all add: QueueInLoop_wakeup(1))
  assume "me \<noteq> el_tid l \<or> el_calling l" and "ts \<noteq> []"
  moreover from this(2) obtain us t where "ts = us @ [t]" by (cases ts rule: rev_exhaust) auto
  ultimately show "0 < el_wakeup (fold (QueueInLoop me) ts l)"
    using QueueInLoop_wakeup(2) [of me "fold (QueueInLoop me) us l" t] by simp
qed

text \<open>Queueing tasks on the loop, by its own thread or another.\<close>

lemma post_tasks_inv:
  assumes inv: "lp_inv interest calling awake rest s" and aw: "awake \<longrightarrow> me \<noteq> rc_tid s \<or> calling"
    and q: "tq_loop_tid s' = tq_loop_tid s" "tq_queued s' = tq_queued s @ us"
      "timer_queue.more s' = timer_queue.more s"
  shows "lp_inv interest calling awake rest (post_tasks me s s')"
    and "el_pending (rc_loop (post_tasks me s s')) = el_pending (rc_loop s) @ map TimerTask us"
proof -
  have s': "rc_loop s' = rc_loop s" "rc_poller s' = rc_poller s" "rc_wakeup_channel s' = rc_wakeup_channel s"
    "rc_timer_channel s' = rc_timer_channel s"
    using q(3) by (cases s; cases s'; simp)+
  show "el_pending (rc_loop (post_tasks me s s')) = el_pending (rc_loop s) @ map TimerTask us"
    using q s' by (simp add: post_tasks_def)
  have "0 < el_wakeup (fold (QueueInLoop me) (map TimerTask us) (rc_loop s))"
    if "awake" "el_pending (rc_loop s) @ map TimerTask us \<noteq> []"
  proof (cases "us = []")
    case True
    with that inv show ?thesis by (simp add: lp_inv_def)
  next
    case False
    with that aw inv fold_QueueInLoop_wakeup(2) [of me "rc_loop s" "map TimerTask us"] show ?thesis
      by (auto simp: lp_inv_def)
  qed
  then show "lp_inv interest calling awake rest (post_tasks me s s')"
    using inv q s' fold_QueueInLoop_wakeup(1) [of "rc_loop s" me "map TimerTask us"]
    by (auto simp: lp_inv_def post_tasks_def own_channel_def)
qed

text \<open>What calls leave alone.\<close>

definition api_frame :: "('u, 'f, 'cb, 'k) reactor \<Rightarrow> ('u, 'f, 'cb, 'k) reactor \<Rightarrow> bool" where
  "api_frame s s' \<longleftrightarrow> rc_tid s' = rc_tid s \<and> rc_wakeup_channel s' = rc_wakeup_channel s
     \<and> rc_timer_channel s' = rc_timer_channel s \<and> rc_trace s' = rc_trace s
     \<and> (\<exists>ts. el_pending (rc_loop s') = el_pending (rc_loop s) @ ts)
     \<and> el_wakeup (rc_loop s) \<le> el_wakeup (rc_loop s')"

lemma api_frame_refl: "reflp api_frame"
  by (simp add: reflp_def api_frame_def)

lemma api_frame_trans: "transp api_frame"
  by (rule transpI) (auto simp: api_frame_def)

text \<open>A change of the poller that leaves the loop's own channels alone.\<close>

lemma lp_inv_poller:
  assumes "lp_inv interest calling awake rest s" and "poller_inv interest p" and "p_loop_tid p = p_loop_tid (rc_poller s)"
    and "p_chans p (rc_wakeup_channel s) = p_chans (rc_poller s) (rc_wakeup_channel s)"
    and "p_chans p (rc_timer_channel s) = p_chans (rc_poller s) (rc_timer_channel s)"
  shows "lp_inv interest calling awake rest (s\<lparr>rc_poller := p\<rparr>)"
  using assms by (simp add: lp_inv_def own_channel_def)

lemma run_setter_frame:
  assumes "epoll_ctl_spec ctl interest" and "poller_inv interest p" and "tid = p_loop_tid p"
    and "run_setter ctl tid c op p = Inr p'"
  shows "poller_inv interest p' \<and> p_loop_tid p' = p_loop_tid p \<and> dom (p_chans p') = dom (p_chans p)
    \<and> (\<forall>d. d \<noteq> c \<longrightarrow> p_chans p' d = p_chans p d)"
proof -
  have "p_chans p c \<noteq> None"
    using assms(4) unfolding run_setter_eq by (auto simp: on_channel_def split: option.splits)
  then obtain ch where ch: "p_chans p c = Some ch" by auto
  from run_setter_Inr [OF assms(1,2) ch assms(3), of op] assms(4) ch show ?thesis
    by (auto split: if_splits)
qed

lemma Remove_frame:
  assumes "epoll_ctl_spec ctl interest" and "poller_inv interest p" and "tid = p_loop_tid p"
    and "Remove ctl tid c p = Inr p'"
  shows "poller_inv interest p' \<and> p_loop_tid p' = p_loop_tid p \<and> dom (p_chans p') = dom (p_chans p)
    \<and> (\<forall>d. d \<noteq> c \<longrightarrow> p_chans p' d = p_chans p d)"
proof -
  obtain ch where ch: "p_chans p c = Some ch" "is_none_event ch"
    using assms(4) by (auto simp: Remove_def bindE_Inr_iff split: option.splits)
  from Remove_Inr [OF assms(1,2) ch(1) assms(3) ch(2)] assms(4) ch(1) show ?thesis
    by (auto split: if_splits)
qed

lemma hand_over_outer:
  assumes "hand_over_timer me now a w cb interval q = Inr q'"
  shows "\<exists>us. tq_loop_tid q' = tq_loop_tid q \<and> tq_queued q' = tq_queued q @ us
    \<and> timer_queue.more q' = timer_queue.more q
    \<and> us = (if me = tq_loop_tid q then [] else [AddTask w a])"
proof (cases "me = tq_loop_tid q")
  case True
  then have "tq_outer q' = tq_outer q"
    using assms by (auto simp: hand_over_timer_def Let_def dest: AddTimeInLoop_outer)
  with True show ?thesis using outer_eqD [of q' q] by simp
next
  case False
  then show ?thesis using assms by (auto simp: hand_over_timer_def Let_def)
qed

lemma AddTimer_outer:
  assumes "AddTimer me now a w cb interval q = Inr (i, q')"
  shows "\<exists>us. tq_loop_tid q' = tq_loop_tid q \<and> tq_queued q' = tq_queued q @ us
    \<and> timer_queue.more q' = timer_queue.more q
    \<and> us = (if me = tq_loop_tid q then [] else [AddTask w a])"
  by (rule hand_over_outer [OF AddTimer_hand_over [OF assms]])

lemma loop_AddTimer_hand_over: "loop_AddTimer me now a w cb interval s = Inr (i, s') \<Longrightarrow> loop_hand_over me now a w cb interval s = Inr s'"
  by (auto simp: loop_AddTimer_def loop_hand_over_def bindE_Inr_iff dest: AddTimer_hand_over)

lemma loop_QueueInLoop_inv:
  assumes inv: "lp_inv interest calling awake rest s" and aw: "awake \<longrightarrow> me \<noteq> rc_tid s \<or> calling"
  shows "lp_inv interest calling awake rest (loop_QueueInLoop me f s)"
  using assms QueueInLoop_wakeup(1) [of "rc_loop s" me "UserTask f"] QueueInLoop_wakeup(2) [of me "rc_loop s" "UserTask f"]
  by (auto simp: lp_inv_def loop_QueueInLoop_def own_channel_def)

lemma loop_Quit_inv: "lp_inv interest calling awake rest s \<Longrightarrow> lp_inv interest calling awake rest (loop_Quit me s)"
  using WakeUp_max [of "(rc_loop s)\<lparr>el_quit := True\<rparr>"] WakeUp_pos [of "(rc_loop s)\<lparr>el_quit := True\<rparr>"]
  by (auto simp: lp_inv_def loop_Quit_def Quit_def own_channel_def Let_def)

lemma loop_hand_over_inv:
  assumes "lp_inv interest calling awake rest s" and "awake \<longrightarrow> me \<noteq> rc_tid s \<or> calling"
    and "loop_hand_over me now a w cb interval s = Inr s'"
  shows "lp_inv interest calling awake rest s' \<and> api_frame s s'"
proof -
  obtain s1 where s1: "hand_over_timer me now a w cb interval s = Inr s1" "s' = post_tasks me s s1"
    using assms(3) by (auto simp: loop_hand_over_def bindE_Inr_iff)
  obtain us where us: "tq_loop_tid s1 = tq_loop_tid s" "tq_queued s1 = tq_queued s @ us"
      "timer_queue.more s1 = timer_queue.more s"
    using hand_over_outer [OF s1(1)] by blast
  have "rc_loop s1 = rc_loop s" "rc_wakeup_channel s1 = rc_wakeup_channel s"
      "rc_timer_channel s1 = rc_timer_channel s" "rc_trace s1 = rc_trace s"
    using us(3) by (cases s; cases s1; simp)+
  with post_tasks_inv [OF assms(1,2) us] show ?thesis
    unfolding s1(2) by (simp add: api_frame_def) (simp add: post_tasks_def)
qed

lemmas loop_AddTimer_inv = loop_hand_over_inv [OF _ _ loop_AddTimer_hand_over]

lemma loop_CancelTimer_inv:
  assumes "lp_inv interest calling awake rest s" and "awake \<longrightarrow> me \<noteq> rc_tid s \<or> calling"
  shows "lp_inv interest calling awake rest (loop_CancelTimer me i s) \<and> api_frame s (loop_CancelTimer me i s)"
proof -
  have "lp_inv interest calling awake rest (loop_CancelTimer me i s)"
    unfolding loop_CancelTimer_def by (rule post_tasks_inv(1) [OF assms, where us = "[CancelTask i]"]) (simp_all add: CancelTimer_def)
  then show ?thesis by (simp add: api_frame_def loop_CancelTimer_def post_tasks_def CancelTimer_def)
qed

text \<open>The parts of the state a call of user code keeps, and that it keeps the invariant.\<close>

lemma api_call_inv:
  assumes spec: "epoll_ctl_spec ctl interest" and inv: "lp_inv interest calling awake rest s" and aw: "awake \<longrightarrow> calling"
    and call: "api_call ctl s s'"
  shows "lp_inv interest calling awake rest s' \<and> api_frame s s' \<and> dom (p_chans (rc_poller s)) \<subseteq> dom (p_chans (rc_poller s'))"
  using call
proof cases
  case (api_add a now w cb interval i)
  have "rc_poller s' = rc_poller s"
  proof -
    obtain s1 where s1: "AddTimer (rc_tid s) now a w cb interval s = Inr (i, s1)" "s' = post_tasks (rc_tid s) s s1"
      using api_add(3) by (auto simp: loop_AddTimer_def bindE_Inr_iff)
    have "timer_queue.more s1 = timer_queue.more s" using AddTimer_outer [OF s1(1)] by blast
    then show ?thesis unfolding s1(2) by (cases s; cases s1; simp add: post_tasks_def)
  qed
  with loop_AddTimer_inv [OF inv _ api_add(3)] aw show ?thesis by simp
next
  case (api_cancel i)
  then show ?thesis using loop_CancelTimer_inv [OF inv, of "rc_tid s" i] aw
    by (simp add: loop_CancelTimer_def post_tasks_def CancelTimer_def)
next
  case (api_queue f)
  then show ?thesis using loop_QueueInLoop_inv [OF inv, of "rc_tid s" f] aw
    by (simp add: api_frame_def loop_QueueInLoop_def)
next
  case api_quit
  then show ?thesis using loop_Quit_inv [OF inv, of "rc_tid s"]
    by (simp add: api_frame_def loop_Quit_def)
next
  case (api_channel c ch)
  have "poller_inv interest (create_channel c ch (rc_poller s))"
    by (rule create_channel_inv [OF _ api_channel(2,3,4)]) (use inv in \<open>simp add: lp_inv_def\<close>)
  moreover have "c \<noteq> rc_wakeup_channel s" "c \<noteq> rc_timer_channel s"
    using inv api_channel(2) by (auto simp: lp_inv_def own_channel_def)
  ultimately show ?thesis using api_channel lp_inv_poller [OF inv, of "create_channel c ch (rc_poller s)"]
    by (auto simp: api_frame_def create_channel_def)
next
  case (api_setter c op p)
  then show ?thesis
    using run_setter_frame [OF spec _ _ api_setter(4)] inv lp_inv_poller [OF inv, of p]
    by (auto simp: lp_inv_def api_frame_def)
next
  case (api_remove c p)
  then show ?thesis
    using Remove_frame [OF spec _ _ api_remove(4)] inv lp_inv_poller [OF inv, of p]
    by (auto simp: lp_inv_def api_frame_def)
qed

lemma task_call_inv:
  assumes spec: "epoll_ctl_spec ctl interest" and inv: "lp_inv interest calling awake rest s" and aw: "awake \<longrightarrow> calling"
    and call: "task_call ctl s s'"
  shows "lp_inv interest calling awake rest s' \<and> api_frame s s'"
  using call
proof cases
  case task_api
  then show ?thesis using api_call_inv [OF spec inv aw] by blast
next
  case (task_destroy c ch)
  have "poller_inv interest (destroy_channel c (rc_poller s))"
    by (rule destroy_channel_inv [OF _ task_destroy(4,5)]) (use inv in \<open>simp add: lp_inv_def\<close>)
  then show ?thesis using task_destroy(1-3) lp_inv_poller [OF inv, of "destroy_channel c (rc_poller s)"]
    by (auto simp: api_frame_def destroy_channel_def)
qed

text \<open>Seen from the timer queue, all these are calls of its interface.\<close>

lemma tq_call_more:
  assumes "tq_loop_tid s' = tq_loop_tid s" "tq_timers s' = tq_timers s" "tq_active s' = tq_active s"
    "tq_calling s' = tq_calling s" "tq_cancelling s' = tq_cancelling s" "tq_heap s' = tq_heap s"
    "tq_num_created s' = tq_num_created s" "tq_timerfd s' = tq_timerfd s" "tq_queued s' = tq_queued s"
  shows "tq_call s s'"
proof -
  have "s' = timer_queue.more_update (\<lambda>_. timer_queue.more s') s"
    by (rule timer_queue.equality) (simp_all add: assms)
  then show ?thesis using call_other [of s "\<lambda>_. timer_queue.more s'"] by simp
qed

lemma tq_calls_post: "tq_call s s1 \<Longrightarrow> tq_call\<^sup>*\<^sup>* s (post_tasks me s0 s1)"
  by (rule rtranclp.rtrancl_into_rtrancl, erule r_into_rtranclp, rule tq_call_more) (simp_all add: post_tasks_def)

lemma api_call_timers: "api_call ctl s s' \<Longrightarrow> tq_call\<^sup>*\<^sup>* s s'"
proof (induction rule: api_call.induct)
  case (api_add s a now w cb interval i s')
  then obtain s1 where "AddTimer (rc_tid s) now a w cb interval s = Inr (i, s1)" "s' = post_tasks (rc_tid s) s s1"
    by (auto simp: loop_AddTimer_def bindE_Inr_iff)
  with tq_calls_post [OF call_AddTimer [OF api_add(1,2)]] show ?case by simp
next
  case (api_cancel s i)
  show ?case unfolding loop_CancelTimer_def by (rule tq_calls_post [OF call_cancel])
qed (auto intro!: r_into_rtranclp tq_call_more simp: loop_QueueInLoop_def loop_Quit_def)

lemma task_call_timers: "task_call ctl s s' \<Longrightarrow> tq_call\<^sup>*\<^sup>* s s'"
proof (induction rule: task_call.induct)
  case (task_api s s')
  then show ?case by (rule api_call_timers)
qed (auto intro!: r_into_rtranclp tq_call_more)

lemma code_calls_timers: "(code_call ctl code)\<^sup>*\<^sup>* s s' \<Longrightarrow> tq_call\<^sup>*\<^sup>* s s'"
proof (induction rule: rtranclp_induct)
  case (step s1 s2)
  then have "tq_call\<^sup>*\<^sup>* s1 s2" by (cases code) (auto intro: api_call_timers task_call_timers)
  with step.IH show ?case by (rule rtranclp_trans)
qed simp

text \<open>Any user code keeps the invariant; event handlers and timer callbacks destroy no channel.\<close>

definition user_inv :: "'k epoll_ctl_fun \<Rightarrow> ('k \<Rightarrow> int \<rightharpoonup> epoll_event) \<Rightarrow> bool \<Rightarrow> bool \<Rightarrow> 'f loop_task list \<Rightarrow>
    ('u, 'f, 'cb, 'k) reactor \<Rightarrow> bool" where
  "user_inv ctl interest calling awake rest s \<longleftrightarrow>
     epoll_ctl_spec ctl interest \<and> (awake \<longrightarrow> calling) \<and> lp_inv interest calling awake rest s"

interpretation apis: transition_system "api_call ctl" "user_inv ctl interest calling awake rest"
  by unfold_locales (unfold user_inv_def, use api_call_inv in blast)

interpretation tasks: transition_system "task_call ctl" "user_inv ctl interest calling awake rest"
  by unfold_locales (unfold user_inv_def, use task_call_inv in blast)

lemma code_call_task: "code_call ctl code s s' \<Longrightarrow> task_call ctl s s'"
  by (cases code) (auto intro: task_api)

lemma code_calls_inv:
  assumes "(code_call ctl code)\<^sup>*\<^sup>* s s'" and "user_inv ctl interest calling awake rest s"
  shows "user_inv ctl interest calling awake rest s' \<and> api_frame s s'"
proof -
  have steps: "(task_call ctl)\<^sup>*\<^sup>* s s'"
    by (rule rtranclp_mono [THEN predicate2D, OF _ assms(1)]) (auto intro: code_call_task)
  show ?thesis
    using tasks.steps_inv [OF steps assms(2)]
      tasks.steps_rel [OF steps assms(2) api_frame_refl api_frame_trans] task_call_inv
    unfolding user_inv_def by blast
qed

definition keeps_channels :: "('u, 'f, 'cb, 'k) reactor \<Rightarrow> ('u, 'f, 'cb, 'k) reactor \<Rightarrow> bool" where
  "keeps_channels s s' \<longleftrightarrow> dom (p_chans (rc_poller s)) \<subseteq> dom (p_chans (rc_poller s'))"

lemma api_calls_channels:
  assumes "(api_call ctl)\<^sup>*\<^sup>* s s'" and "user_inv ctl interest calling awake rest s"
  shows "keeps_channels s s'"
proof (rule apis.steps_rel [OF assms])
  show "keeps_channels u v" if "user_inv ctl interest calling awake rest u" "api_call ctl u v" for u v
    using that api_call_inv unfolding user_inv_def keeps_channels_def by blast
qed (auto simp: reflp_def transp_def keeps_channels_def)

lemma run_user_inv:
  assumes ok: "user_ok ctl call" and inv: "user_inv ctl interest calling awake rest s"
  shows "user_inv ctl interest calling awake rest (run_user call code s)"
    and "rc_trace (run_user call code s) = rc_trace s @ [code]"
    and "\<exists>ts. el_pending (rc_loop (run_user call code s)) = el_pending (rc_loop s) @ ts"
    and "(\<forall>f. code \<noteq> OnTask f) \<Longrightarrow> keeps_channels s (run_user call code s)"
    and "rc_tid (run_user call code s) = rc_tid s"
proof -
  let ?s = "s\<lparr>rc_trace := rc_trace s @ [code]\<rparr>"
  have steps: "(code_call ctl code)\<^sup>*\<^sup>* ?s (run_user call code s)"
    using ok by (simp add: user_ok_def run_user_def)
  have inv': "user_inv ctl interest calling awake rest ?s"
    using inv by (simp add: user_inv_def lp_inv_def own_channel_def)
  from code_calls_inv [OF steps inv'] show "user_inv ctl interest calling awake rest (run_user call code s)"
    "rc_trace (run_user call code s) = rc_trace s @ [code]"
    "\<exists>ts. el_pending (rc_loop (run_user call code s)) = el_pending (rc_loop s) @ ts"
    "rc_tid (run_user call code s) = rc_tid s"
    by (simp_all add: api_frame_def)
  show "keeps_channels s (run_user call code s)" if "\<forall>f. code \<noteq> OnTask f"
  proof -
    have "(api_call ctl)\<^sup>*\<^sup>* ?s (run_user call code s)" using steps that by (cases code) simp_all
    from api_calls_channels [OF this inv'] show ?thesis by (simp add: keeps_channels_def)
  qed
qed

section \<open>Event handlers\<close>

lemma user_inv_outer:
  assumes "tq_outer s' = tq_outer s"
  shows "user_inv ctl interest calling awake rest s' = user_inv ctl interest calling awake rest s"
  unfolding user_inv_def lp_inv_outer [OF assms] ..

lemma run_user_calls:
  assumes "user_ok ctl call"
  shows "tq_call\<^sup>*\<^sup>* s (run_user call code s)"
proof -
  let ?s = "s\<lparr>rc_trace := rc_trace s @ [code]\<rparr>"
  have "tq_call s ?s" by (rule tq_call_more) simp_all
  moreover have "(code_call ctl code)\<^sup>*\<^sup>* ?s (run_user call code s)"
    using assms unfolding user_ok_def run_user_def by blast
  from code_calls_timers [OF this] have "tq_call\<^sup>*\<^sup>* ?s (run_user call code s)" .
  ultimately show ?thesis by (rule converse_rtranclp_into_rtranclp)
qed

lemma run_user_calls_only: "user_ok ctl call \<Longrightarrow> calls_only (\<lambda>cb. run_user call (OnTimer cb))"
  unfolding calls_only_def using run_user_calls by blast

text \<open>What the handling of events does: no task is run, none is lost, and no channel destroyed.\<close>

definition handler_frame :: "('u, 'f, 'cb, 'k) reactor \<Rightarrow> ('u, 'f, 'cb, 'k) reactor \<Rightarrow> bool" where
  "handler_frame s s' \<longleftrightarrow> keeps_channels s s' \<and> rc_tid s' = rc_tid s
     \<and> (\<exists>evs. rc_trace s' = rc_trace s @ evs \<and> (\<forall>f. OnTask f \<notin> set evs))
     \<and> (\<exists>ts. el_pending (rc_loop s') = el_pending (rc_loop s) @ ts)"

lemma handler_frame_refl [simp]: "handler_frame s s"
  by (simp add: handler_frame_def keeps_channels_def)

lemma handler_frame_trans: "handler_frame s s1 \<Longrightarrow> handler_frame s1 s2 \<Longrightarrow> handler_frame s s2"
  unfolding handler_frame_def keeps_channels_def by (elim conjE exE) auto

lemma lp_tid: "user_inv ctl interest calling awake rest s \<Longrightarrow> tq_loop_tid s = rc_tid s"
  by (simp add: user_inv_def lp_inv_def)

lemma fold_timer_callbacks:
  assumes ok: "user_ok ctl call" and inv: "user_inv ctl interest calling awake rest s"
    and s': "s' = fold (\<lambda>cb. run_user call (OnTimer cb)) cbs s"
  shows "user_inv ctl interest calling awake rest s' \<and> rc_trace s' = rc_trace s @ map OnTimer cbs
    \<and> keeps_channels s s' \<and> (\<exists>ts. el_pending (rc_loop s') = el_pending (rc_loop s) @ ts)"
  using inv unfolding s'
proof (induction cbs arbitrary: s)
  case (Cons cb cbs)
  note run = run_user_inv [OF ok Cons.prems, of "OnTimer cb"]
  have keeps: "keeps_channels s (run_user call (OnTimer cb) s)" by (rule run(4)) simp
  obtain ts where "el_pending (rc_loop (run_user call (OnTimer cb) s)) = el_pending (rc_loop s) @ ts"
    using run(3) by blast
  with Cons.IH [OF run(1)] run(2) keeps show ?case by (auto simp: keeps_channels_def)
qed (simp add: keeps_channels_def)

text \<open>The loop's state while it handles events.\<close>

definition handling :: "'k epoll_ctl_fun \<Rightarrow> ('k \<Rightarrow> int \<rightharpoonup> epoll_event) \<Rightarrow> ('u, 'f, 'cb, 'k) reactor \<Rightarrow> bool" where
  "handling ctl interest s \<longleftrightarrow> user_inv ctl interest False False [] s \<and> tq_good (rc_tid s) s"

lemma tq_good_calls:
  assumes "tq_good tid q" and "tq_call\<^sup>*\<^sup>* q q'"
  shows "tq_good tid q'"
proof -
  have inv: "tq_inv {} q" "issued q" using assms(1) by (simp_all add: tq_good_def)
  have "tq_armed q \<longrightarrow> tq_armed q'"
    using assms(2) inv(1)
  proof (induction rule: rtranclp_induct)
    case (step q1 q2)
    then show ?case using tq_call_frame [OF tqc.steps_inv [OF step(1) step.prems] step(2)] by blast
  qed simp
  moreover have "issued q'" by (rule issued_step [OF inv(2) ids_step_calls [OF inv(1) assms(2)]])
  ultimately show ?thesis
    using assms(1) tq_calls_frame [OF inv(1) assms(2)] by (simp add: tq_good_def calls_frame_def)
qed

text \<open>The timer descriptor is readable: the expired callbacks run, in the order of their times.\<close>

lemma timer_callback_Inr:
  assumes ok: "user_ok ctl call" and h: "handling ctl interest s"
  shows "\<exists>s'. loop_call e call TimerCallback s = Inr s' \<and> handling ctl interest s'
    \<and> rc_trace s' = rc_trace s @ map OnTimer (callbacks_of s (expired_at (le_now e) s)) \<and> handler_frame s s'
    \<and> (\<exists>q. GetExpired (le_now e) s = Inr (expired_at (le_now e) s, q) \<and> rc_loop q = rc_loop s
         \<and> rc_loop s' = rc_loop (fold (\<lambda>cb. run_user call (OnTimer cb)) (callbacks_of s (expired_at (le_now e) s)) (q\<lparr>tq_calling := True\<rparr>)))"
proof -
  let ?cbs = "callbacks_of s (expired_at (le_now e) s)"
  note inv = h [unfolded handling_def, THEN conjunct1] and good = h [unfolded handling_def, THEN conjunct2]
  have "tq_inv {} s" "rc_tid s = tq_loop_tid s" using good by (simp_all add: tq_good_def)
  note hr = HandleRead_Inr [OF run_user_calls_only [OF ok] this, of "le_now e" "le_now2 e"]
  obtain q1 q2 s' where r: "GetExpired (le_now e) s = Inr (expired_at (le_now e) s, q1)"
      "q2 = fold (\<lambda>cb. run_user call (OnTimer cb)) ?cbs (q1\<lparr>tq_calling := True\<rparr>)"
      "HandleRead (\<lambda>cb. run_user call (OnTimer cb)) (rc_tid s) (le_now e) (le_now2 e) s =
         bindE (TimerQueue_Reset (rc_tid s) (le_now2 e) (expired_at (le_now e) s) (le_now e) q2)
         (\<lambda>q3. Inr (q3\<lparr>tq_calling := False\<rparr>))"
      "HandleRead (\<lambda>cb. run_user call (OnTimer cb)) (rc_tid s) (le_now e) (le_now2 e) s = Inr s'"
      "tq_inv {} s'" "tq_armed s'" "\<not> tq_calling s'" "tq_loop_tid s' = tq_loop_tid s"
    using hr by blast
  have o1: "tq_outer (q1\<lparr>tq_calling := True\<rparr>) = tq_outer s" using GetExpired_outer [OF r(1)] by simp
  have o2: "tq_outer s' = tq_outer q2" using r(3) [symmetric] TimerQueue_Reset_outer unfolding r(4) by (auto simp: bindE_Inr_iff)
  have inv1: "user_inv ctl interest False False [] (q1\<lparr>tq_calling := True\<rparr>)"
    using inv user_inv_outer [OF o1] by blast
  note f = fold_timer_callbacks [OF ok inv1 r(2)]
  have inv': "user_inv ctl interest False False [] s'" using f user_inv_outer [OF o2] by blast
  have tids: "rc_tid s' = rc_tid s" using lp_tid [OF inv'] lp_tid [OF inv] r(8) by simp
  have "issued s'"
    using issued_step [OF _ ids_step_HandleRead [OF run_user_calls_only [OF ok], of s "rc_tid s" "le_now e" "le_now2 e" s']]
      good r(4) by (simp add: tq_good_def)
  then have "tq_good (rc_tid s') s'" using r(5-8) good tids by (simp add: tq_good_def)
  moreover have "rc_trace s' = rc_trace s @ map OnTimer ?cbs"
    using f outer_reactor [OF o1] outer_reactor [OF o2] by simp
  moreover have "handler_frame s s'"
    using f outer_reactor [OF o1] outer_reactor [OF o2] tids by (auto simp: handler_frame_def keeps_channels_def)
  moreover have "rc_loop q1 = rc_loop s" "rc_loop s' = rc_loop (fold (\<lambda>cb. run_user call (OnTimer cb)) ?cbs (q1\<lparr>tq_calling := True\<rparr>))"
    using outer_reactor(1) [OF o1] outer_reactor(1) [OF o2] unfolding r(2) by simp_all
  ultimately show ?thesis using inv' r(1,4) by (intro exI [of _ s']) (simp add: handling_def)
qed

lemma loop_call_Inr:
  assumes ok: "user_ok ctl call" and h: "handling ctl interest s"
  shows "\<exists>s'. loop_call e call cb s = Inr s' \<and> handling ctl interest s' \<and> handler_frame s s'"
proof (cases cb)
  case WakeUpCallback
  let ?s = "s\<lparr>rc_loop := WakeUpHandleRead (rc_loop s)\<rparr>"
  have "user_inv ctl interest False False [] ?s"
    using h by (simp add: handling_def user_inv_def lp_inv_def own_channel_def WakeUpHandleRead_def)
  moreover have "tq_call s ?s" by (rule tq_call_more) simp_all
  then have "tq_good (rc_tid s) ?s" using h tq_good_calls [of "rc_tid s" s ?s, OF _ r_into_rtranclp] by (simp add: handling_def)
  ultimately show ?thesis
    using WakeUpCallback by (simp add: handling_def handler_frame_def keeps_channels_def WakeUpHandleRead_def)
next
  case TimerCallback
  then show ?thesis using timer_callback_Inr [OF ok h, of e] by auto
next
  case (UserCallback u)
  let ?s = "run_user call (OnEvent u) s"
  have inv: "user_inv ctl interest False False [] s" and good: "tq_good (rc_tid s) s"
    using h by (simp_all add: handling_def)
  note run = run_user_inv [OF ok inv, of "OnEvent u"]
  have "keeps_channels s ?s" by (rule run(4)) simp
  with run tq_good_calls [OF good run_user_calls [OF ok, of s "OnEvent u"]] show ?thesis
    unfolding UserCallback by (simp add: handling_def handler_frame_def)
qed

lemma handle_active_Inr:
  assumes ok: "user_ok ctl call" and "handling ctl interest s" and "set cs \<subseteq> dom (p_chans (rc_poller s))"
  shows "\<exists>s'. handle_active e call cs s = Inr s' \<and> handling ctl interest s' \<and> handler_frame s s'"
  using assms(2,3)
proof (induction cs arbitrary: s)
  case (Cons c cs)
  let ?P = "\<lambda>s'. handling ctl interest s' \<and> handler_frame s s'"
  obtain ch where ch: "p_chans (rc_poller s) c = Some ch" using Cons.prems(2) by auto
  have step: "\<exists>s2. loop_call e call cb s1 = Inr s2 \<and> ?P s2" if P: "?P s1" for cb s1
  proof -
    obtain s2 where "loop_call e call cb s1 = Inr s2" "handling ctl interest s2" "handler_frame s1 s2"
      using loop_call_Inr [OF ok, of interest s1 e cb] P by blast
    then show ?thesis using P handler_frame_trans [of s s1 s2] by blast
  qed
  obtain s1 where s1: "HandleEvent (loop_call e call) (\<lambda>obj _. le_alive e obj) (\<lambda>s. the (p_chans (rc_poller s) c)) s = Inr s1"
      "handling ctl interest s1" "handler_frame s s1"
    using HandleEvent_keeps [of ?P "loop_call e call" s, OF step] Cons.prems(1) by auto
  have "dom (p_chans (rc_poller s)) \<subseteq> dom (p_chans (rc_poller s1))"
    using s1(3) by (simp add: handler_frame_def keeps_channels_def)
  then have "set cs \<subseteq> dom (p_chans (rc_poller s1))"
    by (rule order_trans [rotated]) (use Cons.prems(2) in simp)
  from Cons.IH [OF s1(2) this] s1 ch show ?case by (auto intro: handler_frame_trans)
qed simp

section \<open>Tasks\<close>

definition tasking :: "'k epoll_ctl_fun \<Rightarrow> ('k \<Rightarrow> int \<rightharpoonup> epoll_event) \<Rightarrow> 'f loop_task list \<Rightarrow>
    ('u, 'f, 'cb, 'k) reactor \<Rightarrow> bool" where
  "tasking ctl interest rest s \<longleftrightarrow> user_inv ctl interest True True rest s \<and> tq_good (rc_tid s) s"

lemma timer_task_Inr:
  assumes h: "tasking ctl interest (TimerTask t # ts) s"
  shows "\<exists>s'. run_task (rc_tid s) now t (s\<lparr>tq_queued := tl (tq_queued s)\<rparr>) = Inr s' \<and> tasking ctl interest ts s'
    \<and> run_queued (rc_tid s) now s = Inr s' \<and> tq_outer s' = tq_outer (s\<lparr>tq_queued := tl (tq_queued s)\<rparr>)"
proof -
  let ?s = "s\<lparr>tq_queued := tl (tq_queued s)\<rparr>"
  have inv: "user_inv ctl interest True True (TimerTask t # ts) s" and good: "tq_good (rc_tid s) s"
    using h by (simp_all add: tasking_def)
  have q: "tq_queued s = t # timer_tasks (ts @ el_pending (rc_loop s))"
    using inv by (simp add: user_inv_def lp_inv_def)
  obtain s' where s': "run_queued (rc_tid s) now s = Inr s'" "tq_good (rc_tid s) s'"
    using run_queued_Inr [OF good, of now] by blast
  have run: "run_task (rc_tid s) now t ?s = Inr s'" using s'(1) q by (simp add: run_queued_def)
  note o = run_task_outer [OF run]
  have "user_inv ctl interest True True ts ?s" using inv q by (simp add: user_inv_def lp_inv_def own_channel_def)
  then have "user_inv ctl interest True True ts s'" using user_inv_outer [OF o] by blast
  moreover have "rc_tid s' = rc_tid s" using outer_reactor(1) [OF o] by simp
  ultimately show ?thesis using run s' o by (simp add: tasking_def)
qed

lemma user_task_step:
  assumes ok: "user_ok ctl call" and h: "tasking ctl interest (UserTask f # ts) s"
  shows "tasking ctl interest ts (run_user call (OnTask f) s)"
proof -
  have inv: "user_inv ctl interest True True ts s" and good: "tq_good (rc_tid s) s"
    using h by (simp_all add: tasking_def user_inv_def lp_inv_def)
  show ?thesis
    using run_user_inv [OF ok inv, of "OnTask f"] tq_good_calls [OF good run_user_calls [OF ok, of s "OnTask f"]]
    by (simp add: tasking_def)
qed

lemma run_tasks_Inr:
  assumes ok: "user_ok ctl call" and "tasking ctl interest ts s"
  shows "\<exists>s'. run_tasks e call ts s = Inr s' \<and> tasking ctl interest [] s' \<and> rc_tid s' = rc_tid s
    \<and> rc_trace s' = rc_trace s @ map OnTask (user_tasks ts)"
  using assms(2)
proof (induction ts arbitrary: s)
  case (Cons t ts)
  show ?case
  proof (cases t)
    case (TimerTask x)
    obtain s1 where s1: "run_task (rc_tid s) (le_now e) x (s\<lparr>tq_queued := tl (tq_queued s)\<rparr>) = Inr s1"
        "tasking ctl interest ts s1" "tq_outer s1 = tq_outer (s\<lparr>tq_queued := tl (tq_queued s)\<rparr>)"
      using timer_task_Inr [of ctl interest x ts s "le_now e"] Cons.prems TimerTask by blast
    with Cons.IH [OF s1(2)] outer_reactor [OF s1(3)] show ?thesis by (simp add: TimerTask)
  next
    case (UserTask f)
    have h: "tasking ctl interest (UserTask f # ts) s" using Cons.prems UserTask by simp
    have inv: "user_inv ctl interest True True ts s" using h by (simp add: tasking_def user_inv_def lp_inv_def)
    show ?thesis
      using Cons.IH [OF user_task_step [OF ok h]] run_user_inv [OF ok inv, of "OnTask f"] by (simp add: UserTask)
  qed
qed simp

section \<open>Iterations\<close>

text \<open>Between iterations every pending task has its wake-up.\<close>

definition rc_good :: "'k epoll_ctl_fun \<Rightarrow> ('k \<Rightarrow> int \<rightharpoonup> epoll_event) \<Rightarrow> ('u, 'f, 'cb, 'k) reactor \<Rightarrow> bool" where
  "rc_good ctl interest s \<longleftrightarrow> epoll_ctl_spec ctl interest \<and> lp_inv interest False True [] s \<and> tq_good (rc_tid s) s"

definition loop_env_ok :: "'k epoll_ctl_fun \<Rightarrow> ('k \<Rightarrow> int \<rightharpoonup> epoll_event) \<Rightarrow> 'k loop_env \<Rightarrow> bool" where
  "loop_env_ok ctl interest e \<longleftrightarrow> le_ctl e = ctl \<and> epoll_wait_spec (le_wait e) interest"

text \<open>A failed \<open>epoll_wait\<close>, an interrupted one included, aborts the process.\<close>

lemma iterate_WaitErr:
  assumes "le_wait e (p_kernel (rc_poller s)) (p_events_size (rc_poller s)) 10000 = WaitErr err"
  shows "loop_iterate e call s = Inl Aborted"
  using assms by (simp add: loop_iterate_def Poll_def)

lemma tq_good_more:
  "tq_good tid (s\<lparr>rc_loop := l\<rparr>) = tq_good tid s" "tq_good tid (s\<lparr>rc_poller := p\<rparr>) = tq_good tid s"
  by (simp_all add: tq_good_def tq_inv_def tq_armed_def issued_def)

text \<open>After \<open>Poll\<close>: the reported events are in their channels, which are all alive.\<close>

lemma Poll_handling:
  assumes env: "loop_env_ok ctl interest e" and good: "rc_good ctl interest s"
    and evs: "le_wait e (p_kernel (rc_poller s)) (p_events_size (rc_poller s)) 10000 = WaitEvents evs"
  shows "\<exists>p. Poll (le_wait e) 10000 (rc_poller s) = Inr (map snd evs, p) \<and> handling ctl interest (s\<lparr>rc_poller := p\<rparr>)
    \<and> set (map snd evs) \<subseteq> dom (p_chans p)
    \<and> (\<forall>c. p_chans p c = map_option (with_revents evs c) (p_chans (rc_poller s) c))"
proof -
  have "poller_inv interest (rc_poller s)" "epoll_wait_spec (le_wait e) interest"
    using good env by (simp_all add: rc_good_def lp_inv_def loop_env_ok_def)
  from Poll_Inr [OF this(2,1) evs]
  obtain p where p: "Poll (le_wait e) 10000 (rc_poller s) = Inr (map snd evs, p)" "poller_inv interest p"
      "p_loop_tid p = p_loop_tid (rc_poller s)" "set (map snd evs) \<subseteq> dom (p_chans p)"
      "\<forall>c. p_chans p c = map_option (with_revents evs c) (p_chans (rc_poller s) c)"
    by (auto simp: subset_iff)
  have "own_channel (s\<lparr>rc_poller := p\<rparr>) c cb" if "own_channel s c cb" for c cb
    using that p(5) by (auto simp: own_channel_def)
  then have "handling ctl interest (s\<lparr>rc_poller := p\<rparr>)"
    using good p(2,3) by (simp add: rc_good_def handling_def user_inv_def lp_inv_def tq_good_more)
  with p show ?thesis by blast
qed

lemma handling_tasking:
  "handling ctl interest s \<Longrightarrow>
   tasking ctl interest (el_pending (rc_loop s)) (s\<lparr>rc_loop := (rc_loop s)\<lparr>el_calling := True, el_pending := []\<rparr>\<rparr>)"
  by (simp add: handling_def tasking_def user_inv_def lp_inv_def own_channel_def tq_good_more)

lemma DoPendingFunctors_Inr:
  assumes ok: "user_ok ctl call" and h: "handling ctl interest s"
  shows "\<exists>s1 s'. loop_DoPendingFunctors e call s = Inr s' \<and> rc_good ctl interest s' \<and> rc_tid s' = rc_tid s
    \<and> rc_trace s' = rc_trace s @ map OnTask (user_tasks (el_pending (rc_loop s)))
    \<and> run_tasks e call (el_pending (rc_loop s)) (s\<lparr>rc_loop := (rc_loop s)\<lparr>el_calling := True, el_pending := []\<rparr>\<rparr>) = Inr s1
    \<and> s' = s1\<lparr>rc_loop := (rc_loop s1)\<lparr>el_calling := False\<rparr>\<rparr>"
proof -
  let ?s = "s\<lparr>rc_loop := (rc_loop s)\<lparr>el_calling := True, el_pending := []\<rparr>\<rparr>"
  from run_tasks_Inr [OF ok handling_tasking [OF h], of e]
  obtain s1 where s1: "run_tasks e call (el_pending (rc_loop s)) ?s = Inr s1" "tasking ctl interest [] s1"
      "rc_tid s1 = rc_tid s" "rc_trace s1 = rc_trace s @ map OnTask (user_tasks (el_pending (rc_loop s)))"
    by auto
  then have "rc_good ctl interest (s1\<lparr>rc_loop := (rc_loop s1)\<lparr>el_calling := False\<rparr>\<rparr>)"
    by (simp add: rc_good_def tasking_def user_inv_def lp_inv_def own_channel_def tq_good_more)
  with s1 show ?thesis by (simp add: loop_DoPendingFunctors_def Let_def)
qed

lemma iterate_Inr:
  assumes ok: "user_ok ctl call" and env: "loop_env_ok ctl interest e" and good: "rc_good ctl interest s"
    and evs: "le_wait e (p_kernel (rc_poller s)) (p_events_size (rc_poller s)) 10000 = WaitEvents evs"
  shows "\<exists>p s1 s'. loop_iterate e call s = Inr s' \<and> rc_good ctl interest s'
    \<and> Poll (le_wait e) 10000 (rc_poller s) = Inr (map snd evs, p)
    \<and> handle_active e call (map snd evs) (s\<lparr>rc_poller := p\<rparr>) = Inr s1 \<and> handling ctl interest s1
    \<and> handler_frame (s\<lparr>rc_poller := p\<rparr>) s1 \<and> loop_DoPendingFunctors e call s1 = Inr s'
    \<and> rc_trace s' = rc_trace s1 @ map OnTask (user_tasks (el_pending (rc_loop s1)))"
proof -
  obtain p where p: "Poll (le_wait e) 10000 (rc_poller s) = Inr (map snd evs, p)"
      "handling ctl interest (s\<lparr>rc_poller := p\<rparr>)" "set (map snd evs) \<subseteq> dom (p_chans p)"
    using Poll_handling [OF env good evs] by blast
  obtain s1 where s1: "handle_active e call (map snd evs) (s\<lparr>rc_poller := p\<rparr>) = Inr s1" "handling ctl interest s1"
      "handler_frame (s\<lparr>rc_poller := p\<rparr>) s1"
    using handle_active_Inr [OF ok p(2), of "map snd evs" e] p(3) by auto
  obtain s' where s': "loop_DoPendingFunctors e call s1 = Inr s'" "rc_good ctl interest s'"
      "rc_trace s' = rc_trace s1 @ map OnTask (user_tasks (el_pending (rc_loop s1)))"
    using DoPendingFunctors_Inr [OF ok s1(2), of e] by blast
  show ?thesis using p(1) s1 s' by (simp add: loop_iterate_def)
qed

section \<open>The running loop and other threads\<close>

text \<open>
  Between iterations other threads call the interface, and so may the loop's own thread before
  \<open>Loop\<close>, as long as it queues no task. \<open>AddTimer\<close> off the loop's thread is its hand-over; the
  sequence number the calling thread reads afterwards does not change the state.
\<close>

inductive reactor_step :: "'k epoll_ctl_fun \<Rightarrow> ('k \<Rightarrow> int \<rightharpoonup> epoll_event) \<Rightarrow>
    (('u, 'f, 'cb) user_code \<Rightarrow> ('u, 'f, 'cb, 'k) reactor \<Rightarrow> ('u, 'f, 'cb, 'k) reactor) \<Rightarrow>
    ('u, 'f, 'cb, 'k) reactor \<Rightarrow> ('u, 'f, 'cb, 'k) reactor \<Rightarrow> bool" for ctl interest call where
  iterate: "loop_env_ok ctl interest e \<Longrightarrow> loop_iterate e call s = Inr s' \<Longrightarrow> reactor_step ctl interest call s s'"
| prepare: "api_call ctl s s' \<Longrightarrow> el_pending (rc_loop s') = el_pending (rc_loop s) \<Longrightarrow> reactor_step ctl interest call s s'"
| other_add: "me \<noteq> rc_tid s \<Longrightarrow> tq_heap s a = None \<Longrightarrow> a < UINTPTR_MAX \<Longrightarrow>
     loop_hand_over me now a w cb interval s = Inr s' \<Longrightarrow> reactor_step ctl interest call s s'"
| other_cancel: "me \<noteq> rc_tid s \<Longrightarrow> reactor_step ctl interest call s (loop_CancelTimer me i s)"
| other_queue: "me \<noteq> rc_tid s \<Longrightarrow> reactor_step ctl interest call s (loop_QueueInLoop me f s)"
| other_quit: "me \<noteq> rc_tid s \<Longrightarrow> reactor_step ctl interest call s (loop_Quit me s)"

lemma api_setup_good:
  assumes good: "rc_good ctl interest s" and call: "api_call ctl s s'"
    and p: "el_pending (rc_loop s') = el_pending (rc_loop s)"
  shows "rc_good ctl interest s'"
proof -
  have "epoll_ctl_spec ctl interest" "lp_inv interest False False [] s" and tq: "tq_good (rc_tid s) s"
    using good by (simp_all add: rc_good_def lp_inv_def)
  from api_call_inv [OF this(1,2) _ call] have inv: "lp_inv interest False False [] s'" "api_frame s s'" by simp_all
  have "tq_good (rc_tid s) s'" by (rule tq_good_calls [OF tq api_call_timers [OF call]])
  with inv p good show ?thesis by (auto simp: rc_good_def lp_inv_def api_frame_def)
qed

lemma other_add_good:
  assumes good: "rc_good ctl interest s" and me: "me \<noteq> rc_tid s" and a: "tq_heap s a = None" "a < UINTPTR_MAX"
    and add: "loop_hand_over me now a w cb interval s = Inr s'"
  shows "rc_good ctl interest s'" and "rc_tid s' = rc_tid s"
proof -
  have lp: "lp_inv interest False True [] s" and tq: "tq_good (rc_tid s) s" using good by (simp_all add: rc_good_def)
  from loop_hand_over_inv [OF lp _ add] me have inv: "lp_inv interest False True [] s'" "api_frame s s'" by simp_all
  obtain s1 where s1: "hand_over_timer me now a w cb interval s = Inr s1" "s' = post_tasks me s s1"
    using add by (auto simp: loop_hand_over_def bindE_Inr_iff)
  have off: "me \<noteq> tq_loop_tid s" using me lp by (simp add: lp_inv_def)
  have "tq_good (rc_tid s) s'"
    unfolding s1(2) by (rule tq_good_calls [OF tq tq_calls_post [OF call_hand_over [OF off a s1(1)]]])
  with inv good show "rc_good ctl interest s'" and "rc_tid s' = rc_tid s"
    by (simp_all add: rc_good_def api_frame_def)
qed

lemma reactor_step_good:
  assumes "user_ok ctl call" and "rc_good ctl interest s" and "reactor_step ctl interest call s s'"
  shows "rc_good ctl interest s'"
  using assms(3)
proof cases
  case (iterate e)
  then obtain evs where "le_wait e (p_kernel (rc_poller s)) (p_events_size (rc_poller s)) 10000 = WaitEvents evs"
    using iterate_WaitErr [of e s _ call] by (cases "le_wait e (p_kernel (rc_poller s)) (p_events_size (rc_poller s)) 10000") auto
  from iterate_Inr [OF assms(1) iterate(1) assms(2) this] iterate(2) show ?thesis by auto
next
  case prepare
  then show ?thesis using api_setup_good [OF assms(2)] by blast
next
  case (other_add me a now w cb interval)
  then show ?thesis using other_add_good(1) [OF assms(2)] by blast
next
  case (other_cancel me i)
  have lp: "lp_inv interest False True [] s" and tq: "tq_good (rc_tid s) s" using assms(2) by (simp_all add: rc_good_def)
  have "tq_good (rc_tid s) s'"
    unfolding other_cancel(1) loop_CancelTimer_def by (rule tq_good_calls [OF tq tq_calls_post [OF call_cancel]])
  with loop_CancelTimer_inv [OF lp, of me i] other_cancel assms(2) show ?thesis
    by (simp add: rc_good_def api_frame_def)
next
  case (other_queue me f)
  then show ?thesis using loop_QueueInLoop_inv [of interest False True "[]" s me f] assms(2)
    by (auto simp: rc_good_def) (simp_all add: loop_QueueInLoop_def tq_good_more)
next
  case (other_quit me)
  then show ?thesis using loop_Quit_inv [of interest False True "[]" s me] assms(2)
    by (auto simp: rc_good_def) (simp_all add: loop_Quit_def tq_good_more)
qed

interpretation reactors: transition_system "reactor_step ctl interest call"
  "\<lambda>s. user_ok ctl call \<and> rc_good ctl interest s"
  by unfold_locales (use reactor_step_good in blast)

section \<open>Construction and destruction\<close>

lemma EnableReading_first:
  assumes "epoll_ctl_spec ctl interest" "poller_inv interest p" "p_chans p c = Some ch" "ch_index ch = kNew"
    "ch_events ch = kNoneEvent" "tid = p_loop_tid p"
  shows "\<exists>p'. EnableReading ctl tid c p = Inr p' \<and> poller_inv interest p' \<and> p_loop_tid p' = p_loop_tid p
    \<and> p_chans p' = (p_chans p)(c \<mapsto> ch\<lparr>ch_events := kReadEvent, ch_index := kAdded\<rparr>)"
  using EnableReading_new [OF assms] by auto

lemma construct_EventLoop_Inr:
  fixes k :: 'k
  assumes spec: "epoll_ctl_spec ctl interest" and k: "interest k = Map.empty"
    and fds: "0 \<le> evtfd" "0 \<le> epollfd" "evtfd \<noteq> timerfd" and c: "wc \<noteq> tc"
  shows "\<exists>s :: ('u, 'f, 'cb, 'k) reactor. construct_EventLoop ctl me evtfd epollfd timerfd k wc tc t_loop = Inr (s, True) \<and> rc_good ctl interest s
    \<and> el_pending (rc_loop s) = [] \<and> tq_timers s = [] \<and> rc_trace s = [] \<and> rc_tid s = me
    \<and> rc_wakeup_channel s = wc \<and> rc_timer_channel s = tc \<and> tq_heap s = Map.empty"
proof -
  define p0 where "p0 = \<lparr>p_loop_tid = me, p_chans = [wc \<mapsto> new_Channel evtfd :: 'u loop_callback channel], p_channels = Map.empty,
    p_kernel = k, p_events_size = kInitEventListSize, p_events_cap = kInitEventListSize\<rparr>"
  define p1 where "p1 = create_channel tc (read_channel timerfd TimerCallback) p0"
  note new = new_Channel_fields
  have "poller_inv interest p0" using k new by (auto simp: poller_inv_def p0_def index_defs split: if_splits)
  then have p1: "poller_inv interest p1" unfolding p1_def
    by (rule create_channel_inv) (use c fds(3) in \<open>auto simp: p0_def read_channel_def new split: if_splits\<close>)
  have tc: "p_chans p1 tc = Some (read_channel timerfd TimerCallback)" by (simp add: p1_def create_channel_def)
  obtain p2 where p2: "EnableReading ctl me tc p1 = Inr p2" "poller_inv interest p2" "p_loop_tid p2 = me"
      "p_chans p2 = (p_chans p1)(tc \<mapsto> (read_channel timerfd TimerCallback)\<lparr>ch_events := kReadEvent, ch_index := kAdded\<rparr>)"
    using EnableReading_first [OF spec p1 tc, of me] new by (auto simp: p1_def p0_def create_channel_def read_channel_def)
  have wc: "p_chans p2 wc = Some (new_Channel evtfd)" using c by (simp add: p2(4) p1_def p0_def create_channel_def)
  let ?wch = "read_channel evtfd WakeUpCallback"
  define p3 where "p3 = p2\<lparr>p_chans := (p_chans p2)(wc \<mapsto> ?wch)\<rparr>"
  have p3: "on_channel wc (\<lambda>ch. ch\<lparr>ch_read_callback := Some WakeUpCallback\<rparr>) p2 = Inr p3"
    using wc by (simp add: on_channel_def p3_def read_channel_def)
  have "poller_inv interest (p2\<lparr>p_chans := (p_chans p2)(wc \<mapsto> ?wch), p_channels := p_channels p2, p_kernel := p_kernel p2\<rparr>)"
    using poller_inv_not_added [OF p2(2) wc] new
    by (intro poller_inv_replace [OF p2(2) wc]) (auto simp: read_channel_def index_defs fun_eq_iff)
  then have inv3: "poller_inv interest p3" by (simp add: p3_def)
  obtain p4 where p4: "EnableReading ctl me wc p3 = Inr p4" "poller_inv interest p4" "p_loop_tid p4 = me"
      "p_chans p4 = (p_chans p3)(wc \<mapsto> ?wch\<lparr>ch_events := kReadEvent, ch_index := kAdded\<rparr>)"
    using EnableReading_first [OF spec inv3, of wc ?wch me] new p2(3) by (auto simp: p3_def read_channel_def)
  define l where "l = \<lparr>el_tid = me, el_looping = False, el_quit = False, el_calling = False, el_wakeup = 0,
    el_pending = ([] :: 'f loop_task list)\<rparr>"
  define s :: "('u, 'f, 'cb, 'k) reactor"
    where "s = timer_queue.extend (new_TimerQueue me) (reactor.fields l p4 wc tc [])"
  have eq: "construct_EventLoop ctl me evtfd epollfd timerfd k wc tc t_loop = Inr (s, True)"
    using fds(1,2) p2(1) p3 p4(1)
    by (simp add: construct_EventLoop_def new_EventLoop_def CreateEventfd_def new_EpollPoller_def construct_TimerQueue_def
        CreateTimerFd_def Let_def s_def l_def p0_def p1_def create_channel_def timer_queue.defs reactor.defs new_TimerQueue_def)
  have "own_channel s wc WakeUpCallback" "own_channel s tc TimerCallback"
    using p4(4) p2(4) c
    by (auto simp: own_channel_def s_def p3_def timer_queue.defs reactor.defs read_channel_def new_Channel_def new_TimerQueue_def)
  then have "rc_good ctl interest s"
    using spec p4(2,3) c tq_good_new [of me]
    by (simp add: rc_good_def lp_inv_def s_def l_def timer_queue.defs reactor.defs new_TimerQueue_def
        tq_good_def tq_inv_def tq_armed_def issued_def)
  with eq show ?thesis
    by (intro exI [of _ s]) (simp add: s_def l_def timer_queue.defs reactor.defs new_TimerQueue_def)
qed

text \<open>An iteration in which only one of the loop's own channels is reported.\<close>

lemma own_event:
  assumes "own_channel s c cb" and "ch_revents (the (p_chans (rc_poller s) c)) = EPOLLIN"
  shows "handle_active e call [c] s = loop_call e call cb s"
proof -
  obtain ch where ch: "p_chans (rc_poller s) c = Some ch" "\<not> ch_tied ch" "ch_read_callback ch = Some cb"
      "ch_write_callback ch = None" "ch_error_callback ch = None" "ch_close_callback ch = None" "ch_revents ch = EPOLLIN"
    using assms by (auto simp: own_channel_def)
  have flags: "EPOLLIN AND (EPOLLIN OR EPOLLPRI OR EPOLLRDHUP) \<noteq> 0" by (simp add: epoll_flags)
  have "HandleEvent (loop_call e call) (\<lambda>obj _. le_alive e obj) (\<lambda>s. the (p_chans (rc_poller s) c)) s = loop_call e call cb s"
    using ch flags by (simp add: HandleEvent_read_only call_if_def)
  then show ?thesis using ch(1) by (cases "loop_call e call cb s") simp_all
qed

lemma own_channel_polled:
  assumes "own_channel s c cb" and "\<forall>d. p_chans p d = map_option (with_revents [(EPOLLIN, c)] d) (p_chans (rc_poller s) d)"
  shows "own_channel (s\<lparr>rc_poller := p\<rparr>) c cb" "ch_revents (the (p_chans p c)) = EPOLLIN"
  using assms by (auto simp: own_channel_def with_revents_def)

lemma own_iteration:
  assumes ok: "user_ok ctl call" and env: "loop_env_ok ctl interest e" and good: "rc_good ctl interest s"
    and own: "own_channel s c cb"
    and evs: "le_wait e (p_kernel (rc_poller s)) (p_events_size (rc_poller s)) 10000 = WaitEvents [(EPOLLIN, c)]"
  shows "\<exists>p s1 s'. Poll (le_wait e) 10000 (rc_poller s) = Inr ([c], p) \<and> loop_call e call cb (s\<lparr>rc_poller := p\<rparr>) = Inr s1 \<and> handling ctl interest (s\<lparr>rc_poller := p\<rparr>)
    \<and> handling ctl interest s1 \<and> handler_frame (s\<lparr>rc_poller := p\<rparr>) s1
    \<and> loop_iterate e call s = Inr s' \<and> loop_DoPendingFunctors e call s1 = Inr s' \<and> rc_good ctl interest s'
    \<and> rc_trace s' = rc_trace s1 @ map OnTask (user_tasks (el_pending (rc_loop s1)))"
proof -
  obtain p where p: "Poll (le_wait e) 10000 (rc_poller s) = Inr ([c], p)" "handling ctl interest (s\<lparr>rc_poller := p\<rparr>)"
      "\<forall>d. p_chans p d = map_option (with_revents [(EPOLLIN, c)] d) (p_chans (rc_poller s) d)"
    using Poll_handling [OF env good evs] by auto
  have act: "handle_active e call [c] (s\<lparr>rc_poller := p\<rparr>) = loop_call e call cb (s\<lparr>rc_poller := p\<rparr>)"
    using own_event [of "s\<lparr>rc_poller := p\<rparr>" c cb e call] own_channel_polled [OF own p(3)] by simp
  obtain s1 s' where "loop_iterate e call s = Inr s'" "rc_good ctl interest s'"
      "handle_active e call [c] (s\<lparr>rc_poller := p\<rparr>) = Inr s1" "handling ctl interest s1"
      "handler_frame (s\<lparr>rc_poller := p\<rparr>) s1" "loop_DoPendingFunctors e call s1 = Inr s'"
      "rc_trace s' = rc_trace s1 @ map OnTask (user_tasks (el_pending (rc_loop s1)))"
    using iterate_Inr [OF ok env good evs] p(1) by auto
  with act p(1,2) show ?thesis by auto
qed

section \<open>Timers queued by other threads\<close>

text \<open>A timer is due to be scheduled when it is, or when the task that inserts it is still to run.\<close>

definition due_timer :: "nat \<Rightarrow> 'cb timer \<Rightarrow> 'f loop_task list \<Rightarrow> ('u, 'f, 'cb, 'k) reactor \<Rightarrow> bool" where
  "due_timer a t ts s \<longleftrightarrow> tq_heap s a = Some t
     \<and> ((ti_expiration t, a) \<in> set (tq_timers s) \<or> TimerTask (AddTask (ti_expiration t) a) \<in> set ts)"

lemma due_timer_task:
  assumes h: "tasking ctl interest (TimerTask x # ts) s" and d: "due_timer a t (TimerTask x # ts) s"
    and x: "x \<noteq> CancelTask (a, ti_sequence t)"
    and run: "run_task (rc_tid s) now x (s\<lparr>tq_queued := tl (tq_queued s)\<rparr>) = Inr s'"
  shows "due_timer a t ts s'"
proof -
  let ?s = "s\<lparr>tq_queued := tl (tq_queued s)\<rparr>"
  have inv: "tq_inv {} s" and tid: "rc_tid s = tq_loop_tid ?s" using h by (simp_all add: tasking_def tq_good_def)
  have q: "tq_queued s = x # tl (tq_queued s)" using h by (simp add: tasking_def user_inv_def lp_inv_def)
  show ?thesis
  proof (cases x)
    case (AddTask v b)
    obtain u where u: "tq_inv {b} ?s" "tq_heap ?s b = Some u" "ti_expiration u = v"
      using tq_inv_dequeue_add [OF inv q [unfolded AddTask]] by auto
    obtain s1 where "AddTimeInLoop (rc_tid s) now v b ?s = Inr s1" "tq_heap s1 = tq_heap ?s"
        "set (tq_timers s1) = insert (v, b) (set (tq_timers ?s))"
      using AddTimeInLoop_Inr [OF u(1) _ tid u(2,3), of now] by blast
    with run d AddTask show ?thesis by (auto simp: run_task_def due_timer_def)
  next
    case (CancelTask i)
    obtain b m where i: "i = (b, m)" by (cases i)
    have inv': "tq_inv {} ?s" by (rule tq_inv_dequeue_cancel [OF inv q [unfolded CancelTask]])
    show ?thesis
    proof (cases "i \<in> tq_active ?s")
      case True
      obtain u s1 where s1: "tq_heap ?s b = Some u" "ti_sequence u = m" "CancelTimerInLoop (rc_tid s) now i ?s = Inr s1"
          "tq_heap s1 = (tq_heap ?s)(b := None)" "set (tq_timers s1) = set (tq_timers ?s) - {(ti_expiration u, b)}"
        using CancelTimerInLoop_Inr [OF inv' tid True [unfolded i], of now] unfolding i by blast
      have "b \<noteq> a" using s1(1,2) d x CancelTask i by (auto simp: due_timer_def)
      with run s1(3-5) d CancelTask show ?thesis by (auto simp: run_task_def due_timer_def)
    next
      case False
      from CancelTimerInLoop_stale [OF tid False, of now] run d CancelTask h show ?thesis
        by (auto simp: run_task_def due_timer_def tasking_def tq_good_def)
    qed
  qed
qed

lemma due_timer_user:
  assumes ok: "user_ok ctl call" and h: "tasking ctl interest (UserTask f # ts) s"
    and d: "due_timer a t (UserTask f # ts) s"
  shows "due_timer a t ts (run_user call (OnTask f) s)"
proof -
  have "tq_inv {} s" using h by (simp add: tasking_def tq_good_def)
  from tq_calls_frame(2) [OF this run_user_calls [OF ok, of s "OnTask f"]]
  have "tq_heap s \<subseteq>\<^sub>m tq_heap (run_user call (OnTask f) s)"
    "set (tq_timers s) \<subseteq> set (tq_timers (run_user call (OnTask f) s))"
    by (simp_all add: calls_frame_def)
  then show ?thesis using d by (auto simp: due_timer_def map_le_def dom_def)
qed

lemma run_tasks_due:
  assumes ok: "user_ok ctl call" and "tasking ctl interest ts s" and "due_timer a t ts s"
    and "TimerTask (CancelTask (a, ti_sequence t)) \<notin> set ts" and "run_tasks e call ts s = Inr s'"
  shows "due_timer a t [] s'"
  using assms(2-5)
proof (induction ts arbitrary: s)
  case (Cons x' ts)
  show ?case
  proof (cases x')
    case (TimerTask x)
    then obtain s1 where s1: "run_task (rc_tid s) (le_now e) x (s\<lparr>tq_queued := tl (tq_queued s)\<rparr>) = Inr s1"
        "run_tasks e call ts s1 = Inr s'"
      using Cons.prems(4) by (auto simp: bindE_Inr_iff)
    have h: "tasking ctl interest (TimerTask x # ts) s" "due_timer a t (TimerTask x # ts) s" "x \<noteq> CancelTask (a, ti_sequence t)"
      using Cons.prems TimerTask by auto
    have "tasking ctl interest ts s1" using timer_task_Inr [OF h(1), of "le_now e"] s1(1) by auto
    from Cons.IH [OF this due_timer_task [OF h s1(1)] _ s1(2)] Cons.prems(3) show ?thesis by simp
  next
    case (UserTask f)
    have h: "tasking ctl interest (UserTask f # ts) s" "due_timer a t (UserTask f # ts) s"
      using Cons.prems UserTask by auto
    from Cons.IH [OF user_task_step [OF ok h(1)] due_timer_user [OF ok h]] Cons.prems(3,4) UserTask
    show ?thesis by simp
  qed
qed simp

lemma other_add_due:
  assumes good: "rc_good ctl interest s" and me: "me \<noteq> rc_tid s" and a: "tq_heap s a = None" "a < UINTPTR_MAX"
    and add: "loop_AddTimer me now a w cb interval s = Inr (i, s1)"
  shows "due_timer a (new_Timer w cb interval (tq_num_created s)) (el_pending (rc_loop s1)) s1"
    and "tq_queued s1 = tq_queued s @ [AddTask w a]"
proof -
  let ?t = "new_Timer w cb interval (tq_num_created s)"
  have inv: "tq_inv {} s" and lp: "lp_inv interest False True [] s" and tid: "me \<noteq> tq_loop_tid s"
    using good me by (simp_all add: rc_good_def tq_good_def lp_inv_def)
  obtain q where q: "AddTimer me now a w cb interval s = Inr ((a, tq_num_created s), q)" "tq_heap q = (tq_heap s)(a \<mapsto> ?t)"
    using AddTimer_Inr [OF inv a, of me now w cb interval] by auto
  have s1: "s1 = post_tasks me s q" using add q(1) by (simp add: loop_AddTimer_def)
  have us: "tq_loop_tid q = tq_loop_tid s" "tq_queued q = tq_queued s @ [AddTask w a]" "timer_queue.more q = timer_queue.more s"
    using AddTimer_outer [OF q(1)] tid by auto
  show "tq_queued s1 = tq_queued s @ [AddTask w a]" using us(2) by (simp add: s1 post_tasks_def)
  have "el_pending (rc_loop s1) = el_pending (rc_loop s) @ [TimerTask (AddTask w a)]"
    using post_tasks_inv(2) [OF lp _ us] me s1 by simp
  moreover have "tq_heap s1 a = Some ?t" using q(2) by (simp add: s1 post_tasks_def)
  ultimately show "due_timer a ?t (el_pending (rc_loop s1)) s1" by (simp add: due_timer_def new_Timer_def)
qed

section \<open>What the destructors leave\<close>

lemma fold_delete_timer:
  "tq_heap (fold (\<lambda>e. delete_timer (snd e)) es q) = (tq_heap q) |` (- snd ` set es)"
  "tq_queued (fold (\<lambda>e. delete_timer (snd e)) es q) = tq_queued q"
  "tq_outer (fold (\<lambda>e. delete_timer (snd e)) es q) = tq_outer q"
  by (induction es arbitrary: q) (auto simp: delete_timer_def restrict_map_def fun_eq_iff)

lemma destruct_TimerQueue_Inr:
  assumes spec: "epoll_ctl_spec ctl interest" and inv: "poller_inv interest (rc_poller s)" and tq: "tq_inv {} s"
    and c: "p_chans (rc_poller s) (rc_timer_channel s) = Some ch" and me: "me = p_loop_tid (rc_poller s)"
  shows "\<exists>s'. destruct_TimerQueue ctl me s = Inr s' \<and> poller_inv interest (rc_poller s')
    \<and> interest (p_kernel (rc_poller s')) (ch_fd ch) = None \<and> p_chans (rc_poller s') (rc_timer_channel s) = None
    \<and> dom (tq_heap s') = set (queued_adds (tq_queued s)) \<and> rc_wakeup_channel s' = rc_wakeup_channel s"
proof -
  let ?c = "rc_timer_channel s"
  obtain k m ch' where t: "bindE (DisableAll ctl me ?c (rc_poller s)) (Remove ctl me ?c) =
        Inr ((rc_poller s)\<lparr>p_chans := (p_chans (rc_poller s))(?c \<mapsto> ch'), p_channels := m, p_kernel := k\<rparr>)"
      "ch_index ch' \<noteq> kAdded" "interest k (ch_fd ch) = None"
      "poller_inv interest ((rc_poller s)\<lparr>p_chans := (p_chans (rc_poller s))(?c \<mapsto> ch'), p_channels := m, p_kernel := k\<rparr>)"
    using teardown_Inr [OF spec inv c me] by blast
  define p where "p = (rc_poller s)\<lparr>p_chans := (p_chans (rc_poller s))(?c \<mapsto> ch'), p_channels := m, p_kernel := k\<rparr>"
  define s1 where "s1 = s\<lparr>rc_poller := destroy_channel ?c p\<rparr>"
  have "destruct_TimerQueue ctl me s = bindE (bindE (DisableAll ctl me ?c (rc_poller s)) (Remove ctl me ?c))
      (\<lambda>p. Inr (destroy_TimerQueue (s\<lparr>rc_poller := destroy_channel ?c p\<rparr>)))"
    by (simp add: destruct_TimerQueue_def Let_def bindE_assoc)
  then have run: "destruct_TimerQueue ctl me s = Inr (destroy_TimerQueue s1)" unfolding t(1) by (simp add: s1_def p_def)
  have o: "tq_outer (destroy_TimerQueue s1) = tq_outer s1" by (simp add: destroy_TimerQueue_def fold_delete_timer)
  have "poller_inv interest (destroy_channel ?c p)"
    by (rule destroy_channel_inv [of _ _ _ ch']) (use t(2,4) in \<open>simp_all add: p_def\<close>)
  moreover have "dom (tq_heap (destroy_TimerQueue s1)) = set (queued_adds (tq_queued s))"
    using tq_invD(5,6) [OF tq] by (auto simp: destroy_TimerQueue_def fold_delete_timer s1_def)
  ultimately show ?thesis
    using run outer_reactor [OF o] t(3) by (simp add: s1_def) (simp add: destroy_channel_def p_def)
qed

section \<open>A concrete loop\<close>

text \<open>
  A loop of thread 1 on the reference kernel, its wake-up channel at address 1 on descriptor 10
  and its timer channel at address 2 on descriptor 20. The timer callbacks queue a task; the kernel
  reports the channel of descriptor \<open>fd\<close>.
\<close>

definition demo_user :: "(unit, nat, nat) user_code \<Rightarrow> (unit, nat, nat, int \<rightharpoonup> epoll_event) reactor \<Rightarrow>
    (unit, nat, nat, int \<rightharpoonup> epoll_event) reactor" where
  "demo_user code s = (case code of OnTimer n \<Rightarrow> loop_QueueInLoop (rc_tid s) n s | _ \<Rightarrow> s)"

lemma demo_user_ok: "user_ok ctl demo_user"
  unfolding user_ok_def
proof (intro allI)
  fix code s
  show "(code_call ctl code)\<^sup>*\<^sup>* s (demo_user code s)"
    by (cases code) (auto simp: demo_user_def intro: api_queue)
qed

definition one_wait :: "int \<Rightarrow> (int \<rightharpoonup> epoll_event) epoll_wait_fun" where
  "one_wait fd k n t = (case k fd of Some (ev, c) \<Rightarrow> if 0 < n then WaitEvents [(EPOLLIN, c)] else WaitEvents []
     | None \<Rightarrow> WaitEvents [])"

definition demo_env :: "int \<Rightarrow> (int \<rightharpoonup> epoll_event) loop_env" where
  "demo_env fd = \<lparr>le_ctl = ref_ctl, le_wait = one_wait fd, le_now = Timestamp 5000, le_now2 = Timestamp 5001,
     le_alive = (\<lambda>_. True)\<rparr>"

lemma demo_env_ok: "loop_env_ok ref_ctl (\<lambda>k. k) (demo_env fd)"
  by (auto simp: loop_env_ok_def demo_env_def epoll_wait_spec_def one_wait_def split: option.splits if_splits)

definition demo_reactor :: "(unit, nat, nat, int \<rightharpoonup> epoll_event) reactor" where
  "demo_reactor = \<lparr>tq_loop_tid = 1, tq_timers = [], tq_active = {}, tq_calling = False, tq_cancelling = {},
     tq_heap = Map.empty, tq_num_created = 0, tq_timerfd = None, tq_queued = [],
     rc_loop = \<lparr>el_tid = 1, el_looping = False, el_quit = False, el_calling = False, el_wakeup = 0, el_pending = []\<rparr>,
     rc_poller = \<lparr>p_loop_tid = 1,
       p_chans = [1 \<mapsto> (read_channel 10 WakeUpCallback)\<lparr>ch_events := kReadEvent, ch_index := kAdded\<rparr>,
                  2 \<mapsto> (read_channel 20 TimerCallback)\<lparr>ch_events := kReadEvent, ch_index := kAdded\<rparr>],
       p_channels = [20 \<mapsto> 2, 10 \<mapsto> 1], p_kernel = [20 \<mapsto> (kReadEvent, 2), 10 \<mapsto> (kReadEvent, 1)],
       p_events_size = 16, p_events_cap = 16\<rparr>,
     rc_wakeup_channel = 1, rc_timer_channel = 2, rc_trace = []\<rparr>"

lemma demo_construct:
  "construct_EventLoop ref_ctl 1 10 3 20 Map.empty 1 2 False = Inr (demo_reactor, True)"
  by (simp add: construct_EventLoop_def new_EventLoop_def CreateEventfd_def new_EpollPoller_def construct_TimerQueue_def
      CreateTimerFd_def Let_def create_channel_def timer_queue.defs reactor.defs new_TimerQueue_def demo_reactor_def
      EnableReading_def on_channel_def LoopUpdateChannel_def UpdateChannel_def AssertInLoopThread_def Update_def
      read_channel_def new_Channel_def index_defs set_reading_def kNoneEvent_def kInitEventListSize_def fun_upd_twist)

lemma demo_good: "rc_good ref_ctl (\<lambda>k. k) demo_reactor"
  using construct_EventLoop_Inr [OF ref_ctl_spec, of Map.empty 10 3 20 1 2 1 False,
      where 'u = unit and 'f = nat and 'cb = nat] demo_construct by auto

text \<open>The loop with one timer added before \<open>Loop\<close>, due at 4000 microseconds with callback 7.\<close>

definition demo_armed :: "(unit, nat, nat, int \<rightharpoonup> epoll_event) reactor" where
  "demo_armed = demo_reactor\<lparr>tq_timers := [(Timestamp 4000, 64)], tq_active := {(64, 0)},
     tq_heap := [64 \<mapsto> new_Timer (Timestamp 4000) 7 (double_of_int 0) 0], tq_num_created := 1,
     tq_timerfd := Some (Timestamp 1000, HowMuchTimeFromNow (Timestamp 1000) (Timestamp 4000))\<rparr>"

lemma demo_add:
  "loop_AddTimer 1 (Timestamp 1000) 64 (Timestamp 4000) 7 (double_of_int 0) demo_reactor = Inr ((64, 0), demo_armed)"
  by (simp add: loop_AddTimer_def AddTimer_def hand_over_timer_def timer_id_of_def AddTimeInLoop_def tq_insert_def tq_assert_loop_def deref_def
      demo_reactor_def demo_armed_def post_tasks_def new_Timer_def ResetTimerFd_def Let_def insort_insert_key_def)

lemma demo_armed_good: "rc_good ref_ctl (\<lambda>k. k) demo_armed"
proof (rule api_setup_good [OF demo_good])
  show "api_call ref_ctl demo_reactor demo_armed"
    by (rule api_add [of _ 64 "Timestamp 1000" "Timestamp 4000" 7 "double_of_int 0" "(64, 0)"])
      (use demo_add in \<open>simp_all add: demo_reactor_def UINTPTR_MAX_def\<close>)
qed (simp add: demo_armed_def)

section \<open>Properties\<close>

text \<open>
  Property C5. The assembled loop is safe: a loop constructed on a thread runs any number of
  iterations interleaved with calls of other threads and, outside \<open>Loop\<close>, with calls of its own thread
  that queue no task, whatever channels the kernel reports and whatever user code does through the
  interface. An iteration succeeds when \<open>epoll_wait\<close> returns
  events; when it fails, interrupted calls included, the process aborts, and nothing else goes wrong.
  At every iteration both internal descriptors are registered for input, the timer queue's view of
  its queued tasks is the loop's, the timer descriptor is armed for the earliest timer, and pending
  tasks have a wake-up. Off the loop's thread \<open>AddTimer\<close> is its hand-over, which does not fault; what
  the calling thread reads afterwards is the subject of \<open>AddTimer_race\<close>.
\<close>

theorem reactor_safe:
  fixes call :: "('u, 'f, 'cb) user_code \<Rightarrow> ('u, 'f, 'cb, 'k) reactor \<Rightarrow> ('u, 'f, 'cb, 'k) reactor"
  assumes "epoll_ctl_spec ctl interest" and "user_ok ctl call" and "interest k = Map.empty"
    and "0 \<le> evtfd" and "0 \<le> epollfd" and "evtfd \<noteq> timerfd" and "wc \<noteq> tc"
  shows "\<exists>s0. construct_EventLoop ctl me evtfd epollfd timerfd k wc tc t_loop = Inr (s0, True)
    \<and> (\<forall>s. (reactor_step ctl interest call)\<^sup>*\<^sup>* s0 s \<longrightarrow>
         (\<forall>e. loop_env_ok ctl interest e \<longrightarrow>
            (case le_wait e (p_kernel (rc_poller s)) (p_events_size (rc_poller s)) 10000 of
               WaitErr err \<Rightarrow> loop_iterate e call s = Inl Aborted | WaitEvents evs \<Rightarrow> \<exists>s'. loop_iterate e call s = Inr s'))
       \<and> (\<forall>other now a w cb interval. other \<noteq> rc_tid s \<and> tq_heap s a = None \<and> a < UINTPTR_MAX \<longrightarrow>
            (\<exists>s'. loop_hand_over other now a w cb interval s = Inr s'))
       \<and> own_channel s (rc_wakeup_channel s) WakeUpCallback \<and> own_channel s (rc_timer_channel s) TimerCallback
       \<and> poller_inv interest (rc_poller s) \<and> tq_inv {} s \<and> tq_armed s
       \<and> tq_queued s = timer_tasks (el_pending (rc_loop s))
       \<and> (el_pending (rc_loop s) \<noteq> [] \<longrightarrow> 0 < el_wakeup (rc_loop s)))"
proof -
  obtain s0 :: "('u, 'f, 'cb, 'k) reactor" where s0: "construct_EventLoop ctl me evtfd epollfd timerfd k wc tc t_loop = Inr (s0, True)" "rc_good ctl interest s0"
    using construct_EventLoop_Inr [OF assms(1,3-7)] by blast
  have good: "rc_good ctl interest s" if "(reactor_step ctl interest call)\<^sup>*\<^sup>* s0 s" for s
    using reactors.steps_inv [OF that] assms(2) s0(2) by blast
  have iter: "case le_wait e (p_kernel (rc_poller s)) (p_events_size (rc_poller s)) 10000 of
      WaitErr err \<Rightarrow> loop_iterate e call s = Inl Aborted | WaitEvents evs \<Rightarrow> \<exists>s'. loop_iterate e call s = Inr s'"
    if g: "rc_good ctl interest s" and e: "loop_env_ok ctl interest e" for s e
  proof (cases "le_wait e (p_kernel (rc_poller s)) (p_events_size (rc_poller s)) 10000")
    case (WaitErr err)
    then show ?thesis using iterate_WaitErr [OF WaitErr] by simp
  next
    case (WaitEvents evs)
    from iterate_Inr [OF assms(2) e g WaitEvents] WaitEvents show ?thesis by auto
  qed
  have hand: "\<exists>s'. loop_hand_over other now a w cb interval s = Inr s'"
    if g: "rc_good ctl interest s" and o: "other \<noteq> rc_tid s" for s :: "('u, 'f, 'cb, 'k) reactor" and other now a w cb interval
    using g o by (simp add: loop_hand_over_def hand_over_timer_def rc_good_def lp_inv_def Let_def)
  have rest: "own_channel s (rc_wakeup_channel s) WakeUpCallback \<and> own_channel s (rc_timer_channel s) TimerCallback
      \<and> poller_inv interest (rc_poller s) \<and> tq_inv {} s \<and> tq_armed s \<and> tq_queued s = timer_tasks (el_pending (rc_loop s))
      \<and> (el_pending (rc_loop s) \<noteq> [] \<longrightarrow> 0 < el_wakeup (rc_loop s))"
    if "rc_good ctl interest s" for s :: "('u, 'f, 'cb, 'k) reactor"
    using that by (simp add: rc_good_def lp_inv_def tq_good_def)
  show ?thesis using s0(1) good iter hand rest by (intro exI [of _ s0]) blast
qed

text \<open>At the sample loop: an iteration with the timer readable, and one whose \<open>epoll_wait\<close> is interrupted (\<open>EINTR\<close> is 4).\<close>

theorem reactor_safe_witness:
  "(\<exists>s'. loop_iterate (demo_env 20) demo_user demo_reactor = Inr s')
    \<and> loop_iterate ((demo_env 20)\<lparr>le_wait := (\<lambda>_ _ _. WaitErr 4)\<rparr>) demo_user demo_reactor = Inl Aborted"
proof -
  from reactor_safe [OF ref_ctl_spec demo_user_ok, of Map.empty 10 3 20 1 2 1 False] demo_construct
  have run: "case le_wait e (p_kernel (rc_poller demo_reactor)) (p_events_size (rc_poller demo_reactor)) 10000 of
      WaitErr err \<Rightarrow> loop_iterate e demo_user demo_reactor = Inl Aborted | WaitEvents evs \<Rightarrow> \<exists>s'. loop_iterate e demo_user demo_reactor = Inr s'"
    if "loop_env_ok ref_ctl (\<lambda>k. k) e" for e using that by auto
  have "le_wait (demo_env 20) (p_kernel (rc_poller demo_reactor)) (p_events_size (rc_poller demo_reactor)) 10000 = WaitEvents [(EPOLLIN, 2)]"
    by (simp add: demo_env_def one_wait_def demo_reactor_def)
  moreover have "loop_env_ok ref_ctl (\<lambda>k. k) ((demo_env 20)\<lparr>le_wait := (\<lambda>_ _ _. WaitErr 4)\<rparr>)"
    by (simp add: loop_env_ok_def demo_env_def epoll_wait_spec_def)
  ultimately show ?thesis using run [OF demo_env_ok [of 20]] run [of "(demo_env 20)\<lparr>le_wait := (\<lambda>_ _ _. WaitErr 4)\<rparr>"] by simp
qed

text \<open>
  Property C15. An iteration that finds the timer descriptor readable calls exactly the callbacks
  of the timers due at that time, in the order of their times, and then, in order, exactly the tasks
  that are pending once those callbacks have run: the ones that were pending, then those that the
  callbacks queued.
\<close>

theorem timer_iteration:
  assumes "user_ok ctl call" and "loop_env_ok ctl interest e" and "rc_good ctl interest s"
    and "le_wait e (p_kernel (rc_poller s)) (p_events_size (rc_poller s)) 10000 = WaitEvents [(EPOLLIN, rc_timer_channel s)]"
    and cbs: "cbs = callbacks_of s (expired_at (le_now e) s)"
  shows "\<exists>p q s1 s' ts. Poll (le_wait e) 10000 (rc_poller s) = Inr ([rc_timer_channel s], p)
    \<and> GetExpired (le_now e) (s\<lparr>rc_poller := p\<rparr>) = Inr (expired_at (le_now e) s, q) \<and> rc_loop q = rc_loop s
    \<and> s1 = fold (\<lambda>cb. run_user call (OnTimer cb)) cbs (q\<lparr>tq_calling := True\<rparr>)
    \<and> el_pending (rc_loop s1) = el_pending (rc_loop s) @ ts
    \<and> loop_iterate e call s = Inr s' \<and> rc_good ctl interest s'
    \<and> rc_trace s' = rc_trace s @ map OnTimer cbs @ map OnTask (user_tasks (el_pending (rc_loop s) @ ts))"
proof -
  have "own_channel s (rc_timer_channel s) TimerCallback" using assms(3) by (simp add: rc_good_def lp_inv_def)
  from own_iteration [OF assms(1-3) this assms(4)]
  obtain p s1 s' where p: "Poll (le_wait e) 10000 (rc_poller s) = Inr ([rc_timer_channel s], p)"
    and r: "loop_call e call TimerCallback (s\<lparr>rc_poller := p\<rparr>) = Inr s1"
      "handling ctl interest (s\<lparr>rc_poller := p\<rparr>)" "handler_frame (s\<lparr>rc_poller := p\<rparr>) s1"
      "loop_iterate e call s = Inr s'" "rc_good ctl interest s'"
      "rc_trace s' = rc_trace s1 @ map OnTask (user_tasks (el_pending (rc_loop s1)))"
    by blast
  obtain q where q: "GetExpired (le_now e) (s\<lparr>rc_poller := p\<rparr>) = Inr (expired_at (le_now e) s, q)" "rc_loop q = rc_loop s"
      "rc_loop s1 = rc_loop (fold (\<lambda>cb. run_user call (OnTimer cb)) cbs (q\<lparr>tq_calling := True\<rparr>))"
      "rc_trace s1 = rc_trace s @ map OnTimer cbs"
    using timer_callback_Inr [OF assms(1) r(2), of e] r(1) unfolding cbs by auto
  obtain ts where ts: "el_pending (rc_loop s1) = el_pending (rc_loop s) @ ts" using r(3) by (auto simp: handler_frame_def)
  show ?thesis
    by (rule exI [of _ p], rule exI [of _ q], rule exI [of _ "fold (\<lambda>cb. run_user call (OnTimer cb)) cbs (q\<lparr>tq_calling := True\<rparr>)"],
        rule exI [of _ s'], rule exI [of _ ts]) (use p q r(4-6) ts in simp)
qed

text \<open>At the sample loop the due callback, of timer 7, queues task 7, which runs in the same iteration.\<close>

theorem timer_iteration_witness:
  "\<exists>s'. loop_iterate (demo_env 20) demo_user demo_armed = Inr s' \<and> rc_trace s' = [OnTimer 7, OnTask 7]"
proof -
  have wait: "le_wait (demo_env 20) (p_kernel (rc_poller demo_armed)) (p_events_size (rc_poller demo_armed)) 10000
      = WaitEvents [(EPOLLIN, rc_timer_channel demo_armed)]"
    by (simp add: demo_env_def one_wait_def demo_armed_def demo_reactor_def)
  have d: "[7] = callbacks_of demo_armed (expired_at (le_now (demo_env 20)) demo_armed)" "rc_trace demo_armed = []"
    "el_pending (rc_loop demo_armed) = []"
    by (simp_all add: demo_armed_def demo_reactor_def demo_env_def new_Timer_def Timestamp_order)
  from timer_iteration [OF demo_user_ok demo_env_ok demo_armed_good wait d(1)]
  obtain q s1 s' ts where r: "rc_loop q = rc_loop demo_armed"
      "s1 = fold (\<lambda>cb. run_user demo_user (OnTimer cb)) [7] (q\<lparr>tq_calling := True\<rparr>)"
      "el_pending (rc_loop s1) = el_pending (rc_loop demo_armed) @ ts" "loop_iterate (demo_env 20) demo_user demo_armed = Inr s'"
      "rc_trace s' = rc_trace demo_armed @ map OnTimer [7] @ map OnTask (user_tasks (el_pending (rc_loop demo_armed) @ ts))"
    by blast
  have "ts = [UserTask 7]" using r(1-3) d(3) by (simp add: run_user_def demo_user_def loop_QueueInLoop_def)
  with r(4,5) d(2,3) show ?thesis by simp
qed

text \<open>
  Property C16. A timer added from another thread is scheduled by the wake-up it causes: after the
  next iteration, if that finds the wake-up descriptor readable and nothing cancelled the timer
  meanwhile, the timer is in the queue under its time and the timer descriptor is armed for the
  earliest one.
\<close>

theorem cross_thread_timer:
  assumes "user_ok ctl call" and "loop_env_ok ctl interest e" and "rc_good ctl interest s"
    and "me \<noteq> rc_tid s" and "tq_heap s a = None" and "a < UINTPTR_MAX" and "CancelTask (a, tq_num_created s) \<notin> set (tq_queued s)"
    and "loop_AddTimer me now a w cb interval s = Inr (i, s1)"
    and "le_wait e (p_kernel (rc_poller s1)) (p_events_size (rc_poller s1)) 10000 = WaitEvents [(EPOLLIN, rc_wakeup_channel s1)]"
  shows "0 < el_wakeup (rc_loop s1) \<and> (\<exists>s2. loop_iterate e call s1 = Inr s2 \<and> (w, a) \<in> set (tq_timers s2)
    \<and> tq_heap s2 a = Some (new_Timer w cb interval (tq_num_created s)) \<and> tq_armed s2)"
proof -
  have good: "rc_good ctl interest s1" by (rule other_add_good(1) [OF assms(3-6) loop_AddTimer_hand_over [OF assms(8)]])
  then have own: "own_channel s1 (rc_wakeup_channel s1) WakeUpCallback" by (simp add: rc_good_def lp_inv_def)
  obtain p s2 s3 where r: "loop_call e call WakeUpCallback (s1\<lparr>rc_poller := p\<rparr>) = Inr s2"
      "handling ctl interest s2" "loop_iterate e call s1 = Inr s3" "loop_DoPendingFunctors e call s2 = Inr s3"
      "rc_good ctl interest s3"
    using own_iteration [OF assms(1,2) good own assms(9)] by blast
  let ?t = "new_Timer w cb interval (tq_num_created s)"
  note due = other_add_due [OF assms(3-6,8)]
  have s2: "s2 = s1\<lparr>rc_poller := p, rc_loop := WakeUpHandleRead (rc_loop s1)\<rparr>" using r(1) by simp
  then have p: "el_pending (rc_loop s2) = el_pending (rc_loop s1)" by (simp add: WakeUpHandleRead_def)
  have q1: "tq_queued s1 = timer_tasks (el_pending (rc_loop s1))" using good by (simp add: rc_good_def lp_inv_def)
  let ?s2 = "s2\<lparr>rc_loop := (rc_loop s2)\<lparr>el_calling := True, el_pending := []\<rparr>\<rparr>"
  obtain s4 where s4: "run_tasks e call (el_pending (rc_loop s2)) ?s2 = Inr s4"
      "s3 = s4\<lparr>rc_loop := (rc_loop s4)\<lparr>el_calling := False\<rparr>\<rparr>"
    using DoPendingFunctors_Inr [OF assms(1) r(2), of e] r(4) by auto
  have "due_timer a ?t (el_pending (rc_loop s2)) ?s2" using due(1) unfolding p by (simp add: s2 due_timer_def)
  moreover have "CancelTask (a, ti_sequence ?t) \<notin> set (timer_tasks (el_pending (rc_loop s2)))"
    unfolding p q1 [symmetric] using due(2) assms(7) by (simp add: new_Timer_def)
  then have "TimerTask (CancelTask (a, ti_sequence ?t)) \<notin> set (el_pending (rc_loop s2))" by (simp add: in_timer_tasks)
  ultimately have "due_timer a ?t [] s4" by (rule run_tasks_due [OF assms(1) handling_tasking [OF r(2)] _ _ s4(1)])
  then have s3: "tq_heap s3 a = Some ?t" "(w, a) \<in> set (tq_timers s3)"
    unfolding s4(2) by (simp_all add: due_timer_def new_Timer_def)
  have "el_pending (rc_loop s1) \<noteq> []" using q1 due(2) by auto
  then have "0 < el_wakeup (rc_loop s1)" using good by (simp add: rc_good_def lp_inv_def)
  moreover have "tq_armed s3" using r(5) by (simp add: rc_good_def tq_good_def)
  ultimately show ?thesis using r(3) s3 by blast
qed

definition demo_remote :: "(unit, nat, nat, int \<rightharpoonup> epoll_event) reactor" where
  "demo_remote = demo_reactor\<lparr>tq_heap := [64 \<mapsto> new_Timer (Timestamp 4000) 7 (double_of_int 0) 0], tq_num_created := 1,
     tq_queued := [AddTask (Timestamp 4000) 64],
     rc_loop := (rc_loop demo_reactor)\<lparr>el_wakeup := 1, el_pending := [TimerTask (AddTask (Timestamp 4000) 64)]\<rparr>\<rparr>"

lemma demo_add_remote:
  "loop_AddTimer 2 (Timestamp 1000) 64 (Timestamp 4000) 7 (double_of_int 0) demo_reactor = Inr ((64, 0), demo_remote)"
  by (simp add: loop_AddTimer_def AddTimer_def hand_over_timer_def timer_id_of_def deref_def demo_reactor_def demo_remote_def post_tasks_def new_Timer_def
      Let_def QueueInLoop_def IsInLoopThread_def push_functor_def WakeUp_def eventfd_max_def)

lemma demo_remote_good: "rc_good ref_ctl (\<lambda>k. k) demo_remote"
  by (rule other_add_good(1) [OF demo_good _ _ _ loop_AddTimer_hand_over [OF demo_add_remote]]) (simp_all add: demo_reactor_def UINTPTR_MAX_def)

theorem cross_thread_timer_witness:
  "\<exists>s2. loop_iterate (demo_env 10) demo_user demo_remote = Inr s2 \<and> (Timestamp 4000, 64) \<in> set (tq_timers s2)"
proof -
  have "le_wait (demo_env 10) (p_kernel (rc_poller demo_remote)) (p_events_size (rc_poller demo_remote)) 10000
      = WaitEvents [(EPOLLIN, rc_wakeup_channel demo_remote)]"
    by (simp add: demo_env_def one_wait_def demo_remote_def demo_reactor_def)
  from cross_thread_timer [OF demo_user_ok demo_env_ok demo_good _ _ _ _ demo_add_remote this] show ?thesis
    by (auto simp: demo_reactor_def UINTPTR_MAX_def)
qed

text \<open>
  Property C37. Destroying a loop. Without a timing wheel, on the loop's thread, the destructor
  unregisters the timer channel and frees every timer that was inserted, but not one whose
  insertion another thread had queued: exactly those are lost. On another thread it aborts the
  process. With a timing wheel it uses \<open>pending_functors_\<close> after that was destroyed: the wheel's
  destructor cancels its timer through the loop's queue.
\<close>

theorem destruct_EventLoop_outcome:
  assumes "rc_good ctl interest s"
  shows "(\<exists>s'. destruct_EventLoop ctl (rc_tid s) None s = Inr (s', False)
      \<and> dom (tq_heap s') = set (queued_adds (tq_queued s))
      \<and> p_chans (rc_poller s') (rc_timer_channel s) = None \<and> p_chans (rc_poller s') (rc_wakeup_channel s) = None)
    \<and> (\<forall>me. me \<noteq> rc_tid s \<longrightarrow> destruct_EventLoop ctl me None s = Inl Aborted)
    \<and> (\<forall>me timer_id. destruct_EventLoop ctl me (Some timer_id) s = Inl UseAfterFree)"
proof (intro conjI allI impI)
  let ?s = "s\<lparr>rc_loop := (rc_loop s)\<lparr>el_pending := []\<rparr>\<rparr>"
  have good: "tq_good (rc_tid s) ?s" using assms by (simp add: rc_good_def tq_good_more)
  have inv: "epoll_ctl_spec ctl interest" "poller_inv interest (rc_poller ?s)" "tq_inv {} ?s"
      "rc_tid s = p_loop_tid (rc_poller ?s)" "rc_wakeup_channel s \<noteq> rc_timer_channel s"
    using assms good by (simp_all add: rc_good_def lp_inv_def tq_good_def)
  obtain ch where ch: "p_chans (rc_poller ?s) (rc_timer_channel ?s) = Some ch" "ch_index ch = kAdded"
    using assms by (auto simp: rc_good_def lp_inv_def own_channel_def)
  from destruct_TimerQueue_Inr [OF inv(1-3) ch(1) inv(4)]
  show "\<exists>s'. destruct_EventLoop ctl (rc_tid s) None s = Inr (s', False)
      \<and> dom (tq_heap s') = set (queued_adds (tq_queued s))
      \<and> p_chans (rc_poller s') (rc_timer_channel s) = None \<and> p_chans (rc_poller s') (rc_wakeup_channel s) = None"
    by (auto simp: destruct_EventLoop_def loop_members_def destroy_channel_def)
  show "destruct_EventLoop ctl me None s = Inl Aborted" if "me \<noteq> rc_tid s" for me
    using that ch inv(4)
    by (simp add: destruct_EventLoop_def loop_members_def destruct_TimerQueue_def DisableAll_def on_channel_def LoopUpdateChannel_def
        Remove_def LoopRemoveChannel_def RemoveChannel_def AssertInLoopThread_def Let_def)
  show "destruct_EventLoop ctl me (Some timer_id) s = Inl UseAfterFree" for me timer_id
    by (simp add: destruct_EventLoop_def loop_members_def push_pending_def)
qed

theorem destruct_EventLoop_outcome_witness:
  "\<exists>s'. destruct_EventLoop ref_ctl 1 None demo_remote = Inr (s', False) \<and> dom (tq_heap s') = {64}"
  using destruct_EventLoop_outcome [OF demo_remote_good]
  by (auto simp: demo_remote_def demo_reactor_def)

end
