(* ===== verification/TimeoutEcho.thy ===== *)
theory TimeoutEcho
  imports EchoServer TimingWheel
begin

text \<open>
  The echo server that closes idle connections (\<open>examples/echo_server/EchoServerWithTimeout.cpp\<close>):
  a connection composed with the timing wheel of its loop. The state extends the connection's
  record with the loop's wheel, in which the connection is known by its address; the context the
  wheel keeps in a connection is in the wheel's state.
\<close>

section \<open>Callbacks\<close>

record 'k timeout_conn = "(echo_callback, 'k) tcp_connection" +
  te_loop :: idle_loop

type_synonym 'k timeout_op = "'k timeout_conn \<Rightarrow> 'k timeout_conn res"

text \<open>\<open>conn->GetLoop()->Feed(conn)\<close>.\<close>

definition te_Feed :: "'k tc_env \<Rightarrow> 'k timeout_op" where
  "te_Feed e s = bindE (loop_Feed (env_tid e) (tc_self s) (te_loop s)) (\<lambda>l. Inr (s\<lparr>te_loop := l\<rparr>))"

fun timeout_call :: "'k tc_env \<Rightarrow> echo_callback \<Rightarrow> 'k timeout_op" where
  "timeout_call e OnConnectionCallback s = (if Connected s then te_Feed e s else Inr s)"
| "timeout_call e OnMessage s = bindE (te_Feed e s) (\<lambda>s1.
     bindE (RetrieveAllAsString (tc_input s1)) (\<lambda>(msg, buf). send e (\<lambda>_. Inr) msg (s1\<lparr>tc_input := buf\<rparr>)))"
| "timeout_call e RemoveConnection s = Inr s"

text \<open>A tick of the wheel's timer: an entry that is destroyed shuts its connection down.\<close>

definition te_OnTimer :: "'k timeout_op" where
  "te_OnTimer s =
     bindE (loop_OnTimer (te_loop s)) (\<lambda>l.
       let expired = drop (length (il_shut (te_loop s))) (il_shut l);
           s1 = s\<lparr>te_loop := l\<rparr>
       in if tc_self s \<in> set expired then ShutDown s1 else Inr s1)"

section \<open>Invariant\<close>

text \<open>The connection's invariant, and that it is one of the live connections of a wheel of \<open>n\<close> buckets.\<close>

definition te_inv :: "('k \<Rightarrow> int \<rightharpoonup> epoll_event) \<Rightarrow> nat \<Rightarrow> 'k timeout_conn \<Rightarrow> bool" where
  "te_inv interest n s \<longleftrightarrow> tc_inv interest s \<and> wheel_inv n (te_loop s) \<and> il_tid (te_loop s) = p_loop_tid s
     \<and> tc_self s \<in> dom (il_conns (te_loop s)) \<and> tc_write_complete_callback s = None"

abbreviation remaining :: "'k timeout_conn \<Rightarrow> nat option" where
  "remaining s \<equiv> idle (te_loop s) (tc_self s)"

lemma tc_inv_loop [simp]: "tc_inv interest (s\<lparr>te_loop := l\<rparr>) = tc_inv interest s"
  by (simp add: tc_inv_def poller_inv_def)

lemma conn_frame_loop:
  assumes "conn_frame s s'"
  shows "te_loop s' = te_loop s" "tc_self s' = tc_self s" "p_loop_tid s' = p_loop_tid s"
    "tc_write_complete_callback s' = tc_write_complete_callback s" "tc_message_callback s' = tc_message_callback s"
  using assms by (cases s; cases s'; simp add: conn_frame_def)+

lemma te_inv_frame: "te_inv interest n s \<Longrightarrow> conn_frame s s' \<Longrightarrow> tc_inv interest s' \<Longrightarrow> te_inv interest n s'"
  using conn_frame_loop [of s s'] by (simp add: te_inv_def)

lemma te_Feed_Inr:
  assumes inv: "te_inv interest n s" and tid: "env_tid e = p_loop_tid s"
  shows "\<exists>l. te_Feed e s = Inr (s\<lparr>te_loop := l\<rparr>) \<and> te_inv interest n (s\<lparr>te_loop := l\<rparr>)
    \<and> idle l = (idle (te_loop s))(tc_self s \<mapsto> n) \<and> dom (il_conns l) = dom (il_conns (te_loop s))"
proof -
  have "wheel_inv n (te_loop s)" "tc_self s \<in> dom (il_conns (te_loop s))" "env_tid e = il_tid (te_loop s)"
    using inv tid by (simp_all add: te_inv_def)
  from Feed_ok [OF this] obtain l where l: "loop_Feed (env_tid e) (tc_self s) (te_loop s) = Inr l" "wheel_inv n l"
      "idle l = (idle (te_loop s))(tc_self s \<mapsto> n)" "dom (il_conns l) = dom (il_conns (te_loop s))" "il_tid l = il_tid (te_loop s)"
    by blast
  have "te_inv interest n (s\<lparr>te_loop := l\<rparr>)" using inv l(2,4,5) by (simp add: te_inv_def)
  then show ?thesis using l(1,3,4) by (intro exI [of _ l]) (simp add: te_Feed_def)
qed

text \<open>\<open>OnMessage\<close> restarts the countdown and then does what the plain echo server does.\<close>

lemma timeout_message:
  assumes inv: "te_inv interest n s" and env: "env_ok interest (p_loop_tid s) e" and up: "tc_state s = kConnected"
  shows "\<exists>s'. timeout_call e OnMessage s = Inr s' \<and> te_inv interest n s' \<and> remaining s' = Some n
    \<and> tc_state s' = kConnected \<and> contents (tc_input s') = []
    \<and> tc_sent s' @ contents (tc_output s') = tc_sent s @ contents (tc_output s) @ contents (tc_input s)
    \<and> p_loop_tid s' = p_loop_tid s \<and> tc_self s' = tc_self s \<and> dom (il_conns (te_loop s')) = dom (il_conns (te_loop s))"
proof -
  have e: "epoll_ctl_spec (env_ctl e) interest" "env_tid e = p_loop_tid s" "\<And>fd d. env_write e fd d \<noteq> WriteErr EPIPE"
    using env by (simp_all add: env_ok_def)
  obtain l where l: "te_Feed e s = Inr (s\<lparr>te_loop := l\<rparr>)" "te_inv interest n (s\<lparr>te_loop := l\<rparr>)"
      "idle l = (idle (te_loop s))(tc_self s \<mapsto> n)" "dom (il_conns l) = dom (il_conns (te_loop s))"
    using te_Feed_Inr [OF inv e(2)] by blast
  let ?s = "s\<lparr>te_loop := l\<rparr>"
  have inv1: "tc_inv interest ?s" "tc_write_complete_callback ?s = None" using l(2) by (simp_all add: te_inv_def)
  obtain b where b: "RetrieveAllAsString (tc_input s) = Inr (contents (tc_input s), b)" "buffer_inv b" "contents b = []"
    using RetrieveAllAsString_Inr tc_invD(2) [OF inv1(1)] by force
  define s1 where "s1 = ?s\<lparr>tc_input := b\<rparr>"
  have s1: "tc_inv interest s1" "env_tid e = p_loop_tid s1" "tc_state s1 = kConnected" "tc_write_complete_callback s1 = None"
    using tc_inv_input [OF inv1(1) b(2)] e(2) up inv1(2) by (simp_all add: s1_def)
  obtain s' fd where s': "send e (\<lambda>_. Inr) (contents (tc_input s)) s1 = Inr s'" "tc_inv interest s'" "conn_frame s1 s'"
      "tc_sent s' @ contents (tc_output s') = tc_sent s1 @ contents (tc_output s1)
        @ (if contents (tc_output s1) = [] \<and> env_write e fd (contents (tc_input s)) = WriteErr EPIPE then [] else contents (tc_input s))"
      "tc_state s' = tc_state s1"
    using send_Inr [OF e(1) s1] by blast
  have "te_inv interest n s1" using l(2) s1(1) by (simp add: te_inv_def s1_def)
  then have "te_inv interest n s'" by (rule te_inv_frame [OF _ s'(3,2)])
  moreover have "timeout_call e OnMessage s = Inr s'" using l(1) b(1) s'(1) by (simp add: s1_def)
  moreover have "remaining s' = Some n" using conn_frame_loop [OF s'(3)] l(3) by (simp add: s1_def)
  moreover have "tc_input s' = tc_input s1" using s'(3) by (simp add: conn_frame_def)
  ultimately show ?thesis using s' b(3) e(3) s1(3) conn_frame_loop [OF s'(3)] l(4)
    by (intro exI [of _ s']) (simp add: s1_def)
qed

section \<open>Idle time\<close>

text \<open>What happens on the loop while the connection is idle: ticks, writable events, other connections.\<close>

datatype idle_event = TimerTick | CanWrite | OtherFed nat

fun run_idle_event :: "'k tc_env \<Rightarrow> idle_event \<Rightarrow> 'k timeout_op" where
  "run_idle_event e TimerTick s = te_OnTimer s"
| "run_idle_event e CanWrite s = HandleWrite e (timeout_call e) s"
| "run_idle_event e (OtherFed c) s = bindE (loop_Feed (env_tid e) c (te_loop s)) (\<lambda>l. Inr (s\<lparr>te_loop := l\<rparr>))"

fun run_idle_events :: "('k tc_env \<times> idle_event) list \<Rightarrow> 'k timeout_op" where
  "run_idle_events [] s = Inr s"
| "run_idle_events ((e, ev) # evs) s = bindE (run_idle_event e ev s) (run_idle_events evs)"

definition count_ticks :: "('k tc_env \<times> idle_event) list \<Rightarrow> nat" where
  "count_ticks evs = length (filter (\<lambda>(e, ev). ev = TimerTick) evs)"

lemma count_ticks_simps [simp]:
  "count_ticks [] = 0" "count_ticks ((e, ev) # evs) = (if ev = TimerTick then 1 else 0) + count_ticks evs"
  by (simp_all add: count_ticks_def)

text \<open>Up and counting down, or shut down and no longer watched.\<close>

fun phase :: "nat option \<Rightarrow> 'k timeout_conn \<Rightarrow> bool" where
  "phase (Some r) s \<longleftrightarrow> tc_state s = kConnected \<and> remaining s = Some r \<and> 0 < r"
| "phase None s \<longleftrightarrow> tc_state s = kDisconnecting \<and> remaining s = None"

fun after_tick :: "nat option \<Rightarrow> nat option" where
  "after_tick None = None"
| "after_tick (Some r) = (if r = 1 then None else Some (r - 1))"

lemma te_OnTimer_Inr:
  assumes inv: "te_inv interest n s" and n: "0 < n" and p: "phase r s" and g: "tc_graceful s"
  shows "\<exists>s'. te_OnTimer s = Inr s' \<and> te_inv interest n s' \<and> phase (after_tick r) s' \<and> tc_graceful s'
    \<and> tc_sent s' @ contents (tc_output s') = tc_sent s @ contents (tc_output s)
    \<and> p_loop_tid s' = p_loop_tid s \<and> tc_self s' = tc_self s \<and> dom (il_conns (te_loop s')) = dom (il_conns (te_loop s))"
proof -
  have w: "wheel_inv n (te_loop s)" using inv by (simp add: te_inv_def)
  obtain l cs where l: "loop_OnTimer (te_loop s) = Inr l" "wheel_inv n l" "idle l = idle_tick (idle (te_loop s))"
      "il_shut l = il_shut (te_loop s) @ cs" "set cs = {c. idle (te_loop s) c = Some 1}"
      "dom (il_conns l) = dom (il_conns (te_loop s))" "il_tid l = il_tid (te_loop s)"
    using OnTimer_ok [OF w n] by blast
  define s1 where "s1 = s\<lparr>te_loop := l\<rparr>"
  have run: "te_OnTimer s = (if remaining s = Some 1 then ShutDown s1 else Inr s1)"
    using l(1,4,5) by (simp add: te_OnTimer_def s1_def Let_def)
  have inv1: "te_inv interest n s1" using inv l(2,6,7) by (simp add: te_inv_def s1_def)
  have rem: "remaining s1 = idle_tick (idle (te_loop s)) (tc_self s)" using l(3) by (simp add: s1_def)
  have dom: "dom (il_conns (te_loop s1)) = dom (il_conns (te_loop s))" using l(6) by (simp add: s1_def)
  show ?thesis
  proof (cases "remaining s = Some 1")
    case True
    then have r: "r = Some 1" and up: "tc_state s1 = kConnected" using p by (cases r; simp add: s1_def)+
    obtain s' where s': "ShutDown s1 = Inr s'" "tc_inv interest s'" "conn_frame s1 s'" "tc_graceful s'"
        "tc_sent s' = tc_sent s1" "tc_output s' = tc_output s1" "tc_state s' = kDisconnecting"
      using ShutDown_Inr [OF _ up] inv1 by (auto simp: te_inv_def)
    have "phase None s'" using s'(7) conn_frame_loop [OF s'(3)] rem True by (simp add: s1_def idle_tick_def)
    then show ?thesis
      using run True s' te_inv_frame [OF inv1 s'(3,2)] conn_frame_loop [OF s'(3)] dom r
      by (intro exI [of _ s']) (simp add: s1_def)
  next
    case False
    then have "phase (after_tick r) s1" using p rem by (cases r) (auto simp: s1_def idle_tick_def)
    moreover have "tc_graceful s1" using g by (simp add: tc_graceful_def s1_def)
    ultimately show ?thesis using run False inv1 dom by (intro exI [of _ s1]) (simp add: s1_def)
  qed
qed

text \<open>Events that other code may cause: any environment that behaves as documented, any other live connection.\<close>

definition idle_events_ok :: "('k \<Rightarrow> int \<rightharpoonup> epoll_event) \<Rightarrow> 'k timeout_conn \<Rightarrow> ('k tc_env \<times> idle_event) list \<Rightarrow> bool" where
  "idle_events_ok interest s evs \<longleftrightarrow> (\<forall>(e, ev) \<in> set evs. env_ok interest (p_loop_tid s) e
     \<and> (\<forall>c. ev = OtherFed c \<longrightarrow> c \<noteq> tc_self s \<and> c \<in> dom (il_conns (te_loop s))))"

lemma run_idle_event_Inr:
  assumes inv: "te_inv interest n s" and n: "0 < n" and p: "phase r s" and g: "tc_graceful s"
    and ok: "idle_events_ok interest s [(e, ev)]"
  shows "\<exists>s'. run_idle_event e ev s = Inr s' \<and> te_inv interest n s'
    \<and> phase (if ev = TimerTick then after_tick r else r) s' \<and> tc_graceful s'
    \<and> tc_sent s' @ contents (tc_output s') = tc_sent s @ contents (tc_output s)
    \<and> p_loop_tid s' = p_loop_tid s \<and> tc_self s' = tc_self s \<and> dom (il_conns (te_loop s')) = dom (il_conns (te_loop s))"
proof (cases ev)
  case TimerTick
  then show ?thesis using te_OnTimer_Inr [OF inv n p g] by simp
next
  case CanWrite
  have e: "epoll_ctl_spec (env_ctl e) interest" "write_spec (env_write e)" "env_tid e = p_loop_tid s"
    using ok by (simp_all add: idle_events_ok_def env_ok_def)
  have i: "tc_inv interest s" "tc_write_complete_callback s = None" using inv by (simp_all add: te_inv_def)
  have up: "tc_state s = kConnected \<or> tc_state s = kDisconnecting" using p by (cases r) simp_all
  obtain s' where s': "HandleWrite e (timeout_call e) s = Inr s'" "tc_inv interest s'" "conn_frame s s'"
      "tc_sent s' @ contents (tc_output s') = tc_sent s @ contents (tc_output s)" "tc_state s' = tc_state s" "tc_graceful s'"
    using HandleWrite_Inr [OF e(1,2) i(1) e(3) up i(2)] g by blast
  have "phase r s'" using p s'(5) conn_frame_loop [OF s'(3)] by (cases r) simp_all
  then show ?thesis
    using CanWrite s' te_inv_frame [OF inv s'(3,2)] conn_frame_loop [OF s'(3)] by (intro exI [of _ s']) simp
next
  case (OtherFed c)
  have c: "c \<noteq> tc_self s" "c \<in> dom (il_conns (te_loop s))" "env_tid e = p_loop_tid s"
    using ok OtherFed by (auto simp: idle_events_ok_def env_ok_def)
  have w: "wheel_inv n (te_loop s)" "env_tid e = il_tid (te_loop s)" using inv c(3) by (simp_all add: te_inv_def)
  obtain l where l: "loop_Feed (env_tid e) c (te_loop s) = Inr l" "wheel_inv n l" "idle l = (idle (te_loop s))(c \<mapsto> n)"
      "dom (il_conns l) = dom (il_conns (te_loop s))" "il_tid l = il_tid (te_loop s)"
    using Feed_ok [OF w(1) c(2) w(2)] by blast
  let ?s = "s\<lparr>te_loop := l\<rparr>"
  have "te_inv interest n ?s" using inv l(2,4,5) by (simp add: te_inv_def)
  moreover have "phase r ?s" using p c(1) l(3) by (cases r) simp_all
  moreover have "tc_graceful ?s" using g by (simp add: tc_graceful_def)
  ultimately show ?thesis using OtherFed l(1,4) by (intro exI [of _ ?s]) simp
qed

fun after_ticks :: "nat \<Rightarrow> nat option \<Rightarrow> nat option" where
  "after_ticks k None = None"
| "after_ticks k (Some r) = (if r \<le> k then None else Some (r - k))"

lemma after_ticks_0 [simp]: "phase r s \<Longrightarrow> after_ticks 0 r = r"
  by (cases r) auto

lemma after_ticks_Suc: "phase r s \<Longrightarrow> after_ticks k (after_tick r) = after_ticks (Suc k) r"
  by (cases r) auto

lemma run_idle_events_Inr:
  assumes "te_inv interest n s" and n: "0 < n" and "phase r s" and "tc_graceful s" and "idle_events_ok interest s evs"
  shows "\<exists>s'. run_idle_events evs s = Inr s' \<and> te_inv interest n s' \<and> phase (after_ticks (count_ticks evs) r) s'
    \<and> tc_graceful s' \<and> tc_sent s' @ contents (tc_output s') = tc_sent s @ contents (tc_output s)"
  using assms(1,3-5)
proof (induction evs arbitrary: s r)
  case Nil
  then show ?case by simp
next
  case (Cons x evs)
  obtain e ev where x: "x = (e, ev)" by (cases x)
  have ok: "idle_events_ok interest s [(e, ev)]" "idle_events_ok interest s evs"
    using Cons.prems(4) by (simp_all add: x idle_events_ok_def)
  define r1 where "r1 = (if ev = TimerTick then after_tick r else r)"
  obtain s1 where s1: "run_idle_event e ev s = Inr s1" "te_inv interest n s1" "phase r1 s1" "tc_graceful s1"
      "tc_sent s1 @ contents (tc_output s1) = tc_sent s @ contents (tc_output s)" "p_loop_tid s1 = p_loop_tid s"
      "tc_self s1 = tc_self s" "dom (il_conns (te_loop s1)) = dom (il_conns (te_loop s))"
    using run_idle_event_Inr [OF Cons.prems(1) n Cons.prems(2,3) ok(1), folded r1_def] by blast
  have "idle_events_ok interest s1 evs" using ok(2) s1(6-8) by (simp add: idle_events_ok_def)
  from Cons.IH [OF s1(2-4) this] after_ticks_Suc [OF Cons.prems(2), of "count_ticks evs"] s1(1,5) show ?case
    by (cases "ev = TimerTick") (simp_all add: x r1_def)
qed

section \<open>A sample connection\<close>

definition timeout_conn0 :: "(int \<rightharpoonup> epoll_event) timeout_conn" where
  "timeout_conn0 = tcp_connection.extend echo_conn \<lparr>te_loop = \<lparr>il_tid = 1,
     il_timing_wheel = Some \<lparr>tw_wheel = [[], []], tw_current_bucket = 0\<rparr>, il_entries = Map.empty, il_next_entry = 0,
     il_conns = [9 \<mapsto> None], il_shut = []\<rparr>\<rparr>"

lemma timeout_conn0_inv: "te_inv (\<lambda>k. k) 2 timeout_conn0"
proof -
  have "tc_inv (\<lambda>k. k) timeout_conn0"
    by (rule tc_invI [where ch = "(conn_channel 5)\<lparr>ch_events := kReadEvent, ch_index := kAdded\<rparr>"])
      (auto simp: timeout_conn0_def tcp_connection.defs echo_conn_def poller_inv_def conn_channel_def new_Channel_def
        buffer_inv_def contents_def segment_def is_reading_def is_writing_def read_and_write kReadEvent_reads split: if_splits)
  moreover have "wheel_inv 2 (te_loop timeout_conn0)"
    by (auto simp: timeout_conn0_def wheel_inv_def tcp_connection.defs echo_conn_def)
  ultimately show ?thesis by (simp add: te_inv_def timeout_conn0_def tcp_connection.defs echo_conn_def)
qed

section \<open>Properties\<close>

text \<open>
  Property C21. The echo server with an idle timeout of \<open>n\<close> seconds: a readable event that delivers
  bytes which fit the input buffer's tail, on a socket whose writes do not fail with \<open>EPIPE\<close>, echoes
  them, as the plain echo server does. From then on, over any sequence of ticks, writable events of
  the connection and messages on other connections of the loop that exist, however the socket takes
  the bytes, it stays up through fewer than \<open>n\<close> ticks and is shut down at the \<open>n\<close>-th. No echoed byte
  is dropped by the shutdown: the write half is shut only when all are written.
\<close>

theorem timeout_echo:
  assumes "te_inv interest n s" and "0 < n" and "tc_state s = kConnected" and "tc_message_callback s = Some OnMessage"
    and "env_ok interest (p_loop_tid s) e" and "length (buffer_mem (tc_input s)) < 2 ^ 63"
    and "\<forall>fd. env_readv e fd [WriteableBytes (tc_input s), kExtraBuf] = ReadData d"
    and "d \<noteq> []" and "length d \<le> WriteableBytes (tc_input s)"
  shows "\<exists>s1. HandleRead e (timeout_call e) s = Inr s1
    \<and> tc_sent s1 @ contents (tc_output s1) = tc_sent s @ contents (tc_output s) @ contents (tc_input s) @ d
    \<and> (\<forall>evs. idle_events_ok interest s evs \<longrightarrow>
         (\<exists>s2. run_idle_events evs s1 = Inr s2
           \<and> tc_state s2 = (if n \<le> count_ticks evs then kDisconnecting else kConnected)
           \<and> tc_sent s2 @ contents (tc_output s2) = tc_sent s1 @ contents (tc_output s1) \<and> tc_graceful s2))"
proof -
  have inv: "tc_inv interest s" using assms(1) by (simp add: te_inv_def)
  obtain ch where ch: "p_chans s (tc_chan s) = Some ch" using tc_inv_chan [OF inv] by auto
  have small: "length d < 2 ^ 63" using assms(6,9) WriteableBytes_eq [OF tc_invD(2) [OF inv]] by simp
  obtain b where b: "ReadFd (env_readv e) (ch_fd ch) 0 (tc_input s) = (int (length d), 0, b)" "buffer_inv b"
      "contents b = contents (tc_input s) @ d"
    using ReadFd_cases [where readv = "env_readv e" and fd = "ch_fd ch" and se = 0, OF tc_invD(2) [OF inv] assms(6)]
      assms(7,9) small by auto
  define s0 where "s0 = s\<lparr>tc_input := b\<rparr>"
  have s0: "te_inv interest n s0" "env_ok interest (p_loop_tid s0) e" "tc_state s0 = kConnected"
    using assms(1,3,5) tc_inv_input [OF inv b(2)] by (simp_all add: te_inv_def s0_def)
  have run: "HandleRead e (timeout_call e) s = timeout_call e OnMessage s0"
    using ch b(1) assms(4,8) by (simp add: HandleRead_def tc_deref_def s0_def call_must_def)
  obtain s1 where s1: "timeout_call e OnMessage s0 = Inr s1" "te_inv interest n s1" "remaining s1 = Some n"
      "tc_state s1 = kConnected" "tc_sent s1 @ contents (tc_output s1) = tc_sent s0 @ contents (tc_output s0) @ contents (tc_input s0)"
      "p_loop_tid s1 = p_loop_tid s" "tc_self s1 = tc_self s" "dom (il_conns (te_loop s1)) = dom (il_conns (te_loop s))"
    using timeout_message [OF s0] by (auto simp: s0_def)
  have ph: "phase (Some n) s1" "tc_graceful s1" using s1(3,4) assms(2) by (simp_all add: tc_graceful_def)
  have "\<exists>s2. run_idle_events evs s1 = Inr s2 \<and> tc_state s2 = (if n \<le> count_ticks evs then kDisconnecting else kConnected)
      \<and> tc_sent s2 @ contents (tc_output s2) = tc_sent s1 @ contents (tc_output s1) \<and> tc_graceful s2"
    if "idle_events_ok interest s evs" for evs
  proof -
    have "idle_events_ok interest s1 evs" using that s1(6-8) by (simp add: idle_events_ok_def)
    from run_idle_events_Inr [OF s1(2) assms(2) ph this] show ?thesis by (auto split: if_splits)
  qed
  with run s1(1,5) b(3) show ?thesis by (intro exI [of _ s1]) (simp add: s0_def)
qed

theorem timeout_echo_witness:
  "\<exists>s1 s2. HandleRead sample_env (timeout_call sample_env) timeout_conn0 = Inr s1 \<and> tc_sent s1 @ contents (tc_output s1) = ''hi''
    \<and> run_idle_events [(sample_env, TimerTick), (sample_env, CanWrite), (sample_env, TimerTick)] s1 = Inr s2
    \<and> tc_state s2 = kDisconnecting"
proof -
  have f: "p_loop_tid timeout_conn0 = 1" "tc_self timeout_conn0 = 9" "tc_state timeout_conn0 = kConnected"
      "tc_message_callback timeout_conn0 = Some OnMessage"
      "tc_input timeout_conn0 = \<lparr>buffer_mem = ''xxxx'', read_index = 0, write_index = 0\<rparr>"
      "tc_sent timeout_conn0 = []" "contents (tc_output timeout_conn0) = []"
    by (simp_all add: timeout_conn0_def tcp_connection.defs echo_conn_def contents_def segment_def)
  have env: "env_ok (\<lambda>k. k) (p_loop_tid timeout_conn0) sample_env" using sample_env_ok f(1) by simp
  have w: "WriteableBytes (tc_input timeout_conn0) = 4" "contents (tc_input timeout_conn0) = []"
    by (simp_all add: f(5) WriteableBytes_def contents_def segment_def)
  have rd: "\<forall>fd. env_readv sample_env fd [WriteableBytes (tc_input timeout_conn0), kExtraBuf] = ReadData ''hi''"
    by (simp add: sample_env_def)
  have ok: "idle_events_ok (\<lambda>k. k) timeout_conn0 [(sample_env, TimerTick), (sample_env, CanWrite), (sample_env, TimerTick)]"
    using env by (simp add: idle_events_ok_def)
  from timeout_echo [OF timeout_conn0_inv _ f(3,4) env _ rd] f(6,7) w ok show ?thesis
    by (simp add: f(5)) fastforce
qed

text \<open>
  Remark. A new connection is watched from the start: when it comes up, the connection callback
  enters it into the wheel with the full time, so that a peer that never sends is shut down too.
\<close>

theorem timeout_established:
  assumes "te_inv interest n s" and "epoll_ctl_spec (env_ctl e) interest" and "env_tid e = p_loop_tid s"
    and "tc_state s = kConnecting" and "\<not> tc_shut s" and "contents (tc_output s) = []"
    and "tc_connection_callback s = Some OnConnectionCallback"
  shows "\<exists>s'. ConnectEstablished e (timeout_call e) s = Inr s' \<and> te_inv interest n s' \<and> tc_state s' = kConnected
    \<and> remaining s' = Some n"
proof -
  have inv: "tc_inv interest s" using assms(1) by (simp add: te_inv_def)
  obtain s1 where s1: "ConnectEstablished e (timeout_call e) s = timeout_call e OnConnectionCallback s1"
      "tc_inv interest s1" "conn_frame s s1" "tc_state s1 = kConnected"
    using establish_Inr [OF assms(2) inv assms(3-6)] assms(7) by (auto simp: call_opt_def)
  have te: "te_inv interest n s1" by (rule te_inv_frame [OF assms(1) s1(3,2)])
  have "env_tid e = p_loop_tid s1" using assms(3) conn_frame_loop [OF s1(3)] by simp
  from te_Feed_Inr [OF te this] s1(1,4) show ?thesis by (auto simp: Connected_def)
qed

theorem timeout_established_witness:
  "\<exists>s'. ConnectEstablished sample_env (timeout_call sample_env)
      (timeout_conn0\<lparr>tc_state := kConnecting, p_chans := [7 \<mapsto> conn_channel 5], p_kernel := Map.empty\<rparr>) = Inr s'
    \<and> remaining s' = Some 2"
proof -
  let ?s = "timeout_conn0\<lparr>tc_state := kConnecting, p_chans := [7 \<mapsto> conn_channel 5], p_kernel := Map.empty\<rparr>"
  have "tc_inv (\<lambda>k. k) ?s"
    by (rule tc_invI [where ch = "conn_channel 5"])
      (auto simp: timeout_conn0_def tcp_connection.defs echo_conn_def poller_inv_def conn_channel_def new_Channel_def
        buffer_inv_def contents_def segment_def is_none_event_def index_defs split: if_splits)
  then have inv: "te_inv (\<lambda>k. k) 2 ?s" using timeout_conn0_inv by (simp add: te_inv_def)
  from timeout_established [OF inv, of sample_env] sample_env_ok show ?thesis
    by (auto simp: env_ok_def timeout_conn0_def tcp_connection.defs echo_conn_def contents_def segment_def)
qed

end
