(* ===== verification/TimeoutServer.thy ===== *)
theory TimeoutServer
  imports TimeoutEcho TcpServer
begin

text \<open>
  The program around the callbacks of the theory \<open>TimeoutEcho\<close>
  (\<open>examples/echo_server/EchoServerWithTimeout.cpp\<close>, \<open>main\<close>): a server whose worker loops get a timing
  wheel each before they are handed out, and that every connection it ever makes is on such a loop.
\<close>

section \<open>The program\<close>

text \<open>The thread-init callback, \<open>EnableIdleTimeout(5)\<close>, on the loops it is called for, in order.\<close>

fun init_loops :: "nat list \<Rightarrow> (nat \<Rightarrow> idle_loop) \<Rightarrow> (nat \<Rightarrow> idle_loop) res" where
  "init_loops [] w = Inr w"
| "init_loops (l # ls) w = bindE (EnableIdleTimeout 5 (w l)) (\<lambda>s. init_loops ls (w(l := s)))"

definition timeout_main :: "(nat \<Rightarrow> nat) \<Rightarrow> nat \<Rightarrow> (nat \<Rightarrow> idle_loop) \<Rightarrow> (server \<times> (nat \<Rightarrow> idle_loop)) res" where
  "timeout_main StartLoop loop w =
     bindE (Server_SetThreadNum 4 ((new_TcpServer loop ''lqh EchoServer'')\<lparr>sv_init_callback := True\<rparr>)) (\<lambda>s.
     bindE (Server_Start StartLoop s) (\<lambda>s1.
     bindE (init_loops (tp_inits (sv_thread_pool s1)) w) (\<lambda>w1. Inr (s1, w1))))"

section \<open>Loops of connections\<close>

text \<open>A connection is on one of the pool's loops, which do not change.\<close>

definition on_pool :: "nat list \<Rightarrow> server \<Rightarrow> bool" where
  "on_pool ls s \<longleftrightarrow> ls \<noteq> [] \<and> tp_loops (sv_thread_pool s) = ls \<and> (\<forall>c k. sv_conns s c = Some k \<longrightarrow> sc_loop k \<in> set ls)"

lemma GetNextLoop_pool: "GetNextLoop p = Inr (l, p') \<Longrightarrow> tp_loops p \<noteq> [] \<Longrightarrow> l \<in> set (tp_loops p) \<and> tp_loops p' = tp_loops p"
  by (auto simp: GetNextLoop_def bindE_assertE Let_def split: if_splits)

lemma run_ConnectDestroyed_pool: "on_pool ls s \<Longrightarrow> run_ConnectDestroyed me c s = Inr s' \<Longrightarrow> on_pool ls s'"
  by (auto simp: on_pool_def run_ConnectDestroyed_def split: option.splits if_splits)

lemma run_server_task_pool:
  assumes "on_pool ls s" and "run_server_task me t s = Inr s'"
  shows "on_pool ls s'"
proof (cases t)
  case (ConnectEstablishedTask c)
  then show ?thesis using assms by (auto simp: on_pool_def split: option.splits if_splits)
next
  case (RemoveConnectionInLoopTask c)
  then have rem: "RemoveConnectionInLoop me c s = Inr s'" using assms(2) by simp
  then obtain k where k: "sv_conns s c = Some k" by (cases "sv_conns s c") (simp_all add: RemoveConnectionInLoop_def split: if_splits)
  let ?s = "s\<lparr>sv_connections := (sv_connections s)(sc_name k := None)\<rparr>"
  have r: "(if me = sc_loop k then run_ConnectDestroyed me c ?s else Inr (push_task (sc_loop k) (ConnectDestroyedTask c) ?s)) = Inr s'"
    using rem k by (cases "me = sv_loop s"; cases "sv_connections s (sc_name k) = None"; cases "me = sc_loop k") (simp_all add: RemoveConnectionInLoop_def bindE_assertE Let_def)
  have s: "on_pool ls ?s" using assms(1) by (simp add: on_pool_def)
  show ?thesis
  proof (cases "me = sc_loop k")
    case True
    then show ?thesis using run_ConnectDestroyed_pool [OF s] r by simp
  next
    case False
    then have "s' = push_task (sc_loop k) (ConnectDestroyedTask c) ?s" using r by simp
    then show ?thesis using s by (simp add: on_pool_def push_task_def)
  qed
next
  case (ConnectDestroyedTask c)
  then show ?thesis using assms run_ConnectDestroyed_pool by simp
qed

lemma on_pool_step: "on_pool ls s \<Longrightarrow> server_step s s' \<Longrightarrow> on_pool ls s'"
proof -
  assume s: "on_pool ls s"
  assume "server_step s s'"
  then show ?thesis
  proof cases
    case (sv_accept obj)
    obtain l p where p: "GetNextLoop (sv_thread_pool s) = Inr (l, p)" using sv_accept by (auto simp: NewConnectionCallback_def bindE_Inr_iff)
    have "l \<in> set ls" "tp_loops p = ls" using GetNextLoop_pool [OF p] s by (auto simp: on_pool_def)
    then show ?thesis using sv_accept p s
      by (auto simp: NewConnectionCallback_def on_pool_def push_task_def Let_def split: option.splits if_splits)
  next
    case (sv_task l t ts)
    have "on_pool ls (s\<lparr>sv_queues := (sv_queues s)(l := ts)\<rparr>)" using s by (simp add: on_pool_def)
    then show ?thesis by (rule run_server_task_pool [OF _ sv_task(2)])
  qed (use s in \<open>auto simp: on_pool_def RemoveConnection_def push_task_def\<close>)
qed

interpretation pool_servers: transition_system server_step "on_pool ls"
  by unfold_locales (rule on_pool_step)

lemma init_loops_ok:
  assumes "distinct ls" and "\<forall>l\<in>set ls. il_timing_wheel (w l) = None \<and> il_entries (w l) = Map.empty \<and> (\<forall>c e. il_conns (w l) c \<noteq> Some (Some e))"
  shows "\<exists>w'. init_loops ls w = Inr w' \<and> (\<forall>l\<in>set ls. wheel_inv 5 (w' l) \<and> idle (w' l) = Map.empty) \<and> (\<forall>l. l \<notin> set ls \<longrightarrow> w' l = w l)"
  using assms
proof (induction ls arbitrary: w)
  case (Cons l ls)
  obtain s where s: "EnableIdleTimeout 5 (w l) = Inr s" "wheel_inv 5 s" "idle s = Map.empty"
    using EnableIdleTimeout_inv [of 5 "w l"] Cons.prems(2) by auto
  obtain w' where w': "init_loops ls (w(l := s)) = Inr w'" "\<forall>l\<in>set ls. wheel_inv 5 (w' l) \<and> idle (w' l) = Map.empty"
      "\<forall>m. m \<notin> set ls \<longrightarrow> w' m = (w(l := s)) m"
  proof -
    have "distinct ls" "\<forall>m\<in>set ls. (w(l := s)) m = w m" using Cons.prems(1) by auto
    then have "\<forall>m\<in>set ls. il_timing_wheel ((w(l := s)) m) = None \<and> il_entries ((w(l := s)) m) = Map.empty
        \<and> (\<forall>c e. il_conns ((w(l := s)) m) c \<noteq> Some (Some e))"
      using Cons.prems(2) by (metis list.set_intros(2))
    from Cons.IH [OF \<open>distinct ls\<close> this] that show thesis by blast
  qed
  then show ?case using s Cons.prems(1) by (intro exI [of _ w']) auto
qed simp

section \<open>Property\<close>

text \<open>
  Property C22. The timeout server watches every connection it makes: \<open>main\<close> gives each of the four
  worker loops a wheel of five seconds, exactly one and before the server is up, leaves the main loop
  without, and in every state the server reaches each connection is on one of the four.
\<close>

theorem timeout_server_watches:
  assumes "inj_on StartLoop {..<4}" and "loop \<notin> StartLoop ` {..<4}"
    and "\<forall>l. il_timing_wheel (w l) = None \<and> il_entries (w l) = Map.empty \<and> (\<forall>c e. il_conns (w l) c \<noteq> Some (Some e))"
  shows "\<exists>s w'. timeout_main StartLoop loop w = Inr (s, w') \<and> il_timing_wheel (w' loop) = None
    \<and> (\<forall>i < 4. wheel_inv 5 (w' (StartLoop i)) \<and> idle (w' (StartLoop i)) = Map.empty)
    \<and> (\<forall>s' c k. server_step\<^sup>*\<^sup>* s s' \<and> sv_conns s' c = Some k \<longrightarrow> (\<exists>i < 4. sc_loop k = StartLoop i) \<and> wheel_inv 5 (w' (sc_loop k)))"
proof -
  let ?ls = "map StartLoop [0..<4]"
  have set_ls: "set ?ls = StartLoop ` {..<4}" by (auto simp: atLeast0LessThan [symmetric])
  obtain s1 s where s: "Server_SetThreadNum 4 ((new_TcpServer loop ''lqh EchoServer'')\<lparr>sv_init_callback := True\<rparr>) = Inr s1"
      "Server_Start StartLoop s1 = Inr s" "tp_inits (sv_thread_pool s) = ?ls" "tp_loops (sv_thread_pool s) = ?ls" "sv_conns s = Map.empty"
    by (simp add: Server_SetThreadNum_def SetThreadNum_def new_TcpServer_def new_EventLoopThreadPool_def Server_Start_def
        Pool_Start_def start_threads_fields Let_def del: upt_Suc)
  have "distinct ?ls" using assms(1) by (simp add: distinct_map atLeast0LessThan del: upt_Suc)
  from init_loops_ok [OF this, of w] assms(3) obtain w' where w': "init_loops ?ls w = Inr w'"
      "\<forall>l\<in>set ?ls. wheel_inv 5 (w' l) \<and> idle (w' l) = Map.empty" "\<forall>l. l \<notin> set ?ls \<longrightarrow> w' l = w l" by blast
  have "on_pool ?ls s" using s(4,5) by (simp add: on_pool_def del: upt_Suc)
  then have pool: "sc_loop k \<in> StartLoop ` {..<4}" if "server_step\<^sup>*\<^sup>* s s'" "sv_conns s' c = Some k" for s' c k
    using pool_servers.steps_inv [OF that(1), of ?ls] that(2) unfolding on_pool_def set_ls by blast
  have at: "\<forall>s' c k. server_step\<^sup>*\<^sup>* s s' \<and> sv_conns s' c = Some k \<longrightarrow> (\<exists>i < 4. sc_loop k = StartLoop i) \<and> wheel_inv 5 (w' (sc_loop k))"
  proof (intro allI impI)
    fix s' c k
    assume "server_step\<^sup>*\<^sup>* s s' \<and> sv_conns s' c = Some k"
    then have "sc_loop k \<in> StartLoop ` {..<4}" using pool by blast
    then show "(\<exists>i < 4. sc_loop k = StartLoop i) \<and> wheel_inv 5 (w' (sc_loop k))" using w'(2) unfolding set_ls by auto
  qed
  have "timeout_main StartLoop loop w = Inr (s, w')" using s(1-3) w'(1) by (simp add: timeout_main_def)
  then show ?thesis using w'(2,3) assms(2,3) at unfolding set_ls by (intro exI [of _ s] exI [of _ w']) simp
qed

theorem timeout_server_watches_witness:
  "\<exists>s w'. timeout_main (\<lambda>i. i + 2) 1 (\<lambda>_. idle_start) = Inr (s, w') \<and> il_timing_wheel (w' 1) = None \<and> wheel_inv 5 (w' 5)"
proof -
  have "inj_on (\<lambda>i. i + 2 :: nat) {..<4}" "(1 :: nat) \<notin> (\<lambda>i. i + 2) ` {..<4}" by (auto simp: inj_on_def)
  moreover have "\<forall>l :: nat. il_timing_wheel ((\<lambda>_. idle_start) l) = None \<and> il_entries ((\<lambda>_. idle_start) l) = Map.empty
      \<and> (\<forall>c e. il_conns ((\<lambda>_. idle_start) l) c \<noteq> Some (Some e))"
    by (simp add: idle_start_def)
  ultimately obtain s w' where "timeout_main (\<lambda>i. i + 2) 1 (\<lambda>_. idle_start) = Inr (s, w')" "il_timing_wheel (w' 1) = None"
      "\<forall>i < 4. wheel_inv 5 (w' (i + 2)) \<and> idle (w' (i + 2)) = Map.empty"
    using timeout_server_watches [of "\<lambda>i. i + 2" 1 "\<lambda>_. idle_start"] by blast
  moreover have "wheel_inv 5 (w' (3 + 2))" using calculation(3) by (rule allE [of _ 3]) simp
  ultimately show ?thesis by (intro exI [of _ s] exI [of _ w']) simp
qed

end
