(* ===== verification/SimpleEcho.thy ===== *)
theory SimpleEcho
  imports EpollPoller Transitions
begin

unbundle bit_operations_syntax

text \<open>
  The small echo server written directly on channels
  (\<open>examples/echo_server/simple_echo_sever.cpp\<close>): one channel on the listening socket, one per
  accepted connection, kept in a vector until the program ends. The state extends the loop's
  poller; the sockets are the bytes read from and taken by each descriptor. The signal that a write to
  a reset connection raises kills the process.
\<close>

section \<open>State\<close>

text \<open>The two callbacks; the second captures the descriptor and the channel.\<close>

datatype simple_callback = AcceptCallback | EchoCallback int nat

record 'k simple_server = "(simple_callback, 'k) poller" +
  ss_listenChannel :: nat
  ss_clinetChannel :: "nat option list"
  ss_received :: "int \<Rightarrow> char list"
  ss_sent :: "int \<Rightarrow> char list"

datatype read_result = ReadFails int | ReadGets "char list"

datatype write_outcome = WriteFails int | WriteTakes nat

text \<open>
  What a callback takes from outside: the calling thread, \<open>epoll_ctl\<close>, what \<open>accept4\<close> returns and the
  address of the next \<open>Channel\<close>, \<open>read\<close> and \<open>write\<close>.
\<close>

record 'k simple_env =
  se_tid :: int
  se_ctl :: "'k epoll_ctl_fun"
  se_accept :: int
  se_new :: nat
  se_read :: "int \<Rightarrow> nat \<Rightarrow> read_result"
  se_write :: "int \<Rightarrow> char list \<Rightarrow> write_outcome"

section \<open>The program\<close>

definition kReadSize :: nat where
  "kReadSize = 1024"

definition on_accept :: "'k simple_env \<Rightarrow> 'k simple_server \<Rightarrow> 'k simple_server res" where
  "on_accept e s =
     (let connFd = se_accept e in
      if connFd < 0 then Inr s
      else let c = se_new e;
               connChannel = (new_Channel connFd)\<lparr>ch_read_callback := Some (EchoCallback connFd c)\<rparr>;
               s1 = (create_channel c connChannel s)\<lparr>ss_clinetChannel := ss_clinetChannel s @ [Some c]\<rparr>
           in EnableReading (se_ctl e) (se_tid e) c s1)"

text \<open>
  A \<open>write\<close> to a connection that the peer has reset fails with \<open>EPIPE\<close> and raises \<open>SIGPIPE\<close>, which the
  program does not ignore: the process ends there. Every other result of \<open>write\<close> is dropped.
\<close>

definition errno_EPIPE :: int where
  "errno_EPIPE = 32"

definition on_readable :: "'k simple_env \<Rightarrow> int \<Rightarrow> nat \<Rightarrow> 'k simple_server \<Rightarrow> 'k simple_server res" where
  "on_readable e connFd connChannel s =
     (case se_read e connFd kReadSize of
        ReadGets buf \<Rightarrow>
          if buf \<noteq> []
          then (let s1 = s\<lparr>ss_received := (ss_received s)(connFd := ss_received s connFd @ buf)\<rparr>
                in case se_write e connFd buf of
                     WriteTakes n \<Rightarrow> Inr (s1\<lparr>ss_sent := (ss_sent s)(connFd := ss_sent s connFd @ take n buf)\<rparr>)
                   | WriteFails err \<Rightarrow> if err = errno_EPIPE then Inl Killed else Inr s1)
          else LoopRemoveChannel (se_ctl e) (se_tid e) connChannel s
      | ReadFails err \<Rightarrow> LoopRemoveChannel (se_ctl e) (se_tid e) connChannel s)"

fun simple_call :: "'k simple_env \<Rightarrow> simple_callback \<Rightarrow> 'k simple_server \<Rightarrow> 'k simple_server res" where
  "simple_call e AcceptCallback s = on_accept e s"
| "simple_call e (EchoCallback connFd connChannel) s = on_readable e connFd connChannel s"

text \<open>The loop runs \<open>HandleEvent\<close> on an active channel.\<close>

definition simple_HandleEvent :: "'k simple_env \<Rightarrow> nat \<Rightarrow> 'k simple_server \<Rightarrow> 'k simple_server res" where
  "simple_HandleEvent e c s =
     (case p_chans s c of
        None \<Rightarrow> Inl UseAfterFree
      | Some _ \<Rightarrow> HandleEvent (simple_call e) (\<lambda>_ _. True) (\<lambda>s. the (p_chans s c)) s)"

text \<open>
  \<open>main\<close> up to \<open>loop.Loop()\<close>: \<open>listenFd\<close> and \<open>res\<close> are what \<open>socket\<close> and \<open>bind\<close> return, \<open>c\<close> the address of
  \<open>listenChannel\<close>; a failed \<open>bind\<close> ends the program. The vector starts with ten null pointers.
\<close>

definition simple_main :: "'k epoll_ctl_fun \<Rightarrow> int \<Rightarrow> int \<Rightarrow> int \<Rightarrow> nat \<Rightarrow> (simple_callback, 'k) poller \<Rightarrow>
    'k simple_server option res" where
  "simple_main ctl me listenFd res c loop =
     (if res = - 1 then Inr None
      else let listenChannel = (new_Channel listenFd)\<lparr>ch_read_callback := Some AcceptCallback\<rparr>;
               s = poller.extend (create_channel c listenChannel loop)
                     (simple_server.fields c (replicate 10 None) (\<lambda>_. []) (\<lambda>_. []))
           in bindE (EnableReading ctl me c s) (\<lambda>s'. Inr (Some s')))"

text \<open>After \<open>Loop\<close>: \<open>delete\<close> on every pointer of the vector; a null pointer is left alone.\<close>

fun delete_channels :: "nat option list \<Rightarrow> 'k simple_server \<Rightarrow> 'k simple_server res" where
  "delete_channels [] s = Inr s"
| "delete_channels (None # cs) s = delete_channels cs s"
| "delete_channels (Some c # cs) s =
     (if p_chans s c = None then Inl UseAfterFree else delete_channels cs (destroy_channel c s))"

section \<open>Invariant\<close>

text \<open>
  Every channel has its own read callback only; the vector holds each connection's channel once, and
  no other.
\<close>

definition ss_inv :: "('k \<Rightarrow> int \<rightharpoonup> epoll_event) \<Rightarrow> 'k simple_server \<Rightarrow> bool" where
  "ss_inv interest s \<longleftrightarrow> poller_inv interest s
     \<and> (\<forall>c ch. p_chans s c = Some ch \<longrightarrow> \<not> ch_tied ch \<and> ch_write_callback ch = None \<and> ch_error_callback ch = None
          \<and> ch_close_callback ch = None
          \<and> ch_read_callback ch = Some (if c = ss_listenChannel s then AcceptCallback else EchoCallback (ch_fd ch) c))
     \<and> dom (p_chans s) = insert (ss_listenChannel s) {c. Some c \<in> set (ss_clinetChannel s)}
     \<and> distinct (filter (\<lambda>x. x \<noteq> None) (ss_clinetChannel s)) \<and> Some (ss_listenChannel s) \<notin> set (ss_clinetChannel s)"

text \<open>
  Documented behaviour of the calls: \<open>accept4\<close> returns a descriptor no open one equals, and the program
  closes none; \<open>new\<close> returns a free address; \<open>write\<close> takes at most what it is given.
\<close>

definition simple_env_ok :: "('k \<Rightarrow> int \<rightharpoonup> epoll_event) \<Rightarrow> 'k simple_server \<Rightarrow> 'k simple_env \<Rightarrow> bool" where
  "simple_env_ok interest s e \<longleftrightarrow> epoll_ctl_spec (se_ctl e) interest \<and> se_tid e = p_loop_tid s
     \<and> (0 \<le> se_accept e \<longrightarrow> (\<forall>c ch. p_chans s c = Some ch \<longrightarrow> ch_fd ch \<noteq> se_accept e))
     \<and> p_chans s (se_new e) = None
     \<and> (\<forall>fd d n. se_write e fd d = WriteTakes n \<longrightarrow> n \<le> length d)"

lemma ss_invD:
  assumes "ss_inv interest s"
  shows "poller_inv interest s"
    "p_chans s c = Some ch \<Longrightarrow> \<not> ch_tied ch \<and> ch_write_callback ch = None \<and> ch_error_callback ch = None
       \<and> ch_close_callback ch = None
       \<and> ch_read_callback ch = Some (if c = ss_listenChannel s then AcceptCallback else EchoCallback (ch_fd ch) c)"
    "dom (p_chans s) = insert (ss_listenChannel s) {c. Some c \<in> set (ss_clinetChannel s)}"
    "distinct (filter (\<lambda>x. x \<noteq> None) (ss_clinetChannel s))" "Some (ss_listenChannel s) \<notin> set (ss_clinetChannel s)"
  using assms by (simp_all add: ss_inv_def)

lemma ss_invI:
  assumes "poller_inv interest s"
    "\<And>c ch. p_chans s c = Some ch \<Longrightarrow> \<not> ch_tied ch \<and> ch_write_callback ch = None \<and> ch_error_callback ch = None
       \<and> ch_close_callback ch = None
       \<and> ch_read_callback ch = Some (if c = ss_listenChannel s then AcceptCallback else EchoCallback (ch_fd ch) c)"
    "dom (p_chans s) = insert (ss_listenChannel s) {c. Some c \<in> set (ss_clinetChannel s)}"
    "distinct (filter (\<lambda>x. x \<noteq> None) (ss_clinetChannel s))" "Some (ss_listenChannel s) \<notin> set (ss_clinetChannel s)"
  shows "ss_inv interest s"
  using assms by (simp add: ss_inv_def)

lemma ss_inv_streams [simp]:
  "ss_inv interest (s\<lparr>ss_received := r, ss_sent := t\<rparr>) = ss_inv interest s"
  "ss_inv interest (s\<lparr>ss_received := r\<rparr>) = ss_inv interest s"
  by (simp_all add: ss_inv_def poller_inv_def)

lemma on_accept_Inr:
  assumes inv: "ss_inv interest s" and env: "simple_env_ok interest s e"
  shows "\<exists>s'. on_accept e s = Inr s' \<and> ss_inv interest s' \<and> p_loop_tid s' = p_loop_tid s
    \<and> ss_received s' = ss_received s \<and> ss_sent s' = ss_sent s \<and> dom (p_chans s) \<subseteq> dom (p_chans s')
    \<and> (0 \<le> se_accept e \<longrightarrow> interest (p_kernel s') (se_accept e) = Some (kReadEvent, se_new e))"
proof (cases "se_accept e < 0")
  case True
  then show ?thesis using inv by (simp add: on_accept_def)
next
  case False
  let ?c = "se_new e" and ?fd = "se_accept e"
  let ?ch = "(new_Channel ?fd)\<lparr>ch_read_callback := Some (EchoCallback ?fd ?c)\<rparr>"
  have e: "epoll_ctl_spec (se_ctl e) interest" "se_tid e = p_loop_tid s" "p_chans s ?c = None"
      "\<And>c ch. p_chans s c = Some ch \<Longrightarrow> ch_fd ch \<noteq> ?fd"
    using env False by (simp_all add: simple_env_ok_def)
  define s1 where "s1 = (create_channel ?c ?ch s)\<lparr>ss_clinetChannel := ss_clinetChannel s @ [Some ?c]\<rparr>"
  have "poller_inv interest (create_channel ?c ?ch s)"
    by (rule create_channel_inv [OF ss_invD(1) [OF inv] e(3)]) (use e(4) in \<open>simp_all add: new_Channel_fields\<close>)
  then have p1: "poller_inv interest s1" using poller_inv_cong [of s1 "create_channel ?c ?ch s" interest] by (simp add: s1_def)
  have c1: "p_chans s1 ?c = Some ?ch" "se_tid e = p_loop_tid s1" using e(2) by (simp_all add: s1_def create_channel_def)
  define ch' where "ch' = ?ch\<lparr>ch_events := kReadEvent, ch_index := kAdded\<rparr>"
  obtain k m where r: "EnableReading (se_ctl e) (se_tid e) ?c s1 =
        Inr (s1\<lparr>p_chans := (p_chans s1)(?c \<mapsto> ch'), p_channels := m, p_kernel := k\<rparr>)"
      "poller_inv interest (s1\<lparr>p_chans := (p_chans s1)(?c \<mapsto> ch'), p_channels := m, p_kernel := k\<rparr>)"
    using EnableReading_new [OF e(1) p1 c1(1) _ _ c1(2), folded ch'_def] new_Channel_fields by auto
  define s' where "s' = s1\<lparr>p_chans := (p_chans s1)(?c \<mapsto> ch'), p_channels := m, p_kernel := k\<rparr>"
  have run: "on_accept e s = Inr s'" using False r(1) by (simp add: on_accept_def s'_def s1_def Let_def)
  have c: "?c \<noteq> ss_listenChannel s" "Some ?c \<notin> set (ss_clinetChannel s)"
    using ss_invD(3) [OF inv] e(3) by auto
  have new: "\<not> ch_tied ch' \<and> ch_write_callback ch' = None \<and> ch_error_callback ch' = None \<and> ch_close_callback ch' = None
      \<and> ch_read_callback ch' = Some (EchoCallback ?fd ?c) \<and> ch_fd ch' = ?fd \<and> ch_index ch' = kAdded \<and> ch_events ch' = kReadEvent"
    by (simp add: ch'_def new_Channel_def)
  have "ss_inv interest s'"
  proof (rule ss_invI)
    show "poller_inv interest s'" using r(2) by (simp add: s'_def)
    fix d dh assume "p_chans s' d = Some dh"
    then show "\<not> ch_tied dh \<and> ch_write_callback dh = None \<and> ch_error_callback dh = None \<and> ch_close_callback dh = None
        \<and> ch_read_callback dh = Some (if d = ss_listenChannel s' then AcceptCallback else EchoCallback (ch_fd dh) d)"
      using new c(1) ss_invD(2) [OF inv, of d dh]
      by (cases "d = ?c") (auto simp: s'_def s1_def create_channel_def)
  next
    show "dom (p_chans s') = insert (ss_listenChannel s') {c. Some c \<in> set (ss_clinetChannel s')}"
      using ss_invD(3) [OF inv] by (auto simp: s'_def s1_def create_channel_def)
    show "distinct (filter (\<lambda>x. x \<noteq> None) (ss_clinetChannel s'))" using ss_invD(4) [OF inv] c(2) by (simp add: s'_def s1_def create_channel_def)
    show "Some (ss_listenChannel s') \<notin> set (ss_clinetChannel s')" using ss_invD(5) [OF inv] c(1) by (simp add: s'_def s1_def create_channel_def)
  qed
  moreover have "interest (p_kernel s') ?fd = Some (kReadEvent, ?c)"
    using poller_inv_added [of interest s' ?c ch'] ss_invD(1) [OF calculation] new by (simp add: s'_def)
  ultimately show ?thesis using run by (auto simp: s'_def s1_def create_channel_def)
qed

text \<open>What every callback keeps.\<close>

definition ss_frame :: "'k simple_server \<Rightarrow> 'k simple_server \<Rightarrow> bool" where
  "ss_frame s s' \<longleftrightarrow> p_loop_tid s' = p_loop_tid s \<and> dom (p_chans s) \<subseteq> dom (p_chans s')"

text \<open>A callback that reads data and whose \<open>write\<close> fails with \<open>EPIPE\<close>.\<close>

definition raises_sigpipe :: "'k simple_env \<Rightarrow> int \<Rightarrow> bool" where
  "raises_sigpipe e connFd \<longleftrightarrow> (case se_read e connFd kReadSize of
     ReadGets buf \<Rightarrow> buf \<noteq> [] \<and> se_write e connFd buf = WriteFails errno_EPIPE | ReadFails err \<Rightarrow> False)"

lemma on_readable_killed: "raises_sigpipe e connFd \<Longrightarrow> on_readable e connFd c s = Inl Killed"
  by (simp add: raises_sigpipe_def on_readable_def split: read_result.splits)

lemma on_readable_Inr:
  assumes inv: "ss_inv interest s" and env: "simple_env_ok interest s e" and c: "p_chans s c = Some ch" "c \<noteq> ss_listenChannel s"
    and alive: "\<not> raises_sigpipe e (ch_fd ch)"
  shows "\<exists>s'. on_readable e (ch_fd ch) c s = Inr s' \<and> ss_inv interest s' \<and> ss_frame s s'
    \<and> (case se_read e (ch_fd ch) kReadSize of
         ReadGets d \<Rightarrow> (if d = [] then interest (p_kernel s') (ch_fd ch) = None \<and> ss_received s' = ss_received s \<and> ss_sent s' = ss_sent s
           else ss_received s' = (ss_received s)(ch_fd ch := ss_received s (ch_fd ch) @ d)
              \<and> ss_sent s' = (ss_sent s)(ch_fd ch := ss_sent s (ch_fd ch) @
                  (case se_write e (ch_fd ch) d of WriteTakes n \<Rightarrow> take n d | WriteFails err \<Rightarrow> [])))
       | ReadFails err \<Rightarrow> interest (p_kernel s') (ch_fd ch) = None \<and> ss_received s' = ss_received s \<and> ss_sent s' = ss_sent s)"
proof -
  have e: "epoll_ctl_spec (se_ctl e) interest" "se_tid e = p_loop_tid s" using env by (simp_all add: simple_env_ok_def)
  define ch' where "ch' = (if ch_index ch = kAdded then ch\<lparr>ch_index := kDeleted\<rparr> else ch)"
  obtain k where k: "LoopRemoveChannel (se_ctl e) (se_tid e) c s = Inr (s\<lparr>p_chans := (p_chans s)(c \<mapsto> ch'), p_kernel := k\<rparr>)"
      "interest k = (interest (p_kernel s))(ch_fd ch := None)"
      "poller_inv interest (s\<lparr>p_chans := (p_chans s)(c \<mapsto> ch'), p_kernel := k\<rparr>)"
    using RemoveChannel_Inr [OF e(1) ss_invD(1) [OF inv] c(1) e(2), folded ch'_def] by blast
  let ?s = "s\<lparr>p_chans := (p_chans s)(c \<mapsto> ch'), p_kernel := k\<rparr>"
  have "ss_inv interest ?s"
  proof (rule ss_invI)
    fix d dh assume "p_chans ?s d = Some dh"
    then show "\<not> ch_tied dh \<and> ch_write_callback dh = None \<and> ch_error_callback dh = None \<and> ch_close_callback dh = None
        \<and> ch_read_callback dh = Some (if d = ss_listenChannel ?s then AcceptCallback else EchoCallback (ch_fd dh) d)"
      using ss_invD(2) [OF inv, of d] ss_invD(2) [OF inv c(1)] by (cases "d = c") (auto simp: ch'_def split: if_splits)
  next
    show "dom (p_chans ?s) = insert (ss_listenChannel ?s) {c. Some c \<in> set (ss_clinetChannel ?s)}"
      using ss_invD(3) [OF inv] c(1) by auto
  qed (use k(3) ss_invD(4,5) [OF inv] in simp_all)
  moreover have "ss_frame s ?s" by (auto simp: ss_frame_def)
  ultimately have gone: "\<exists>s'. LoopRemoveChannel (se_ctl e) (se_tid e) c s = Inr s' \<and> ss_inv interest s' \<and> ss_frame s s'
      \<and> interest (p_kernel s') (ch_fd ch) = None \<and> ss_received s' = ss_received s \<and> ss_sent s' = ss_sent s"
    using k(1,2) by simp
  show ?thesis
  proof (cases "se_read e (ch_fd ch) kReadSize")
    case (ReadFails err)
    then show ?thesis using gone by (simp add: on_readable_def)
  next
    case (ReadGets d)
    have keep: "ss_inv interest (s\<lparr>ss_received := r, ss_sent := t\<rparr>)" "ss_inv interest (s\<lparr>ss_received := r\<rparr>)" for r t
      using inv by simp_all
    show ?thesis
    proof (cases "d = []")
      case True
      then show ?thesis using gone ReadGets by (simp add: on_readable_def)
    next
      case False
      then show ?thesis using ReadGets alive keep
        by (cases "se_write e (ch_fd ch) d") (auto simp: on_readable_def ss_frame_def raises_sigpipe_def Let_def)
    qed
  qed
qed

text \<open>The dispatch on a channel with a read callback only.\<close>

lemma simple_HandleEvent_eq:
  assumes "ss_inv interest s" and "p_chans s c = Some ch"
  shows "simple_HandleEvent e c s =
    (if ch_revents ch AND (EPOLLIN OR EPOLLPRI OR EPOLLRDHUP) \<noteq> 0
     then (if c = ss_listenChannel s then on_accept e s else on_readable e (ch_fd ch) c s) else Inr s)"
  using ss_invD(2) [OF assms] assms(2)
  by (simp add: simple_HandleEvent_def HandleEvent_read_only call_if_def)

text \<open>Whether handling channel \<open>c\<close> ends the process.\<close>

definition event_killed :: "'k simple_env \<Rightarrow> nat \<Rightarrow> 'k simple_server \<Rightarrow> bool" where
  "event_killed e c s \<longleftrightarrow> c \<noteq> ss_listenChannel s \<and> (\<exists>ch. p_chans s c = Some ch
     \<and> ch_revents ch AND (EPOLLIN OR EPOLLPRI OR EPOLLRDHUP) \<noteq> 0 \<and> raises_sigpipe e (ch_fd ch))"

lemma simple_HandleEvent_outcome:
  assumes inv: "ss_inv interest s" and env: "simple_env_ok interest s e" and c: "c \<in> dom (p_chans s)"
  shows "if event_killed e c s then simple_HandleEvent e c s = Inl Killed
    else \<exists>s'. simple_HandleEvent e c s = Inr s' \<and> ss_inv interest s' \<and> ss_frame s s'"
proof -
  obtain ch where ch: "p_chans s c = Some ch" using c by auto
  note eq = simple_HandleEvent_eq [OF inv ch, of e]
  show ?thesis
  proof (cases "c = ss_listenChannel s")
    case True
    then show ?thesis using eq on_accept_Inr [OF inv env] inv by (auto simp: ss_frame_def event_killed_def)
  next
    case False
    show ?thesis
    proof (cases "raises_sigpipe e (ch_fd ch)")
      case True
      then show ?thesis using eq False ch inv on_readable_killed [OF True, of c s] by (auto simp: event_killed_def ss_frame_def)
    next
      case alive: False
      then show ?thesis using eq on_readable_Inr [OF inv env ch False alive] inv False ch by (auto simp: ss_frame_def event_killed_def)
    qed
  qed
qed

section \<open>Runs\<close>

inductive simple_step :: "('k \<Rightarrow> int \<rightharpoonup> epoll_event) \<Rightarrow> 'k simple_server \<Rightarrow> 'k simple_server \<Rightarrow> bool" for interest where
  polled: "epoll_wait_spec wait interest \<Longrightarrow> Poll wait 10000 s = Inr (active, s') \<Longrightarrow> simple_step interest s s'"
| event: "simple_env_ok interest s e \<Longrightarrow> c \<in> dom (p_chans s) \<Longrightarrow> simple_HandleEvent e c s = Inr s' \<Longrightarrow>
    simple_step interest s s'"

inductive_cases simple_stepE: "simple_step interest s s'"

lemma Poll_ss_inv:
  assumes inv: "ss_inv interest s" and w: "epoll_wait_spec wait interest" and p: "Poll wait t s = Inr (active, s')"
  shows "ss_inv interest s' \<and> ss_received s' = ss_received s \<and> ss_sent s' = ss_sent s"
proof -
  obtain evs where "wait (p_kernel s) (p_events_size s) t = WaitEvents evs"
    using p by (cases "wait (p_kernel s) (p_events_size s) t") (simp_all add: Poll_def)
  from Poll_Inr [OF w ss_invD(1) [OF inv] this] p
  have r: "poller_inv interest s'" "poller.more s' = poller.more s"
      "\<And>c. p_chans s' c = map_option (with_revents evs c) (p_chans s c)"
    by auto
  have more: "ss_listenChannel s' = ss_listenChannel s" "ss_clinetChannel s' = ss_clinetChannel s"
      "ss_received s' = ss_received s" "ss_sent s' = ss_sent s"
    using r(2) by (cases s; cases s'; simp)+
  have "ss_inv interest s'"
  proof (rule ss_invI)
    fix c ch assume "p_chans s' c = Some ch"
    then show "\<not> ch_tied ch \<and> ch_write_callback ch = None \<and> ch_error_callback ch = None \<and> ch_close_callback ch = None
        \<and> ch_read_callback ch = Some (if c = ss_listenChannel s' then AcceptCallback else EchoCallback (ch_fd ch) c)"
      using r(3) [of c] ss_invD(2) [OF inv, of c] more by auto
  next
    have "dom (p_chans s') = dom (p_chans s)" using r(3) by auto
    then show "dom (p_chans s') = insert (ss_listenChannel s') {c. Some c \<in> set (ss_clinetChannel s')}"
      using ss_invD(3) [OF inv] more by simp
  qed (use r(1) ss_invD(4,5) [OF inv] more in simp_all)
  with more show ?thesis by simp
qed

lemma simple_step_inv: "ss_inv interest s \<Longrightarrow> simple_step interest s s' \<Longrightarrow> ss_inv interest s'"
proof (elim simple_stepE)
  fix wait active
  assume "ss_inv interest s" "epoll_wait_spec wait interest" "Poll wait 10000 s = Inr (active, s')"
  then show "ss_inv interest s'" using Poll_ss_inv by blast
next
  fix e c
  assume "ss_inv interest s" "simple_env_ok interest s e" "c \<in> dom (p_chans s)" "simple_HandleEvent e c s = Inr s'"
  then show "ss_inv interest s'" using simple_HandleEvent_outcome [of interest s e c] by (auto split: if_splits)
qed

interpretation simple: transition_system "simple_step interest" "ss_inv interest"
  by unfold_locales (rule simple_step_inv)

section \<open>Start and end\<close>

lemma simple_main_inv:
  assumes spec: "epoll_ctl_spec ctl interest" and loop: "poller_inv interest loop" "p_chans loop = Map.empty" "me = p_loop_tid loop"
    and ok: "res \<noteq> - 1"
  shows "\<exists>s. simple_main ctl me listenFd res c loop = Inr (Some s) \<and> ss_inv interest s \<and> ss_listenChannel s = c
    \<and> p_loop_tid s = me \<and> ss_received s = (\<lambda>_. []) \<and> ss_sent s = (\<lambda>_. [])"
proof -
  define ch :: "simple_callback channel" where "ch = (new_Channel listenFd)\<lparr>ch_read_callback := Some AcceptCallback\<rparr>"
  define s0 where "s0 = poller.extend (create_channel c ch loop) (simple_server.fields c (replicate 10 None) (\<lambda>_. []) (\<lambda>_. []))"
  have eq: "p_chans s0 = p_chans (create_channel c ch loop)" "p_kernel s0 = p_kernel (create_channel c ch loop)"
    by (simp_all add: s0_def poller.defs)
  have "poller_inv interest (create_channel c ch loop)"
    by (rule create_channel_inv [OF loop(1)]) (use loop(2) in \<open>simp_all add: ch_def new_Channel_fields\<close>)
  then have p0: "poller_inv interest s0" "p_chans s0 = [c \<mapsto> ch]" "me = p_loop_tid s0"
    using poller_inv_cong [OF eq] eq(1) loop(2,3) by (simp_all add: s0_def create_channel_def poller.defs)
  define ch' where "ch' = ch\<lparr>ch_events := kReadEvent, ch_index := kAdded\<rparr>"
  have c0: "p_chans s0 c = Some ch" "ch_index ch = kNew" "ch_events ch = kNoneEvent"
    using p0(2) by (simp_all add: ch_def new_Channel_fields)
  obtain k m where r: "EnableReading ctl me c s0 = Inr (s0\<lparr>p_chans := (p_chans s0)(c \<mapsto> ch'), p_channels := m, p_kernel := k\<rparr>)"
      "poller_inv interest (s0\<lparr>p_chans := (p_chans s0)(c \<mapsto> ch'), p_channels := m, p_kernel := k\<rparr>)"
    using EnableReading_new [OF spec p0(1) c0 p0(3), folded ch'_def] by blast
  define s where "s = s0\<lparr>p_chans := (p_chans s0)(c \<mapsto> ch'), p_channels := m, p_kernel := k\<rparr>"
  have f: "ss_listenChannel s = c" "ss_clinetChannel s = replicate 10 None" "ss_received s = (\<lambda>_. [])" "ss_sent s = (\<lambda>_. [])"
      "p_loop_tid s = me" "p_chans s = [c \<mapsto> ch']"
    using loop(3) p0(2) by (simp_all add: s_def s0_def poller.defs simple_server.defs create_channel_def)
  have "ss_inv interest s"
  proof (rule ss_invI)
    show "poller_inv interest s" using r(2) by (simp add: s_def)
  qed (auto simp: f ch'_def ch_def new_Channel_def split: if_splits)
  moreover have "simple_main ctl me listenFd res c loop = Inr (Some s)"
    using ok r(1) by (simp add: simple_main_def s0_def ch_def s_def Let_def)
  ultimately show ?thesis using f by blast
qed

lemma delete_channels_Inr:
  assumes "distinct (filter (\<lambda>x. x \<noteq> None) cs)" and "{c. Some c \<in> set cs} \<subseteq> dom (p_chans s)"
  shows "\<exists>s'. delete_channels cs s = Inr s' \<and> dom (p_chans s') = dom (p_chans s) - {c. Some c \<in> set cs}"
  using assms
proof (induction cs arbitrary: s)
  case (Cons x cs)
  show ?case
  proof (cases x)
    case None
    then show ?thesis using Cons by simp
  next
    case (Some c)
    have "p_chans s c \<noteq> None" using Cons.prems(2) Some by auto
    moreover have d: "dom (p_chans (destroy_channel c s)) = dom (p_chans s) - {c}" by (auto simp: destroy_channel_def)
    have "{c. Some c \<in> set cs} \<subseteq> dom (p_chans (destroy_channel c s))"
      unfolding d using Cons.prems Some by auto
    with Cons.IH [of "destroy_channel c s"] Cons.prems(1) Some
    obtain s' where "delete_channels cs (destroy_channel c s) = Inr s'"
        "dom (p_chans s') = dom (p_chans s) - {c} - {c. Some c \<in> set cs}"
      unfolding d by auto
    moreover have "dom (p_chans s) - {c} - {c. Some c \<in> set cs} = dom (p_chans s) - {d. Some d \<in> set (x # cs)}"
      using Some by auto
    ultimately show ?thesis using Some by simp
  qed
qed simp

definition simple_loop :: "(simple_callback, int \<rightharpoonup> epoll_event) poller" where
  "simple_loop = \<lparr>p_loop_tid = 1, p_chans = Map.empty, p_channels = Map.empty, p_kernel = Map.empty,
     p_events_size = 16, p_events_cap = 16\<rparr>"

lemma simple_loop_inv: "poller_inv (\<lambda>k. k) simple_loop"
  by (simp add: poller_inv_def simple_loop_def)

section \<open>Properties\<close>

text \<open>
  Property C40. What can go wrong in the small echo server once \<open>bind\<close> has succeeded, whatever
  connections come and whatever the sockets do: a poll succeeds and reports channels that exist,
  unless \<open>epoll_wait\<close> fails, which aborts; handling a channel that exists succeeds, unless it writes to
  a connection that the peer has reset, when \<open>SIGPIPE\<close> ends the process; and when the loop ends,
  deleting the vector's channels frees each connection's channel exactly once and no other.
\<close>

theorem simple_echo_safe:
  assumes "epoll_ctl_spec ctl interest" and "poller_inv interest loop" and "p_chans loop = Map.empty" and "me = p_loop_tid loop"
    and "simple_main ctl me listenFd res c loop = Inr (Some s0)" and "(simple_step interest)\<^sup>*\<^sup>* s0 s"
  shows "(\<forall>wait. epoll_wait_spec wait interest \<longrightarrow> (case wait (p_kernel s) (p_events_size s) 10000 of
        WaitErr err \<Rightarrow> Poll wait 10000 s = Inl Aborted
      | WaitEvents evs \<Rightarrow> \<exists>active s'. Poll wait 10000 s = Inr (active, s') \<and> set active \<subseteq> dom (p_chans s')))
    \<and> (\<forall>e d. simple_env_ok interest s e \<and> d \<in> dom (p_chans s) \<longrightarrow>
        (if event_killed e d s then simple_HandleEvent e d s = Inl Killed
         else \<exists>s'. simple_HandleEvent e d s = Inr s' \<and> dom (p_chans s) \<subseteq> dom (p_chans s')))
    \<and> (\<exists>s'. delete_channels (ss_clinetChannel s) s = Inr s' \<and> dom (p_chans s') = {ss_listenChannel s})"
proof -
  have "res \<noteq> - 1" using assms(5) by (auto simp: simple_main_def)
  then have "ss_inv interest s0" using simple_main_inv [OF assms(1-4), of res listenFd c] assms(5) by auto
  then have inv: "ss_inv interest s" by (rule simple.steps_inv [OF assms(6)])
  have "dom (p_chans s) - {c. Some c \<in> set (ss_clinetChannel s)} = {ss_listenChannel s}"
    using ss_invD(3,5) [OF inv] by auto
  then have "\<exists>s'. delete_channels (ss_clinetChannel s) s = Inr s' \<and> dom (p_chans s') = {ss_listenChannel s}"
    using delete_channels_Inr [OF ss_invD(4) [OF inv], of s] ss_invD(3) [OF inv] by auto
  moreover have "case wait (p_kernel s) (p_events_size s) 10000 of
        WaitErr err \<Rightarrow> Poll wait 10000 s = Inl Aborted
      | WaitEvents evs \<Rightarrow> \<exists>active s'. Poll wait 10000 s = Inr (active, s') \<and> set active \<subseteq> dom (p_chans s')"
    if w: "epoll_wait_spec wait interest" for wait
  proof (cases "wait (p_kernel s) (p_events_size s) 10000")
    case (WaitEvents evs)
    from Poll_Inr [OF w ss_invD(1) [OF inv] WaitEvents]
    obtain s' where "Poll wait 10000 s = Inr (map snd evs, s')" "set (map snd evs) \<subseteq> dom (p_chans s')" by (auto simp: subset_iff)
    then show ?thesis using WaitEvents by auto
  qed (simp add: Poll_def)
  moreover have "if event_killed e d s then simple_HandleEvent e d s = Inl Killed
      else \<exists>s'. simple_HandleEvent e d s = Inr s' \<and> dom (p_chans s) \<subseteq> dom (p_chans s')"
    if "simple_env_ok interest s e \<and> d \<in> dom (p_chans s)" for e d
    using simple_HandleEvent_outcome [OF inv, of e d] that by (auto simp: ss_frame_def split: if_splits)
  ultimately show ?thesis by blast
qed

text \<open>
  A run: the listening channel becomes readable, a connection is accepted on descriptor 4 with the
  channel at 8, and becomes readable in turn.
\<close>

definition simple_start :: "u32 \<Rightarrow> (int \<rightharpoonup> epoll_event) simple_server" where
  "simple_start ev = \<lparr>p_loop_tid = 1,
     p_chans = [7 \<mapsto> (new_Channel 3)\<lparr>ch_read_callback := Some AcceptCallback, ch_events := kReadEvent, ch_index := kAdded, ch_revents := ev\<rparr>],
     p_channels = [3 \<mapsto> 7], p_kernel = [3 \<mapsto> (kReadEvent, 7)], p_events_size = 16, p_events_cap = 16,
     ss_listenChannel = 7, ss_clinetChannel = replicate 10 None, ss_received = (\<lambda>_. []), ss_sent = (\<lambda>_. [])\<rparr>"

definition simple_conn_at :: "u32 \<Rightarrow> (int \<rightharpoonup> epoll_event) simple_server" where
  "simple_conn_at ev = (simple_start EPOLLIN)\<lparr>
     p_chans := (p_chans (simple_start EPOLLIN))(8 \<mapsto>
       (new_Channel 4)\<lparr>ch_read_callback := Some (EchoCallback 4 8), ch_events := kReadEvent, ch_index := kAdded, ch_revents := ev\<rparr>),
     p_channels := [3 \<mapsto> 7, 4 \<mapsto> 8], p_kernel := [3 \<mapsto> (kReadEvent, 7), 4 \<mapsto> (kReadEvent, 8)],
     ss_clinetChannel := replicate 10 None @ [Some 8]\<rparr>"

definition simple_env0 :: "int \<Rightarrow> nat \<Rightarrow> (int \<rightharpoonup> epoll_event) simple_env" where
  "simple_env0 fd c = \<lparr>se_tid = 1, se_ctl = ref_ctl, se_accept = fd, se_new = c, se_read = (\<lambda>_ _. ReadGets ''abc''),
     se_write = (\<lambda>_ d. WriteTakes (min 2 (length d)))\<rparr>"

definition one_ready :: "int \<Rightarrow> nat \<Rightarrow> (int \<rightharpoonup> epoll_event) epoll_wait_fun" where
  "one_ready fd c k n t = (if 0 < n \<and> k fd = Some (kReadEvent, c) then WaitEvents [(EPOLLIN, c)] else WaitEvents [])"

lemma one_ready_spec: "epoll_wait_spec (one_ready fd c) (\<lambda>k. k)"
  by (auto simp: epoll_wait_spec_def one_ready_def split: if_splits)

lemmas simple_eval = new_Channel_def on_channel_def create_channel_def LoopUpdateChannel_def UpdateChannel_def Update_def EnableReading_def
  AssertInLoopThread_def set_reading_def index_defs channel_flags is_none_event_def Let_def resize_events_def kInitEventListSize_def

lemma simple_sample_main: "simple_main ref_ctl 1 3 0 7 simple_loop = Inr (Some (simple_start 0))"
  by (simp add: simple_main_def simple_loop_def simple_start_def simple_eval poller.defs simple_server.defs)

lemma simple_sample_run: "(simple_step (\<lambda>k. k))\<^sup>*\<^sup>* (simple_start 0) (simple_conn_at EPOLLIN)"
proof -
  have "Poll (one_ready 3 7) 10000 (simple_start 0) = Inr ([7], simple_start EPOLLIN)"
    by (simp add: Poll_def one_ready_def simple_start_def simple_eval)
  then have s1: "simple_step (\<lambda>k. k) (simple_start 0) (simple_start EPOLLIN)" by (rule polled [OF one_ready_spec])
  have env: "simple_env_ok (\<lambda>k. k) (simple_start EPOLLIN) (simple_env0 4 8)"
    using ref_ctl_spec by (auto simp: simple_env_ok_def simple_env0_def simple_start_def new_Channel_def split: if_splits)
  have "simple_HandleEvent (simple_env0 4 8) 7 (simple_start EPOLLIN) = Inr (simple_conn_at 0)"
    by (simp add: simple_HandleEvent_def HandleEvent_read_only call_if_def simple_start_def on_accept_def simple_env0_def simple_conn_at_def
        simple_eval epoll_flags fun_upd_twist)
  then have s2: "simple_step (\<lambda>k. k) (simple_start EPOLLIN) (simple_conn_at 0)"
    by (rule event [OF env, rotated]) (simp add: simple_start_def)
  have "Poll (one_ready 4 8) 10000 (simple_conn_at 0) = Inr ([8], simple_conn_at EPOLLIN)"
    by (simp add: Poll_def one_ready_def simple_start_def simple_conn_at_def simple_eval)
  then have s3: "simple_step (\<lambda>k. k) (simple_conn_at 0) (simple_conn_at EPOLLIN)" by (rule polled [OF one_ready_spec])
  show ?thesis using s1 s2 s3 by (meson converse_rtranclp_into_rtranclp rtranclp.rtrancl_refl)
qed

lemma simple_sample_env: "simple_env_ok (\<lambda>k. k) (simple_conn_at ev) (simple_env0 5 9)"
  using ref_ctl_spec by (auto simp: simple_env_ok_def simple_env0_def simple_conn_at_def simple_start_def new_Channel_def split: if_splits)

text \<open>There the connection's callback is handled, a reset connection ends the process, and the end deletes the channel at 8.\<close>

theorem simple_echo_safe_witness:
  "simple_main ref_ctl 1 3 0 7 simple_loop = Inr (Some (simple_start 0))
    \<and> (simple_step (\<lambda>k. k))\<^sup>*\<^sup>* (simple_start 0) (simple_conn_at EPOLLIN)
    \<and> (\<exists>s'. simple_HandleEvent (simple_env0 5 9) 8 (simple_conn_at EPOLLIN) = Inr s')
    \<and> simple_HandleEvent ((simple_env0 5 9)\<lparr>se_write := (\<lambda>_ _. WriteFails errno_EPIPE)\<rparr>) 8 (simple_conn_at EPOLLIN) = Inl Killed
    \<and> (\<exists>s'. delete_channels (replicate 10 None @ [Some 8]) (simple_conn_at EPOLLIN) = Inr s' \<and> dom (p_chans s') = {7})"
proof -
  have l: "p_chans simple_loop = Map.empty" "1 = p_loop_tid simple_loop" by (simp_all add: simple_loop_def)
  note safe = simple_echo_safe [OF ref_ctl_spec simple_loop_inv l simple_sample_main simple_sample_run]
  let ?e = "(simple_env0 5 9)\<lparr>se_write := (\<lambda>_ _. WriteFails errno_EPIPE)\<rparr>"
  have e: "simple_env_ok (\<lambda>k. k) (simple_conn_at EPOLLIN) ?e" using simple_sample_env [of EPOLLIN] by (simp add: simple_env_ok_def)
  have d: "8 \<in> dom (p_chans (simple_conn_at EPOLLIN))" "ss_clinetChannel (simple_conn_at EPOLLIN) = replicate 10 None @ [Some 8]"
      "ss_listenChannel (simple_conn_at EPOLLIN) = 7"
    by (simp_all add: simple_conn_at_def simple_start_def)
  have k: "\<not> event_killed (simple_env0 5 9) 8 (simple_conn_at EPOLLIN)"
    by (simp add: event_killed_def raises_sigpipe_def simple_env0_def)
  have k': "event_killed ?e 8 (simple_conn_at EPOLLIN)"
    by (simp add: event_killed_def raises_sigpipe_def simple_env0_def simple_conn_at_def simple_start_def epoll_flags)
  note outcome = safe [THEN conjunct2, THEN conjunct1, rule_format, OF conjI, OF _ d(1)]
  have "\<exists>s'. simple_HandleEvent (simple_env0 5 9) 8 (simple_conn_at EPOLLIN) = Inr s'"
    using outcome [OF simple_sample_env] k by auto
  moreover have "simple_HandleEvent ?e 8 (simple_conn_at EPOLLIN) = Inl Killed" using outcome [OF e] k' by simp
  moreover have "\<exists>s'. delete_channels (replicate 10 None @ [Some 8]) (simple_conn_at EPOLLIN) = Inr s' \<and> dom (p_chans s') = {7}"
    using safe [THEN conjunct2, THEN conjunct2] unfolding d(2,3) .
  ultimately show ?thesis using simple_sample_main simple_sample_run by blast
qed

text \<open>
  Remark. What a readable connection does in the small echo server, when its \<open>write\<close> does not raise
  \<open>SIGPIPE\<close>: the bytes read are offered to the socket once, and what it does not take is lost; end of stream and any error of \<open>read\<close>, the
  temporary ones included, unregister the connection, so that nothing is read from it again, but
  leave its descriptor open.
\<close>

theorem simple_echo_event:
  assumes "ss_inv interest s" and "simple_env_ok interest s e" and "p_chans s c = Some ch" and "c \<noteq> ss_listenChannel s"
    and "ch_revents ch = EPOLLIN" and "\<not> raises_sigpipe e (ch_fd ch)"
  shows "\<exists>s'. simple_HandleEvent e c s = Inr s' \<and> ss_inv interest s'
    \<and> (case se_read e (ch_fd ch) kReadSize of
         ReadGets d \<Rightarrow> (if d = [] then interest (p_kernel s') (ch_fd ch) = None \<and> ss_received s' = ss_received s \<and> ss_sent s' = ss_sent s
           else ss_received s' = (ss_received s)(ch_fd ch := ss_received s (ch_fd ch) @ d)
              \<and> ss_sent s' = (ss_sent s)(ch_fd ch := ss_sent s (ch_fd ch) @
                  (case se_write e (ch_fd ch) d of WriteTakes n \<Rightarrow> take n d | WriteFails err \<Rightarrow> [])))
       | ReadFails err \<Rightarrow> interest (p_kernel s') (ch_fd ch) = None \<and> ss_received s' = ss_received s \<and> ss_sent s' = ss_sent s)
    \<and> c \<in> dom (p_chans s')"
proof -
  have flags: "EPOLLIN AND (EPOLLIN OR EPOLLPRI OR EPOLLRDHUP) \<noteq> 0" by (simp add: epoll_flags)
  then have eq: "simple_HandleEvent e c s = on_readable e (ch_fd ch) c s"
    using simple_HandleEvent_eq [OF assms(1,3), of e] assms(4,5) by simp
  obtain s' where s': "on_readable e (ch_fd ch) c s = Inr s'" "ss_inv interest s'" "ss_frame s s'"
      "case se_read e (ch_fd ch) kReadSize of
         ReadGets d \<Rightarrow> (if d = [] then interest (p_kernel s') (ch_fd ch) = None \<and> ss_received s' = ss_received s \<and> ss_sent s' = ss_sent s
           else ss_received s' = (ss_received s)(ch_fd ch := ss_received s (ch_fd ch) @ d)
              \<and> ss_sent s' = (ss_sent s)(ch_fd ch := ss_sent s (ch_fd ch) @
                  (case se_write e (ch_fd ch) d of WriteTakes n \<Rightarrow> take n d | WriteFails err \<Rightarrow> [])))
       | ReadFails err \<Rightarrow> interest (p_kernel s') (ch_fd ch) = None \<and> ss_received s' = ss_received s \<and> ss_sent s' = ss_sent s"
    using on_readable_Inr [OF assms(1-4,6)] by blast
  have "c \<in> dom (p_chans s')" using s'(3) assms(3) by (auto simp: ss_frame_def)
  with eq s'(1,2,4) show ?thesis by (intro exI [of _ s']) simp
qed

theorem simple_echo_event_witness:
  "\<exists>s'. simple_HandleEvent (simple_env0 5 9) 8 (simple_conn_at EPOLLIN) = Inr s' \<and> ss_received s' 4 = ''abc'' \<and> ss_sent s' 4 = ''ab''"
proof -
  have inv: "ss_inv (\<lambda>k. k) (simple_conn_at EPOLLIN)"
    by (rule ss_invI) (auto simp: simple_conn_at_def simple_start_def poller_inv_def new_Channel_def index_defs split: if_splits)
  have c: "p_chans (simple_conn_at EPOLLIN) 8 = Some ((new_Channel 4)\<lparr>ch_read_callback := Some (EchoCallback 4 8), ch_events := kReadEvent,
      ch_index := kAdded, ch_revents := EPOLLIN\<rparr>)" "8 \<noteq> ss_listenChannel (simple_conn_at EPOLLIN)"
    by (simp_all add: simple_conn_at_def simple_start_def)
  have "\<not> raises_sigpipe (simple_env0 5 9) fd" for fd by (simp add: raises_sigpipe_def simple_env0_def)
  from simple_echo_event [OF inv simple_sample_env c _ this] show ?thesis
    by (auto simp: simple_env0_def simple_conn_at_def simple_start_def new_Channel_def)
qed

end
