(* ===== verification/EchoConn.thy ===== *)
theory EchoConn
  imports EchoServer TcpServer
begin

unbundle bit_operations_syntax

text \<open>
  The echo server as a whole (\<open>examples/echo_server/EchoServer.cpp\<close>): the bookkeeping of
  \<open>TcpServer\<close>, the pollers of its loops, and the connections that live on them, run by the
  callbacks of the program. A connection shares its loop's poller with the others of that loop;
  what the callbacks queue goes to the queues of the loops. This theory has the state and the
  operations, their meaning as states of the theory \<open>TcpServer\<close>, and what an operation does to the
  connection it runs on and to the poller below it.
\<close>

section \<open>State\<close>

text \<open>
  A connection while one of its operations runs: with its loop's poller below, and the pending
  tasks of the server's loop above, to which the close callback adds.
\<close>

record 'k echo_run = "(echo_callback, 'k) tcp_connection" +
  er_pending :: "server_task list"

fun server_call :: "'k tc_env \<Rightarrow> echo_callback \<Rightarrow> 'k echo_run \<Rightarrow> 'k echo_run res" where
  "server_call e OnConnectionCallback s = Inr s"
| "server_call e OnMessage s = echo_call e OnMessage s"
| "server_call e echo_callback.RemoveConnection s =
     Inr (s\<lparr>er_pending := er_pending s @ [RemoveConnectionInLoopTask (tc_self s)]\<rparr>)"

text \<open>
  The fields of a connection without its poller, which \<open>poller.extend\<close> puts on its loop's. A
  connection is known by its identity, with the loop it was given; \<open>es_active\<close> are the active
  channels a loop has still to handle in its present iteration, and \<open>es_dead\<close> records which
  connections existed and were destroyed.
\<close>

type_synonym conn_part = "(echo_callback, unit) tcp_connection_ext"

record 'k echo_system =
  es_loop :: nat
  es_name :: string
  es_started :: bool
  es_next_conn_id :: int
  es_connections :: "string \<rightharpoonup> nat"
  es_thread_pool :: thread_pool
  es_init_callback :: bool
  es_queues :: "nat \<Rightarrow> server_task list"
  es_loops :: "nat \<Rightarrow> (tc_callback, 'k) poller"
  es_conns :: "nat \<rightharpoonup> nat \<times> conn_part"
  es_active :: "nat \<Rightarrow> nat list"
  es_dead :: "nat \<rightharpoonup> server_conn"

definition conn_view :: "'k echo_system \<Rightarrow> nat \<rightharpoonup> (echo_callback, 'k) tcp_connection" where
  "conn_view x c = (case es_conns x c of None \<Rightarrow> None | Some (l, k) \<Rightarrow> Some (poller.extend (es_loops x l) k))"

section \<open>Operations\<close>

text \<open>Take the connection and its loop's poller together, run an operation, and put them back.\<close>

definition enter_conn :: "nat \<Rightarrow> conn_part \<Rightarrow> 'k echo_system \<Rightarrow> 'k echo_run" where
  "enter_conn l k x = tcp_connection.extend (poller.extend (es_loops x l) k) (echo_run.fields (es_queues x (es_loop x)))"

definition leave_conn :: "nat \<Rightarrow> nat \<Rightarrow> 'k echo_run \<Rightarrow> 'k echo_system \<Rightarrow> 'k echo_system" where
  "leave_conn l c s x =
     x\<lparr>es_loops := (es_loops x)(l := poller.truncate s),
       es_conns := (es_conns x)(c \<mapsto> (l, poller.more (tcp_connection.truncate s))),
       es_queues := (es_queues x)(es_loop x := er_pending s)\<rparr>"

definition run_conn :: "('k echo_run \<Rightarrow> 'k echo_run res) \<Rightarrow> nat \<Rightarrow> 'k echo_system \<Rightarrow> 'k echo_system res" where
  "run_conn op c x =
     (case es_conns x c of
        None \<Rightarrow> Inl UseAfterFree
      | Some (l, k) \<Rightarrow> bindE (op (enter_conn l k x)) (\<lambda>s. Inr (leave_conn l c s x)))"

definition queue_task :: "nat \<Rightarrow> server_task \<Rightarrow> 'k echo_system \<Rightarrow> 'k echo_system" where
  "queue_task l t x = x\<lparr>es_queues := (es_queues x)(l := es_queues x l @ [t])\<rparr>"

text \<open>
  \<open>NewConnectionCallback\<close>: the server picks a loop and a name, makes the connection on that loop's
  poller, with its three callbacks, and queues \<open>ConnectEstablished\<close> there. \<open>obj\<close> and \<open>ch\<close> are the new
  objects, the connection and its channel.
\<close>

definition es_NewConnectionCallback :: "nat \<Rightarrow> nat \<Rightarrow> int \<Rightarrow> 'k echo_system \<Rightarrow> 'k echo_system res" where
  "es_NewConnectionCallback obj ch sockfd x =
     bindE (GetNextLoop (es_thread_pool x)) (\<lambda>(io_loop, pool).
       let name = conn_name (es_name x) (es_next_conn_id x);
           x1 = x\<lparr>es_thread_pool := pool, es_next_conn_id := next_id (es_next_conn_id x)\<rparr>
       in case es_connections x1 name of
            Some d \<Rightarrow> Inr (queue_task io_loop (ConnectEstablishedTask d) x1)
          | None \<Rightarrow>
              bindE (new_TcpConnection (es_loops x1 io_loop) obj ch name sockfd) (\<lambda>t.
                let t1 = t\<lparr>tc_connection_callback := Some OnConnectionCallback, tc_message_callback := Some OnMessage,
                           tc_close_callback := Some echo_callback.RemoveConnection\<rparr>;
                    x2 = x1\<lparr>es_connections := (es_connections x1)(name \<mapsto> obj),
                            es_loops := (es_loops x1)(io_loop := poller.truncate t1),
                            es_conns := (es_conns x1)(obj \<mapsto> (io_loop, poller.more t1))\<rparr>
                in Inr (queue_task io_loop (ConnectEstablishedTask obj) x2)))"

text \<open>The last pointer to a connection goes with the task that ran \<open>ConnectDestroyed\<close>.\<close>

definition destroy_conn :: "nat \<Rightarrow> 'k echo_system \<Rightarrow> 'k echo_system res" where
  "destroy_conn c x =
     (case es_conns x c of
        None \<Rightarrow> Inl UseAfterFree
      | Some (l, k) \<Rightarrow>
          let t = poller.extend (es_loops x l) k
          in Inr (x\<lparr>es_loops := (es_loops x)(l := destroy_channel (tc_chan t) (es_loops x l)),
                    es_conns := (es_conns x)(c := None),
                    es_dead := (es_dead x)(c \<mapsto> \<lparr>sc_name = tc_name t, sc_loop = l, sc_state = tc_state t\<rparr>)\<rparr>))"

definition es_ConnectDestroyed :: "'k tc_env \<Rightarrow> nat \<Rightarrow> 'k echo_system \<Rightarrow> 'k echo_system res" where
  "es_ConnectDestroyed e c x = bindE (run_conn (ConnectDestroyed e (server_call e)) c x) (destroy_conn c)"

definition es_RemoveConnectionInLoop :: "'k tc_env \<Rightarrow> nat \<Rightarrow> 'k echo_system \<Rightarrow> 'k echo_system res" where
  "es_RemoveConnectionInLoop e c x =
     bindE (AssertInLoopThread (env_tid e) (es_loops x (es_loop x))) (\<lambda>_.
       case es_conns x c of
         None \<Rightarrow> Inl UseAfterFree
       | Some (l, k) \<Rightarrow>
           let name = tc_name (poller.extend (es_loops x l) k)
           in bindE (assertE (es_connections x name \<noteq> None)) (\<lambda>_.
                let x1 = x\<lparr>es_connections := (es_connections x)(name := None)\<rparr>
                in if env_tid e = p_loop_tid (es_loops x l) then es_ConnectDestroyed e c x1
                   else Inr (queue_task l (ConnectDestroyedTask c) x1)))"

fun es_run_task :: "'k tc_env \<Rightarrow> server_task \<Rightarrow> 'k echo_system \<Rightarrow> 'k echo_system res" where
  "es_run_task e (ConnectEstablishedTask c) x = run_conn (ConnectEstablished e (server_call e)) c x"
| "es_run_task e (RemoveConnectionInLoopTask c) x = es_RemoveConnectionInLoop e c x"
| "es_run_task e (ConnectDestroyedTask c) x = es_ConnectDestroyed e c x"

text \<open>A poll of loop \<open>l\<close>, and the handling of an active channel, whose connection is \<open>c\<close>.\<close>

definition es_poll :: "'k epoll_wait_fun \<Rightarrow> nat \<Rightarrow> 'k echo_system \<Rightarrow> 'k echo_system res" where
  "es_poll wait l x =
     bindE (Poll wait 10000 (es_loops x l)) (\<lambda>(active, p).
       Inr (x\<lparr>es_loops := (es_loops x)(l := p), es_active := (es_active x)(l := active)\<rparr>))"

definition es_HandleEvent :: "'k tc_env \<Rightarrow> nat \<Rightarrow> 'k echo_system \<Rightarrow> 'k echo_system res" where
  "es_HandleEvent e c x = run_conn (tc_HandleEvent e (server_call e) (\<lambda>_ _. True)) c x"

section \<open>The abstract server\<close>

definition conn_abs :: "nat \<Rightarrow> (echo_callback, 'k) tcp_connection \<Rightarrow> server_conn" where
  "conn_abs l t = \<lparr>sc_name = tc_name t, sc_loop = l, sc_state = tc_state t\<rparr>"

definition es_abs :: "'k echo_system \<Rightarrow> server" where
  "es_abs x =
     \<lparr>sv_loop = es_loop x, sv_name = es_name x, sv_started = es_started x, sv_next_conn_id = es_next_conn_id x,
      sv_connections = es_connections x, sv_thread_pool = es_thread_pool x, sv_init_callback = es_init_callback x,
      sv_conns = (\<lambda>c. case es_conns x c of
         Some (l, k) \<Rightarrow> Some (conn_abs l (poller.extend (es_loops x l) k)) | None \<Rightarrow> es_dead x c),
      sv_queues = es_queues x\<rparr>"

section \<open>Records\<close>

lemma more_extend [simp]: "poller.more (poller.extend P k) = k"
  by (simp add: poller.defs)

lemma extend_poller [simp]:
  "p_loop_tid (poller.extend P k) = p_loop_tid P" "p_chans (poller.extend P k) = p_chans P"
  "p_kernel (poller.extend P k) = p_kernel P" "p_channels (poller.extend P k) = p_channels P"
  by (simp_all add: poller.defs)

lemma moved_fields:
  fixes t :: "(echo_callback, 'k) tcp_connection"
  shows "tc_state (poller.extend P (poller.more t)) = tc_state t" "tc_name (poller.extend P (poller.more t)) = tc_name t"
    "tc_self (poller.extend P (poller.more t)) = tc_self t" "tc_chan (poller.extend P (poller.more t)) = tc_chan t"
    "tc_sent (poller.extend P (poller.more t)) = tc_sent t" "tc_shut (poller.extend P (poller.more t)) = tc_shut t"
    "tc_input (poller.extend P (poller.more t)) = tc_input t" "tc_output (poller.extend P (poller.more t)) = tc_output t"
    "tc_connection_callback (poller.extend P (poller.more t)) = tc_connection_callback t"
    "tc_close_callback (poller.extend P (poller.more t)) = tc_close_callback t"
    "tc_write_complete_callback (poller.extend P (poller.more t)) = tc_write_complete_callback t"
    "tc_message_callback (poller.extend P (poller.more t)) = tc_message_callback t"
  by (cases t; simp add: poller.defs)+

text \<open>The connection's fields do not depend on the poller below them.\<close>

lemma part_fields:
  fixes P Q :: "(tc_callback, 'k) poller" and k :: conn_part
  shows "tc_state (poller.extend P k) = tc_state (poller.extend Q k)" "tc_name (poller.extend P k) = tc_name (poller.extend Q k)"
    "tc_self (poller.extend P k) = tc_self (poller.extend Q k)" "tc_chan (poller.extend P k) = tc_chan (poller.extend Q k)"
    "tc_sent (poller.extend P k) = tc_sent (poller.extend Q k)" "tc_shut (poller.extend P k) = tc_shut (poller.extend Q k)"
    "tc_input (poller.extend P k) = tc_input (poller.extend Q k)" "tc_output (poller.extend P k) = tc_output (poller.extend Q k)"
    "tc_connection_callback (poller.extend P k) = tc_connection_callback (poller.extend Q k)"
    "tc_close_callback (poller.extend P k) = tc_close_callback (poller.extend Q k)"
    "tc_write_complete_callback (poller.extend P k) = tc_write_complete_callback (poller.extend Q k)"
    "tc_message_callback (poller.extend P k) = tc_message_callback (poller.extend Q k)"
  using moved_fields [of P "poller.extend Q k"] by simp_all

lemma truncate_extend:
  fixes s :: "'k echo_run"
  shows "poller.extend (poller.truncate s) (poller.more (tcp_connection.truncate s)) = tcp_connection.truncate s"
  by (cases s) (simp add: poller.defs tcp_connection.defs)

lemma truncate_fields [simp]:
  fixes s :: "'k echo_run"
  shows "tc_state (tcp_connection.truncate s) = tc_state s" "tc_name (tcp_connection.truncate s) = tc_name s"
    "tc_self (tcp_connection.truncate s) = tc_self s" "tc_chan (tcp_connection.truncate s) = tc_chan s"
    "tc_sent (tcp_connection.truncate s) = tc_sent s" "tc_shut (tcp_connection.truncate s) = tc_shut s"
    "tc_input (tcp_connection.truncate s) = tc_input s" "tc_output (tcp_connection.truncate s) = tc_output s"
    "tc_connection_callback (tcp_connection.truncate s) = tc_connection_callback s"
    "tc_close_callback (tcp_connection.truncate s) = tc_close_callback s"
    "tc_write_complete_callback (tcp_connection.truncate s) = tc_write_complete_callback s"
    "tc_message_callback (tcp_connection.truncate s) = tc_message_callback s"
    "p_loop_tid (tcp_connection.truncate s) = p_loop_tid s" "p_chans (tcp_connection.truncate s) = p_chans s"
    "p_kernel (tcp_connection.truncate s) = p_kernel s"
    "p_loop_tid (poller.truncate s) = p_loop_tid s" "p_chans (poller.truncate s) = p_chans s" "p_kernel (poller.truncate s) = p_kernel s"
  by (cases s; simp add: poller.defs tcp_connection.defs)+

lemma enter_fields [simp]:
  "tcp_connection.truncate (enter_conn l k x) = poller.extend (es_loops x l) k"
  "er_pending (enter_conn l k x) = es_queues x (es_loop x)"
proof -
  define t where "t = poller.extend (es_loops x l) k"
  show "tcp_connection.truncate (enter_conn l k x) = poller.extend (es_loops x l) k" "er_pending (enter_conn l k x) = es_queues x (es_loop x)"
    unfolding enter_conn_def t_def [symmetric] by (cases t; simp add: tcp_connection.defs echo_run.defs)+
qed

section \<open>An operation changes its own connection and channel only\<close>

text \<open>A channel that is tied is tied to an object.\<close>

definition tie_ok :: "'cb channel \<Rightarrow> bool" where
  "tie_ok ch \<longleftrightarrow> (ch_tied ch \<longrightarrow> ch_tie ch \<noteq> None)"

definition own_only :: "nat \<Rightarrow> ('cb, 'k, 'z) poller_scheme \<Rightarrow> ('cb, 'k, 'z) poller_scheme \<Rightarrow> bool" where
  "own_only c s s' \<longleftrightarrow> p_loop_tid s' = p_loop_tid s \<and> poller.more s' = poller.more s \<and> (\<forall>d. d \<noteq> c \<longrightarrow> p_chans s' d = p_chans s d)
     \<and> (\<forall>ch. p_chans s c = Some ch \<longrightarrow> (\<exists>ch'. p_chans s' c = Some ch' \<and> same_handlers ch' ch \<and> ch_fd ch' = ch_fd ch \<and> (tie_ok ch \<longrightarrow> tie_ok ch')))"

lemma same_handlers_refl [simp]: "same_handlers ch ch"
  by (simp add: same_handlers_def)

lemma own_refl [simp]: "own_only c s s"
  by (simp add: own_only_def)

lemma own_trans: "own_only c s s1 \<Longrightarrow> own_only c s1 s2 \<Longrightarrow> own_only c s s2"
  unfolding own_only_def by (fastforce intro: same_handlers_trans)

lemma own_chans: "p_loop_tid s' = p_loop_tid s \<Longrightarrow> poller.more s' = poller.more s \<Longrightarrow> p_chans s' = p_chans s \<Longrightarrow> own_only c s s'"
  by (simp add: own_only_def)

lemma on_channel_own:
  assumes "on_channel c f s = Inr s'" and "\<And>ch. same_handlers (f ch) ch \<and> ch_fd (f ch) = ch_fd ch \<and> (tie_ok ch \<longrightarrow> tie_ok (f ch))"
  shows "own_only c s s'"
  using assms by (auto simp: on_channel_def own_only_def split: option.splits)

lemma Update_own: "Update ctl op c s = Inr s' \<Longrightarrow> own_only d s s'"
  by (rule own_chans; auto simp: Update_def Let_def split: option.splits if_splits)

lemma index_own: "on_channel c (\<lambda>ch. ch\<lparr>ch_index := i\<rparr>) s = Inr s' \<Longrightarrow> own_only c s s'"
  by (erule on_channel_own) (simp add: same_handlers_def tie_ok_def)

lemma channels_own: "own_only c s (s\<lparr>p_channels := m\<rparr>)"
  by (simp add: own_only_def)

lemma UpdateChannel_own:
  assumes "UpdateChannel ctl tid c s = Inr s'"
  shows "own_only c s s'"
proof -
  have add: "own_only c s s'" if "bindE (on_channel c (\<lambda>ch. ch\<lparr>ch_index := kAdded\<rparr>) s1) (Update ctl op c) = Inr s'" "own_only c s s1" for s1 op
    using that index_own [of c kAdded s1] Update_own [of ctl op c] by (fastforce simp: bindE_Inr_iff intro: own_trans)
  have del: "own_only c s s'" if "bindE (Update ctl op c s) (on_channel c (\<lambda>ch. ch\<lparr>ch_index := kDeleted\<rparr>)) = Inr s'" for op
    using that index_own [of c kDeleted] Update_own [of ctl op c s] by (fastforce simp: bindE_Inr_iff intro: own_trans)
  show ?thesis using assms add [OF _ channels_own] add [OF _ own_refl] del Update_own
    by (auto simp: UpdateChannel_def bindE_Inr_iff [of "AssertInLoopThread tid s"] split: option.splits if_splits)
qed

lemma RemoveChannel_own: "RemoveChannel ctl tid c s = Inr s' \<Longrightarrow> own_only c s s'"
  by (auto simp: RemoveChannel_def bindE_Inr_iff split: option.splits if_splits
      intro: own_trans Update_own index_own)

lemma setter_own:
  assumes "bindE (on_channel c f s) (LoopUpdateChannel ctl tid c) = Inr s'"
    and "\<And>ch. same_handlers (f ch) ch \<and> ch_fd (f ch) = ch_fd ch \<and> (tie_ok ch \<longrightarrow> tie_ok (f ch))"
  shows "own_only c s s'"
proof -
  obtain s1 where s1: "on_channel c f s = Inr s1" "LoopUpdateChannel ctl tid c s1 = Inr s'" using assms(1) by (auto simp: bindE_Inr_iff)
  have "own_only c s1 s'" using s1(2) UpdateChannel_own by (auto simp: LoopUpdateChannel_def split: if_splits)
  with on_channel_own [OF s1(1) assms(2)] show ?thesis by (rule own_trans)
qed

lemma setters_own:
  "EnableReading ctl tid c s = Inr s' \<Longrightarrow> own_only c s s'" "EnableWriting ctl tid c s = Inr s' \<Longrightarrow> own_only c s s'"
  "DisableWriting ctl tid c s = Inr s' \<Longrightarrow> own_only c s s'" "DisableAll ctl tid c s = Inr s' \<Longrightarrow> own_only c s s'"
  unfolding EnableReading_def EnableWriting_def DisableWriting_def DisableAll_def
  by (erule setter_own; simp add: same_handlers_def tie_ok_def set_reading_def set_writing_def clear_writing_def clear_all_def)+

lemma Remove_own: "Remove ctl tid c s = Inr s' \<Longrightarrow> own_only c s s'"
  by (auto simp: Remove_def LoopRemoveChannel_def bindE_Inr_iff split: option.splits intro: RemoveChannel_own)

text \<open>On a connection: besides, only its state and its streams change.\<close>

definition conn_own :: "('u, 'k, 'z) tcp_connection_scheme \<Rightarrow> ('u, 'k, 'z) tcp_connection_scheme \<Rightarrow> bool" where
  "conn_own s s' \<longleftrightarrow> own_only (tc_chan s) (poller.truncate s) (poller.truncate s') \<and> tc_chan s' = tc_chan s
     \<and> tc_self s' = tc_self s \<and> tc_name s' = tc_name s
     \<and> tc_connection_callback s' = tc_connection_callback s \<and> tc_close_callback s' = tc_close_callback s
     \<and> tc_write_complete_callback s' = tc_write_complete_callback s \<and> tc_message_callback s' = tc_message_callback s"

lemma own_truncate: "own_only c s s' \<Longrightarrow> own_only c (poller.truncate s) (poller.truncate s')"
  by (simp add: own_only_def poller.defs)

lemma own_conn: "own_only (tc_chan s) s s' \<Longrightarrow> conn_own s s'"
  using own_truncate [of "tc_chan s" s s']
  by (cases s; cases s') (simp add: conn_own_def own_only_def)

lemma conn_own_refl [simp]: "conn_own s s"
  by (simp add: conn_own_def)

lemma conn_own_trans: "conn_own s s1 \<Longrightarrow> conn_own s1 s2 \<Longrightarrow> conn_own s s2"
  by (auto simp: conn_own_def intro: own_trans)

lemma conn_own_upd [simp]:
  "conn_own (s\<lparr>tc_state := a\<rparr>) s' = conn_own s s'" "conn_own (s\<lparr>tc_sent := b\<rparr>) s' = conn_own s s'"
  "conn_own (s\<lparr>tc_shut := c\<rparr>) s' = conn_own s s'" "conn_own (s\<lparr>tc_input := d\<rparr>) s' = conn_own s s'"
  "conn_own (s\<lparr>tc_output := d\<rparr>) s' = conn_own s s'"
  "conn_own s (s\<lparr>tc_input := d\<rparr>)" "conn_own s (s\<lparr>tc_sent := b, tc_output := d\<rparr>)"
  by (simp_all add: conn_own_def poller.defs)

lemma setters_conn_own:
  "EnableReading ctl tid (tc_chan s) s = Inr s' \<Longrightarrow> conn_own s s'" "EnableWriting ctl tid (tc_chan s) s = Inr s' \<Longrightarrow> conn_own s s'"
  "DisableWriting ctl tid (tc_chan s) s = Inr s' \<Longrightarrow> conn_own s s'" "DisableAll ctl tid (tc_chan s) s = Inr s' \<Longrightarrow> conn_own s s'"
  "Remove ctl tid (tc_chan s) s = Inr s' \<Longrightarrow> conn_own s s'"
  by (rule own_conn, erule setters_own Remove_own)+

text \<open>The operations of a connection, under callbacks of which the same is true.\<close>

locale own_callbacks =
  fixes call :: "'u \<Rightarrow> ('u, 'k, 'z) conn_op"
  assumes call_own: "call cb s = Inr s' \<Longrightarrow> conn_own s s'"
begin

lemma call_opt_own: "call_opt call cb s = Inr s' \<Longrightarrow> conn_own s s'"
  using call_own by (auto simp: call_opt_def split: option.splits)

lemma call_must_own: "call_must call cb s = Inr s' \<Longrightarrow> conn_own s s'"
  using call_own by (auto simp: call_must_def split: option.splits)

lemma HandleClose_own: "HandleClose e call s = Inr s' \<Longrightarrow> conn_own s s'"
proof -
  assume "HandleClose e call s = Inr s'"
  then obtain s1 s2 where s1: "DisableAll (env_ctl e) (env_tid e) (tc_chan s) (s\<lparr>tc_state := kDisconnected\<rparr>) = Inr s1"
      "call_opt call (tc_connection_callback s1) s1 = Inr s2" "call_opt call (tc_close_callback s2) s2 = Inr s'"
    by (auto simp: HandleClose_def bindE_Inr_iff)
  have "conn_own s s1" using setters_conn_own(4) [of _ _ "s\<lparr>tc_state := kDisconnected\<rparr>" s1] s1(1) by simp
  then show ?thesis using call_opt_own [OF s1(2)] call_opt_own [OF s1(3)] conn_own_trans by blast
qed

lemma HandleRead_own: "HandleRead e call s = Inr s' \<Longrightarrow> conn_own s s'"
proof -
  assume a: "HandleRead e call s = Inr s'"
  then obtain ch where ch: "tc_deref s = Inr ch" by (auto simp: HandleRead_def bindE_Inr_iff)
  obtain n se b where r: "ReadFd (env_readv e) (ch_fd ch) 0 (tc_input s) = (n, se, b)"
    by (cases "ReadFd (env_readv e) (ch_fd ch) 0 (tc_input s)")
  from a have "(if n > 0 then call_must call (tc_message_callback s) (s\<lparr>tc_input := b\<rparr>)
      else if n = 0 then HandleClose e call (s\<lparr>tc_input := b\<rparr>) else HandleError (s\<lparr>tc_input := b\<rparr>)) = Inr s'"
    by (simp add: HandleRead_def ch r Let_def split: if_splits)
  then have "conn_own (s\<lparr>tc_input := b\<rparr>) s'"
    using call_must_own [of _ "s\<lparr>tc_input := b\<rparr>" s'] HandleClose_own [of e "s\<lparr>tc_input := b\<rparr>" s']
    by (auto simp: HandleError_def split: if_splits)
  then show ?thesis by simp
qed

lemma HandleWrite_own: "HandleWrite e call s = Inr s' \<Longrightarrow> conn_own s s'"
proof -
  assume a: "HandleWrite e call s = Inr s'"
  have drained: "conn_own s1 s'"
    if run: "bindE (DisableWriting (env_ctl e) (env_tid e) (tc_chan s1) s1) (\<lambda>s2.
          bindE (call_opt call (tc_write_complete_callback s2) s2) (\<lambda>s3.
            Inr (if tc_state s3 = kDisconnecting then ShutdownWrite s3 else s3))) = Inr s'" for s1
  proof -
    obtain s2 s3 where s: "DisableWriting (env_ctl e) (env_tid e) (tc_chan s1) s1 = Inr s2"
        "call_opt call (tc_write_complete_callback s2) s2 = Inr s3" "s' = (if tc_state s3 = kDisconnecting then ShutdownWrite s3 else s3)"
      using run by (auto simp: bindE_Inr_iff)
    have "conn_own s3 s'" using s(3) by (simp add: ShutdownWrite_def conn_own_def poller.defs)
    then show ?thesis using setters_conn_own(3) [OF s(1)] call_opt_own [OF s(2)] conn_own_trans by blast
  qed
  obtain ch where ch: "tc_deref s = Inr ch" using a by (auto simp: HandleWrite_def bindE_Inr_iff)
  let ?d = "take (ReadableBytes (tc_output s)) (Peek (tc_output s))"
  consider "\<not> is_writing ch" | err where "env_write e (ch_fd ch) ?d = WriteErr err" | "env_write e (ch_fd ch) ?d = Wrote 0"
    | n where "is_writing ch" "0 < n" "env_write e (ch_fd ch) ?d = Wrote n"
    by (cases "env_write e (ch_fd ch) ?d") (auto simp: neq0_conv [symmetric] simp del: neq0_conv)
  then show ?thesis
  proof cases
    case (4 n)
    note n = 4
    with a ch obtain b where b: "retrieve n (tc_output s) = Inr b" by (auto simp: HandleWrite_def bindE_Inr_iff)
    define s1 where "s1 = s\<lparr>tc_sent := tc_sent s @ take n ?d, tc_output := b\<rparr>"
    have "conn_own s1 s'"
    proof (cases "ReadableBytes (tc_output s1) = 0")
      case True
      then show ?thesis by (intro drained) (use a ch n b in \<open>simp add: HandleWrite_def s1_def Let_def\<close>)
    next
      case False
      then have "s' = s1" using a ch n b by (simp add: HandleWrite_def s1_def Let_def)
      then show ?thesis by simp
    qed
    then show ?thesis by (simp add: s1_def)
  qed (use a ch in \<open>auto simp: HandleWrite_def Let_def split: if_splits\<close>)
qed

lemma ConnectEstablished_own: "ConnectEstablished e call s = Inr s' \<Longrightarrow> conn_own s s'"
proof -
  assume "ConnectEstablished e call s = Inr s'"
  then obtain s1 s2 where s1: "EnableReading (env_ctl e) (env_tid e) (tc_chan s) (s\<lparr>tc_state := kConnected\<rparr>) = Inr s1"
      "on_channel (tc_chan s1) (Tie (tc_self s1)) s1 = Inr s2" "call_opt call (tc_connection_callback s2) s2 = Inr s'"
    by (auto simp: ConnectEstablished_def bindE_Inr_iff)
  have "conn_own s s1" using setters_conn_own(1) [of _ _ "s\<lparr>tc_state := kConnected\<rparr>" s1] s1(1) by simp
  moreover have "conn_own s1 s2"
    by (rule own_conn, rule on_channel_own [OF s1(2)]) (simp add: Tie_def same_handlers_def tie_ok_def)
  ultimately show ?thesis using call_opt_own [OF s1(3)] conn_own_trans by blast
qed

lemma ConnectDestroyed_own: "ConnectDestroyed e call s = Inr s' \<Longrightarrow> conn_own s s'"
proof -
  assume "ConnectDestroyed e call s = Inr s'"
  then obtain s1 s2 where s1: "(if tc_state s = kConnected \<or> tc_state s = kDisconnecting
            then bindE (DisableAll (env_ctl e) (env_tid e) (tc_chan s) (s\<lparr>tc_state := kDisconnected\<rparr>)) (\<lambda>s.
                   call_must call (tc_connection_callback s) s)
            else Inr s) = Inr s1"
      "DisableAll (env_ctl e) (env_tid e) (tc_chan s1) s1 = Inr s2" "Remove (env_ctl e) (env_tid e) (tc_chan s2) s2 = Inr s'"
    by (auto simp: ConnectDestroyed_def bindE_Inr_iff)
  have "conn_own s s1"
    using s1(1) setters_conn_own(4) [of _ _ "s\<lparr>tc_state := kDisconnected\<rparr>"] call_must_own conn_own_trans
    by (fastforce simp: bindE_Inr_iff split: if_splits)
  then show ?thesis using setters_conn_own(4) [OF s1(2)] setters_conn_own(5) [OF s1(3)] conn_own_trans by blast
qed

end

lemma send_rest_own: "send_rest e rest s = Inr s' \<Longrightarrow> conn_own s s'"
  using setters_conn_own(2) [of "env_ctl e" "env_tid e" "s\<lparr>tc_output := Append rest (tc_output s)\<rparr>" s']
  by (auto simp: send_rest_def bindE_Inr_iff Let_def tc_deref_def conn_own_def poller.defs split: if_splits option.splits)

lemma send_own: "send e (\<lambda>_. Inr) d s = Inr s' \<Longrightarrow> conn_own s s'"
  using send_rest_own [of e _ _ s']
  by (fastforce simp: send_def bindE_Inr_iff Let_def call_opt_def split: if_splits option.splits write_result.splits)

lemma server_call_own:
  assumes "server_call e cb s = Inr s'"
  shows "conn_own s s'"
proof (cases cb)
  case OnMessage
  then obtain msg b where "send e (\<lambda>_. Inr) msg (s\<lparr>tc_input := b\<rparr>) = Inr s'"
    using assms by (auto simp: bindE_Inr_iff)
  from send_own [OF this] show ?thesis by simp
qed (use assms in \<open>auto simp: conn_own_def poller.defs\<close>)

interpretation server: own_callbacks "server_call e"
  by unfold_locales (rule server_call_own)

section \<open>The handlers of a connection of the server\<close>

text \<open>What the server's connections have in common: their callbacks, and that nobody shuts them down.\<close>

definition conn_handlers :: "tc_callback channel \<Rightarrow> bool" where
  "conn_handlers ch \<longleftrightarrow> ch_read_callback ch = Some TcHandleRead \<and> ch_write_callback ch = Some TcHandleWrite
     \<and> ch_close_callback ch = Some TcHandleClose \<and> ch_error_callback ch = Some TcHandleError \<and> tie_ok ch"

definition unwatched :: "('u, 'k, 'z) tcp_connection_scheme \<Rightarrow> bool" where
  "unwatched s \<longleftrightarrow> (\<forall>ch. p_chans s (tc_chan s) = Some ch \<longrightarrow> ch_index ch \<noteq> kAdded)"

definition conn_ok :: "('k \<Rightarrow> int \<rightharpoonup> epoll_event) \<Rightarrow> nat \<Rightarrow> (echo_callback, 'k, 'z) tcp_connection_scheme \<Rightarrow> bool" where
  "conn_ok interest c s \<longleftrightarrow> tc_inv interest s \<and> tc_self s = c
     \<and> tc_connection_callback s = Some OnConnectionCallback \<and> tc_message_callback s = Some OnMessage
     \<and> tc_close_callback s = Some echo_callback.RemoveConnection \<and> tc_write_complete_callback s = None
     \<and> tc_state s \<noteq> kDisconnecting \<and> (tc_state s = kConnecting \<longrightarrow> \<not> tc_shut s \<and> contents (tc_output s) = [])
     \<and> (\<exists>ch. p_chans s (tc_chan s) = Some ch \<and> conn_handlers ch) \<and> (tc_state s \<noteq> kConnected \<longrightarrow> unwatched s)"

lemma conn_okD:
  assumes "conn_ok interest c s"
  shows "tc_inv interest s" "tc_self s = c" "tc_connection_callback s = Some OnConnectionCallback"
    "tc_message_callback s = Some OnMessage" "tc_close_callback s = Some echo_callback.RemoveConnection"
    "tc_write_complete_callback s = None" "tc_state s \<noteq> kDisconnecting"
    "tc_state s = kConnecting \<Longrightarrow> \<not> tc_shut s \<and> contents (tc_output s) = []"
    "\<exists>ch. p_chans s (tc_chan s) = Some ch \<and> conn_handlers ch" "tc_state s \<noteq> kConnected \<Longrightarrow> unwatched s"
  using assms unfolding conn_ok_def by blast+

lemma conn_own_handlers:
  assumes "conn_own s s'" and "p_chans s (tc_chan s) = Some ch"
  shows "\<exists>ch'. p_chans s' (tc_chan s') = Some ch' \<and> same_handlers ch' ch \<and> ch_fd ch' = ch_fd ch \<and> (tie_ok ch \<longrightarrow> tie_ok ch')"
  using assms by (auto simp: conn_own_def own_only_def poller.defs)

lemma conn_ok_own:
  assumes "conn_ok interest c s" and "conn_own s s'" and "tc_inv interest s'" and "tc_state s' = kConnected \<or> tc_state s' = kDisconnected \<and> unwatched s'"
  shows "conn_ok interest c s'"
proof -
  obtain ch where "p_chans s (tc_chan s) = Some ch" "conn_handlers ch" using conn_okD(9) [OF assms(1)] by blast
  then have "\<exists>ch'. p_chans s' (tc_chan s') = Some ch' \<and> conn_handlers ch'"
    using conn_own_handlers [OF assms(2)] by (fastforce simp: conn_handlers_def same_handlers_def)
  then show ?thesis using assms(2-4) conn_okD(2-6) [OF assms(1)] by (auto simp: conn_ok_def conn_own_def)
qed

text \<open>What an operation's environment promises.\<close>

definition op_env_ok :: "('k \<Rightarrow> int \<rightharpoonup> epoll_event) \<Rightarrow> int \<Rightarrow> 'k tc_env \<Rightarrow> bool" where
  "op_env_ok interest tid e \<longleftrightarrow> epoll_ctl_spec (env_ctl e) interest \<and> write_spec (env_write e) \<and> env_tid e = tid
     \<and> (\<forall>fd ls. length (readv_bytes (env_readv e fd ls)) < 2 ^ 63)"

lemma tc_inv_pending [simp]: "tc_inv interest (s\<lparr>er_pending := q\<rparr>) = tc_inv interest s"
  by (simp add: tc_inv_def poller_inv_def)

lemma conn_frame_pending:
  fixes s s' :: "'k echo_run"
  shows "conn_frame s s' \<Longrightarrow> er_pending s' = er_pending s"
  by (cases s; cases s'; simp add: conn_frame_def)

lemma send_server:
  fixes s :: "'k echo_run"
  assumes "op_env_ok interest (p_loop_tid s) e" and "tc_inv interest s" and "tc_write_complete_callback s = None" and "tc_state s = kConnected"
  shows "\<exists>s'. send e (\<lambda>_. Inr) d s = Inr s' \<and> tc_inv interest s' \<and> conn_frame s s' \<and> tc_state s' = kConnected"
proof -
  have e: "epoll_ctl_spec (env_ctl e) interest" "env_tid e = p_loop_tid s" using assms(1) by (simp_all add: op_env_ok_def)
  from send_Inr [OF e(1) assms(2) e(2) assms(4,3)] assms(4) show ?thesis by fastforce
qed

lemma message_server:
  fixes s :: "'k echo_run"
  assumes env: "op_env_ok interest (p_loop_tid s) e" and inv: "tc_inv interest s" and q: "tc_write_complete_callback s = None"
    and up: "tc_state s = kConnected"
  shows "\<exists>s'. server_call e OnMessage s = Inr s' \<and> tc_inv interest s' \<and> tc_state s' = kConnected \<and> er_pending s' = er_pending s"
proof -
  obtain b where b: "RetrieveAllAsString (tc_input s) = Inr (contents (tc_input s), b)" "buffer_inv b"
    using RetrieveAllAsString_Inr [OF tc_invD(2) [OF inv]] by blast
  define s1 where "s1 = s\<lparr>tc_input := b\<rparr>"
  have "tc_inv interest s1" "tc_write_complete_callback s1 = None" "tc_state s1 = kConnected" "op_env_ok interest (p_loop_tid s1) e"
    using tc_inv_input [OF inv b(2)] q up env by (simp_all add: s1_def)
  from send_server [OF this(4,1,2,3)] obtain s' where
    "send e (\<lambda>_. Inr) (contents (tc_input s)) s1 = Inr s'" "tc_inv interest s'" "conn_frame s1 s'" "tc_state s' = kConnected"
    by blast
  then show ?thesis using b(1) conn_frame_pending [of s1 s'] by (auto simp: s1_def)
qed

lemma server_call_ok:
  fixes s :: "'k echo_run"
  assumes "epoll_ctl_spec (env_ctl e) interest" "tc_inv interest s" "env_tid e = p_loop_tid s" "tc_write_complete_callback s = None"
  shows "\<exists>s'. server_call e cb s = Inr s' \<and> tc_inv interest s' \<and> user_frame s s'"
  using assms OnMessage_Inr [OF assms] by (cases cb) (auto simp: user_frame_def)

interpretation server_user: connection_user interest e "server_call e"
  by unfold_locales (rule server_call_ok)

text \<open>What an event does to a connection that is up: nothing to its state, or it closes it, once.\<close>

definition event_result :: "('k \<Rightarrow> int \<rightharpoonup> epoll_event) \<Rightarrow> 'k echo_run \<Rightarrow> 'k echo_run \<Rightarrow> bool" where
  "event_result interest s s' \<longleftrightarrow> tc_inv interest s'
     \<and> (tc_state s' = tc_state s \<and> er_pending s' = er_pending s
        \<or> tc_state s' = kDisconnected \<and> unwatched s' \<and> er_pending s' = er_pending s @ [RemoveConnectionInLoopTask (tc_self s)])"

text \<open>\<open>DisableAll\<close> unregisters a registered channel.\<close>

lemma DisableAll_unwatched:
  assumes "epoll_ctl_spec ctl interest" "poller_inv interest s" "p_chans s (tc_chan s) = Some ch" "ch_index ch = kAdded"
    and "DisableAll ctl (p_loop_tid s) (tc_chan s) s = Inr s'"
  shows "unwatched s'"
proof -
  have "tc_chan s' = tc_chan s" using setters_conn_own(4) [OF assms(5)] by (simp add: conn_own_def)
  then show ?thesis using run_setter_Inr [OF assms(1-3) refl, of ClearAll] assms(4,5) by (auto simp: unwatched_def)
qed

lemma close_server:
  fixes s :: "'k echo_run"
  assumes env: "op_env_ok interest (p_loop_tid s) e" and ok: "conn_ok interest c s" and up: "tc_state s = kConnected"
  shows "\<exists>s'. HandleClose e (server_call e) s = Inr s' \<and> tc_inv interest s' \<and> tc_state s' = kDisconnected
    \<and> unwatched s' \<and> er_pending s' = er_pending s @ [RemoveConnectionInLoopTask c] \<and> tc_input s' = tc_input s"
proof -
  have e: "epoll_ctl_spec (env_ctl e) interest" "env_tid e = p_loop_tid s" using env by (simp_all add: op_env_ok_def)
  obtain s1 where s1: "DisableAll (env_ctl e) (env_tid e) (tc_chan s) (s\<lparr>tc_state := kDisconnected\<rparr>) = Inr s1"
      "tc_inv interest s1" "conn_frame s s1" "tc_state s1 = kDisconnected"
    using server_user.close_channel [OF e(1) conn_okD(1) [OF ok] e(2)] by blast
  obtain ch where "p_chans s (tc_chan s) = Some ch" "ch_index ch = kAdded" using tc_inv_chan [OF conn_okD(1) [OF ok]] up by auto
  then have off: "unwatched s1"
    using DisableAll_unwatched [OF e(1), of "s\<lparr>tc_state := kDisconnected\<rparr>" ch s1] s1(1) e(2) tc_invD(1) [OF conn_okD(1) [OF ok]] by simp
  have "tc_connection_callback s1 = Some OnConnectionCallback" "tc_close_callback s1 = Some echo_callback.RemoveConnection" "tc_self s1 = c"
      "tc_input s1 = tc_input s"
    using s1(3) conn_okD(2,3,5) [OF ok] by (simp_all add: conn_frame_def)
  with s1 up conn_frame_pending [OF s1(3)] off show ?thesis by (simp add: HandleClose_def call_opt_def unwatched_def)
qed

lemma read_server:
  fixes s :: "'k echo_run"
  assumes env: "op_env_ok interest (p_loop_tid s) e" and ok: "conn_ok interest c s" and up: "tc_state s = kConnected"
    and size: "length (buffer_mem (tc_input s)) < 2 ^ 63"
  shows "\<exists>s'. HandleRead e (server_call e) s = Inr s' \<and> event_result interest s s'"
proof -
  obtain ch where ch: "p_chans s (tc_chan s) = Some ch" using conn_okD(9) [OF ok] by blast
  obtain n se b where r: "ReadFd (env_readv e) (ch_fd ch) 0 (tc_input s) = (n, se, b)"
    by (cases "ReadFd (env_readv e) (ch_fd ch) 0 (tc_input s)")
  have rv: "length (readv_bytes (env_readv e fd ls)) < 2 ^ 63" for fd ls using env by (simp add: op_env_ok_def)
  have b: "buffer_inv b"
    using ReadFd_inv [where readv = "env_readv e", OF tc_invD(2) [OF conn_okD(1) [OF ok]] size rv, of "ch_fd ch" 0] r by simp
  define s1 where "s1 = s\<lparr>tc_input := b\<rparr>"
  have s1: "tc_inv interest s1" using tc_inv_input [OF conn_okD(1) [OF ok] b] by (simp add: s1_def)
  have up1: "tc_state s1 = kConnected" and env1: "op_env_ok interest (p_loop_tid s1) e" using up env by (simp_all add: s1_def)
  have ok1: "conn_ok interest c s1" by (rule conn_ok_own [OF ok _ s1]) (simp_all add: s1_def up)
  have run: "HandleRead e (server_call e) s = (if n > 0 then server_call e OnMessage s1
      else if n = 0 then HandleClose e (server_call e) s1 else Inr s1)"
    using ch r conn_okD(4) [OF ok] by (simp add: HandleRead_def tc_deref_def s1_def call_must_def HandleError_def del: server_call.simps)
  have same: "tc_state s1 = tc_state s" "er_pending s1 = er_pending s" "tc_self s1 = tc_self s" "tc_self s = c"
    using conn_okD(2) [OF ok] by (simp_all add: s1_def)
  show ?thesis
    using message_server [OF env1 s1 conn_okD(6) [OF ok1] up1] close_server [OF env1 ok1 up1] s1 same up
    unfolding run event_result_def by fastforce
qed

text \<open>
  The dispatch does not return after the close callback: a hang-up reported without \<open>EPOLLIN\<close> but
  with urgent input (or with \<open>EPOLLRDHUP\<close>, which nobody asks for) closes the connection and then
  reads from it. If that read finds the end of the stream, the connection is closed twice.
\<close>

definition revents_ok :: "u32 \<Rightarrow> bool" where
  "revents_ok ev \<longleftrightarrow> (ev AND EPOLLHUP \<noteq> 0 \<and> ev AND EPOLLIN = 0 \<longrightarrow> ev AND (EPOLLIN OR EPOLLPRI OR EPOLLRDHUP) = 0)"

definition closes_twice :: "'k tc_env \<Rightarrow> tc_callback channel \<Rightarrow> buffer \<Rightarrow> bool" where
  "closes_twice e ch b \<longleftrightarrow> \<not> revents_ok (ch_revents ch) \<and> env_readv e (ch_fd ch) [WriteableBytes b, kExtraBuf] = ReadData []"

text \<open>A read from a connection that is down: the bytes are dropped, an error is logged, the end of the stream fails.\<close>

lemma read_closed:
  fixes s :: "'k echo_run"
  assumes env: "op_env_ok interest (p_loop_tid s) e" and ok: "conn_ok interest c s" and down: "tc_state s = kDisconnected"
    and size: "length (buffer_mem (tc_input s)) < 2 ^ 63" and ch: "p_chans s (tc_chan s) = Some ch"
  shows "if env_readv e (ch_fd ch) [WriteableBytes (tc_input s), kExtraBuf] = ReadData []
    then HandleRead e (server_call e) s = Inl AssertFailed
    else \<exists>s'. HandleRead e (server_call e) s = Inr s' \<and> tc_inv interest s' \<and> tc_state s' = kDisconnected \<and> unwatched s'
      \<and> er_pending s' = er_pending s"
proof -
  obtain n se b where r: "ReadFd (env_readv e) (ch_fd ch) 0 (tc_input s) = (n, se, b)"
    by (cases "ReadFd (env_readv e) (ch_fd ch) 0 (tc_input s)")
  have rv: "length (readv_bytes (env_readv e fd ls)) < 2 ^ 63" for fd ls using env by (simp add: op_env_ok_def)
  have b: "buffer_inv b"
    using ReadFd_inv [where readv = "env_readv e", OF tc_invD(2) [OF conn_okD(1) [OF ok]] size rv, of "ch_fd ch" 0] r by simp
  have n: "n = readv_n (env_readv e (ch_fd ch) [WriteableBytes (tc_input s), kExtraBuf])"
    using r by (auto simp: ReadFd_def Let_def split: if_splits)
  then have n0: "n = 0 \<longleftrightarrow> env_readv e (ch_fd ch) [WriteableBytes (tc_input s), kExtraBuf] = ReadData []"
    by (cases "env_readv e (ch_fd ch) [WriteableBytes (tc_input s), kExtraBuf]") simp_all
  define s1 where "s1 = s\<lparr>tc_input := b\<rparr>"
  have s1: "tc_inv interest s1" "unwatched s1"
    using tc_inv_input [OF conn_okD(1) [OF ok] b] conn_okD(10) [OF ok] down by (simp_all add: s1_def unwatched_def)
  obtain v w where v: "RetrieveAllAsString b = Inr (v, w)" "buffer_inv w" using RetrieveAllAsString_Inr [OF b] by blast
  have "tc_inv interest (s1\<lparr>tc_input := w\<rparr>)" by (rule tc_inv_input [OF s1(1) v(2)])
  moreover have "server_call e OnMessage s1 = Inr (s1\<lparr>tc_input := w\<rparr>)" using v(1) down by (simp add: s1_def send_def)
  moreover have "HandleRead e (server_call e) s = (if n > 0 then server_call e OnMessage s1
      else if n = 0 then HandleClose e (server_call e) s1 else Inr s1)"
    using ch r conn_okD(4) [OF ok] by (simp add: HandleRead_def tc_deref_def s1_def call_must_def HandleError_def del: server_call.simps)
  moreover have "HandleClose e (server_call e) s1 = Inl AssertFailed" using down by (simp add: s1_def HandleClose_def)
  ultimately show ?thesis using s1 down unfolding n0 [symmetric] by (auto simp: s1_def unwatched_def simp del: server_call.simps)
qed

lemma write_idle:
  assumes "tc_inv interest s" and "\<not> (tc_state s = kConnected \<or> tc_state s = kDisconnecting)"
  shows "HandleWrite e call s = Inr s"
proof -
  obtain ch where "p_chans s (tc_chan s) = Some ch" "is_none_event ch" using tc_inv_chan [OF assms(1)] assms(2) by auto
  then show ?thesis using not_none_writing by (auto simp: HandleWrite_def tc_deref_def)
qed

lemma own_revents:
  assumes "conn_own s s'" and "p_chans s (tc_chan s) = Some ch" and "conn_handlers ch"
  defines "ch' \<equiv> the (p_chans s' (tc_chan s'))"
  shows "ch_revents ch' = ch_revents ch" "ch_read_callback ch' = Some TcHandleRead" "ch_write_callback ch' = Some TcHandleWrite"
    "ch_error_callback ch' = Some TcHandleError"
  using conn_own_handlers [OF assms(1,2)] assms(3) by (auto simp: ch'_def same_handlers_def conn_handlers_def)

lemma guard_hangup:
  fixes s :: "'k echo_run"
  assumes env: "op_env_ok interest (p_loop_tid s) e" and ok: "conn_ok interest c s" and up: "tc_state s = kConnected"
    and size: "length (buffer_mem (tc_input s)) < 2 ^ 63"
    and ch: "p_chans s (tc_chan s) = Some ch" "conn_handlers ch"
    and hup: "ch_revents ch AND EPOLLHUP \<noteq> 0" "ch_revents ch AND EPOLLIN = 0"
  shows "if closes_twice e ch (tc_input s)
    then HandleEventWithGuard (tc_call e (server_call e)) (\<lambda>s. the (p_chans s (tc_chan s))) s = Inl AssertFailed
    else \<exists>s'. HandleEventWithGuard (tc_call e (server_call e)) (\<lambda>s. the (p_chans s (tc_chan s))) s = Inr s' \<and> event_result interest s s'"
proof -
  obtain s1 where s1: "HandleClose e (server_call e) s = Inr s1" "tc_inv interest s1" "tc_state s1 = kDisconnected"
      "er_pending s1 = er_pending s @ [RemoveConnectionInLoopTask c]" "unwatched s1" "tc_input s1 = tc_input s"
    using close_server [OF env ok up] by blast
  note own = server.HandleClose_own [OF s1(1)]
  note r = own_revents [OF own ch]
  obtain ch1 where ch1: "p_chans s1 (tc_chan s1) = Some ch1" "ch_fd ch1 = ch_fd ch" using conn_own_handlers [OF own ch(1)] by blast
  have ok1: "conn_ok interest c s1" by (rule conn_ok_own [OF ok own s1(2)]) (simp add: s1)
  have env1: "op_env_ok interest (p_loop_tid s1) e" "length (buffer_mem (tc_input s1)) < 2 ^ 63"
    using env size own s1(6) by (simp_all add: conn_own_def own_only_def)
  note read = read_closed [OF env1(1) ok1 s1(3) env1(2) ch1(1), unfolded ch1(2) s1(6)]
  have "HandleWrite e (server_call e) s1 = Inr s1" by (rule write_idle [OF s1(2)]) (simp add: s1(3))
  then have "HandleEventWithGuard (tc_call e (server_call e)) (\<lambda>s. the (p_chans s (tc_chan s))) s =
      (if revents_ok (ch_revents ch) then Inr s1 else HandleRead e (server_call e) s1)"
    using hup s1(1) ch r by (simp add: HandleEventWithGuard_def call_if_def conn_handlers_def HandleError_def revents_ok_def)
  then show ?thesis using s1 conn_okD(2) [OF ok] read by (auto simp: event_result_def closes_twice_def split: if_splits)
qed

lemma guard_event:
  fixes s :: "'k echo_run"
  assumes env: "op_env_ok interest (p_loop_tid s) e" and ok: "conn_ok interest c s" and up: "tc_state s = kConnected"
    and size: "length (buffer_mem (tc_input s)) < 2 ^ 63"
    and ch: "p_chans s (tc_chan s) = Some ch" "conn_handlers ch"
    and quiet: "\<not> (ch_revents ch AND EPOLLHUP \<noteq> 0 \<and> ch_revents ch AND EPOLLIN = 0)"
  shows "\<exists>s'. HandleEventWithGuard (tc_call e (server_call e)) (\<lambda>s. the (p_chans s (tc_chan s))) s = Inr s' \<and> event_result interest s s'"
proof -
  have e: "epoll_ctl_spec (env_ctl e) interest" "write_spec (env_write e)" "env_tid e = p_loop_tid s" using env by (simp_all add: op_env_ok_def)
  define m where "m = (if ch_revents ch AND EPOLLOUT \<noteq> 0 then HandleWrite e (server_call e) s else Inr s)"
  obtain s1 where s1: "m = Inr s1" "tc_inv interest s1" "conn_frame s s1" "tc_state s1 = kConnected"
  proof (cases "ch_revents ch AND EPOLLOUT \<noteq> 0")
    case True
    obtain s1 where "HandleWrite e (server_call e) s = Inr s1" "tc_inv interest s1" "conn_frame s s1" "tc_state s1 = tc_state s"
      using HandleWrite_Inr [OF e(1,2) conn_okD(1) [OF ok] e(3) _ conn_okD(6) [OF ok], of "server_call e"] up by blast
    then show thesis using that up True by (simp add: m_def)
  next
    case False
    then show thesis using that up conn_okD(1) [OF ok] by (simp add: m_def)
  qed
  have own: "conn_own s s1" using s1(1) server.HandleWrite_own by (auto simp: m_def split: if_splits)
  note r = own_revents [OF own ch]
  have ok1: "conn_ok interest c s1" by (rule conn_ok_own [OF ok own s1(2)]) (simp add: s1(4))
  have same: "er_pending s1 = er_pending s" "tc_self s1 = tc_self s" "length (buffer_mem (tc_input s1)) < 2 ^ 63" "op_env_ok interest (p_loop_tid s1) e"
    using s1(3) conn_frame_pending [OF s1(3)] size env by (simp_all add: conn_frame_def)
  obtain s2 where s2: "HandleRead e (server_call e) s1 = Inr s2" "event_result interest s1 s2"
    using read_server [OF same(4) ok1 s1(4) same(3)] by blast
  have "HandleEventWithGuard (tc_call e (server_call e)) (\<lambda>s. the (p_chans s (tc_chan s))) s =
      bindE m (\<lambda>s1. if ch_revents ch AND (EPOLLIN OR EPOLLPRI OR EPOLLRDHUP) \<noteq> 0 then HandleRead e (server_call e) s1 else Inr s1)"
  proof -
    let ?call = "call_if (tc_call e (server_call e))" and ?chan = "\<lambda>s. the (p_chans s (tc_chan s))"
    have "?call (ch_revents (?chan s) AND EPOLLHUP \<noteq> 0 \<and> \<not> ch_revents (?chan s) AND EPOLLIN \<noteq> 0) (ch_close_callback (?chan s)) s = Inr s"
        "?call (ch_revents (?chan s) AND EPOLLERR \<noteq> 0) (ch_error_callback (?chan s)) s = Inr s"
        "?call (ch_revents (?chan s) AND EPOLLOUT \<noteq> 0) (ch_write_callback (?chan s)) s = m"
      using quiet ch by (auto simp: call_if_def conn_handlers_def HandleError_def m_def)
    then show ?thesis using s1(1) r by (simp add: HandleEventWithGuard_def) (simp add: call_if_def)
  qed
  then show ?thesis using s1 s2 same up by (auto simp: event_result_def)
qed

lemma event_server:
  fixes s :: "'k echo_run"
  assumes env: "op_env_ok interest (p_loop_tid s) e" and ok: "conn_ok interest c s" and up: "tc_state s = kConnected"
    and size: "length (buffer_mem (tc_input s)) < 2 ^ 63"
    and ch: "p_chans s (tc_chan s) = Some ch"
  shows "if closes_twice e ch (tc_input s) then tc_HandleEvent e (server_call e) (\<lambda>_ _. True) s = Inl AssertFailed
    else \<exists>s'. tc_HandleEvent e (server_call e) (\<lambda>_ _. True) s = Inr s' \<and> event_result interest s s'"
proof -
  have h: "conn_handlers ch" using conn_okD(9) [OF ok] ch by auto
  let ?g = "HandleEventWithGuard (tc_call e (server_call e)) (\<lambda>s. the (p_chans s (tc_chan s))) s"
  have g: "if closes_twice e ch (tc_input s) then ?g = Inl AssertFailed else \<exists>s'. ?g = Inr s' \<and> event_result interest s s'"
  proof (cases "ch_revents ch AND EPOLLHUP \<noteq> 0 \<and> ch_revents ch AND EPOLLIN = 0")
    case True
    then show ?thesis using guard_hangup [OF env ok up size ch h] by blast
  next
    case False
    then have "\<not> closes_twice e ch (tc_input s)" by (auto simp: closes_twice_def revents_ok_def)
    then show ?thesis using guard_event [OF env ok up size ch h False] by simp
  qed
  have "tc_HandleEvent e (server_call e) (\<lambda>_ _. True) s = ?g"
    using ch h by (auto simp: tc_HandleEvent_def tc_deref_def HandleEvent_def conn_handlers_def tie_ok_def)
  then show ?thesis using g by simp
qed

lemma event_own:
  assumes "tc_HandleEvent e (server_call e) (\<lambda>_ _. True) s = Inr s'"
  shows "conn_own s s'"
proof -
  have call: "tc_call e (server_call e) cb s = Inr s' \<Longrightarrow> conn_own s s'" for cb s s'
    using server.HandleRead_own server.HandleWrite_own server.HandleClose_own by (cases cb) (auto simp: HandleError_def)
  have "call_if (tc_call e (server_call e)) b cb s = Inr s' \<Longrightarrow> conn_own s s'" for b cb s s'
    using call by (auto simp: call_if_def split: if_splits option.splits)
  then have "HandleEventWithGuard (tc_call e (server_call e)) chan s = Inr s' \<Longrightarrow> conn_own s s'" for chan
    unfolding HandleEventWithGuard_def bindE_Inr_iff using conn_own_trans by blast
  then show ?thesis using assms by (auto simp: tc_HandleEvent_def bindE_Inr_iff HandleEvent_def split: if_splits option.splits)
qed

end
