(* ===== verification/EchoTasks.thy ===== *)
theory EchoTasks
  imports EchoConn
begin

unbundle bit_operations_syntax

text \<open>
  The invariant of the echo server as a whole, and every operation against it: the handling of an
  event that does not close a connection twice, the three tasks of the server's queues, an accept and
  a poll whose \<open>epoll_wait\<close> returns events succeed, keep the invariant, and do to the books of
  \<open>TcpServer\<close> what the theory \<open>TcpServer\<close> says.
\<close>

section \<open>Invariant of the system\<close>

text \<open>
  On every loop: each connection is well-formed over the loop's poller; the loop's channels are
  exactly those of its connections, one each; the active channels still to be handled are distinct
  and belong to connections that are up. Different loops have different threads.
\<close>

definition loops_inv :: "('k \<Rightarrow> int \<rightharpoonup> epoll_event) \<Rightarrow> 'k echo_system \<Rightarrow> bool" where
  "loops_inv interest x \<longleftrightarrow>
     (\<forall>c l k. es_conns x c = Some (l, k) \<longrightarrow> conn_ok interest c (poller.extend (es_loops x l) k))
   \<and> (\<forall>l. poller_inv interest (es_loops x l))
   \<and> (\<forall>l a. p_chans (es_loops x l) a \<noteq> None \<longrightarrow> (\<exists>c k. es_conns x c = Some (l, k) \<and> tc_chan (poller.extend (es_loops x l) k) = a))
   \<and> (\<forall>c d l k h. es_conns x c = Some (l, k) \<longrightarrow> es_conns x d = Some (l, h) \<longrightarrow>
        tc_chan (poller.extend (es_loops x l) k) = tc_chan (poller.extend (es_loops x l) h) \<longrightarrow> c = d)
   \<and> (\<forall>l. distinct (es_active x l))
   \<and> (\<forall>l a. a \<in> set (es_active x l) \<longrightarrow> (\<exists>c k ch. es_conns x c = Some (l, k) \<and> tc_chan (poller.extend (es_loops x l) k) = a
        \<and> tc_state (poller.extend (es_loops x l) k) = kConnected \<and> p_chans (es_loops x l) a = Some ch))
   \<and> (\<forall>l l'. p_loop_tid (es_loops x l) = p_loop_tid (es_loops x l') \<longrightarrow> l = l')"

lemma loops_invD:
  assumes "loops_inv interest x"
  shows "es_conns x c = Some (l, k) \<Longrightarrow> conn_ok interest c (poller.extend (es_loops x l) k)"
    "poller_inv interest (es_loops x l)"
    "p_chans (es_loops x l) a \<noteq> None \<Longrightarrow> \<exists>c k. es_conns x c = Some (l, k) \<and> tc_chan (poller.extend (es_loops x l) k) = a"
    "es_conns x c = Some (l, k) \<Longrightarrow> es_conns x d = Some (l, h) \<Longrightarrow>
       tc_chan (poller.extend (es_loops x l) k) = tc_chan (poller.extend (es_loops x l) h) \<Longrightarrow> c = d"
    "distinct (es_active x l)"
    "a \<in> set (es_active x l) \<Longrightarrow> \<exists>c k ch. es_conns x c = Some (l, k) \<and> tc_chan (poller.extend (es_loops x l) k) = a
       \<and> tc_state (poller.extend (es_loops x l) k) = kConnected \<and> p_chans (es_loops x l) a = Some ch"
    "p_loop_tid (es_loops x l) = p_loop_tid (es_loops x l') \<Longrightarrow> l = l'"
  using assms unfolding loops_inv_def by blast+

lemma loops_invI:
  assumes "\<And>c l k. es_conns x c = Some (l, k) \<Longrightarrow> conn_ok interest c (poller.extend (es_loops x l) k)"
    "\<And>l. poller_inv interest (es_loops x l)"
    "\<And>l a. p_chans (es_loops x l) a \<noteq> None \<Longrightarrow> \<exists>c k. es_conns x c = Some (l, k) \<and> tc_chan (poller.extend (es_loops x l) k) = a"
    "\<And>c d l k h. es_conns x c = Some (l, k) \<Longrightarrow> es_conns x d = Some (l, h) \<Longrightarrow>
       tc_chan (poller.extend (es_loops x l) k) = tc_chan (poller.extend (es_loops x l) h) \<Longrightarrow> c = d"
    "\<And>l. distinct (es_active x l)"
    "\<And>l a. a \<in> set (es_active x l) \<Longrightarrow> \<exists>c k ch. es_conns x c = Some (l, k) \<and> tc_chan (poller.extend (es_loops x l) k) = a
       \<and> tc_state (poller.extend (es_loops x l) k) = kConnected \<and> p_chans (es_loops x l) a = Some ch"
    "\<And>l l'. p_loop_tid (es_loops x l) = p_loop_tid (es_loops x l') \<Longrightarrow> l = l'"
  shows "loops_inv interest x"
  unfolding loops_inv_def using assms by blast

lemma poller_inv_extend [simp]: "poller_inv interest (poller.extend P k) = poller_inv interest P"
  by (rule poller_inv_cong) simp_all

lemma conn_ok_truncate [simp]:
  fixes s :: "'k echo_run"
  shows "conn_ok interest c (tcp_connection.truncate s) = conn_ok interest c s"
proof -
  have "poller_inv interest (tcp_connection.truncate s) = poller_inv interest s" by (rule poller_inv_cong) simp_all
  then show ?thesis by (simp add: conn_ok_def tc_inv_def unwatched_def)
qed

lemma poller_truncate_enter: "poller.truncate (enter_conn l k x) = es_loops x l"
proof -
  define t where "t = poller.extend (es_loops x l) k"
  have "poller.truncate t = es_loops x l" by (cases "es_loops x l") (simp add: t_def poller.defs)
  then show ?thesis unfolding enter_conn_def t_def [symmetric] by (cases t) (simp add: poller.defs tcp_connection.defs)
qed

text \<open>A connection whose own channel stays as it is is well-formed over the changed poller too.\<close>

lemma conn_ok_move:
  fixes k :: conn_part
  assumes ok: "conn_ok interest c (poller.extend P k)" and inv: "poller_inv interest Q"
    and chan: "p_chans Q (tc_chan (poller.extend P k)) = p_chans P (tc_chan (poller.extend P k))"
  shows "conn_ok interest c (poller.extend Q k)"
proof -
  note f = part_fields [of Q k P]
  show ?thesis using ok inv unfolding conn_ok_def tc_inv_def unwatched_def f extend_poller poller_inv_extend chan by blast
qed

lemma leave_view: "poller.extend (poller.truncate s) (poller.more (tcp_connection.truncate s)) = tcp_connection.truncate (s :: 'k echo_run)"
  by (rule truncate_extend)

lemma leave_conns: "es_conns (leave_conn l c s x) d = (if d = c then Some (l, poller.more (tcp_connection.truncate s)) else es_conns x d)"
  "es_loops (leave_conn l c s x) l' = (if l' = l then poller.truncate s else es_loops x l')"
  "es_active (leave_conn l c s x) = es_active x"
  by (simp_all add: leave_conn_def)

text \<open>An operation on one connection keeps the invariant of all.\<close>

lemma leave_conn_inv:
  fixes x :: "'k echo_system"
  assumes inv: "loops_inv interest x" and c: "es_conns x c = Some (l, k)"
    and own: "conn_own (enter_conn l k x) s" and ok: "conn_ok interest c s"
    and act: "tc_state s = kConnected \<or> tc_chan s \<notin> set (es_active x l)"
  shows "loops_inv interest (leave_conn l c s x)" (is "loops_inv interest ?y")
proof -
  note i = loops_invD [OF inv]
  let ?a = "tc_chan (poller.extend (es_loops x l) k)" and ?P = "poller.truncate s"
  have "tc_chan (enter_conn l k x) = ?a" using truncate_fields(4) [of "enter_conn l k x"] by simp
  then have a: "tc_chan s = ?a" and P: "own_only ?a (es_loops x l) ?P"
    using own by (simp_all add: conn_own_def poller_truncate_enter)
  have view: "poller.extend ?P (poller.more (tcp_connection.truncate s)) = tcp_connection.truncate s" by (rule leave_view)
  have others: "p_chans ?P b = p_chans (es_loops x l) b" if "b \<noteq> ?a" for b using P that by (simp add: own_only_def)
  have tid: "p_loop_tid ?P = p_loop_tid (es_loops x l)" using P by (simp add: own_only_def)
  have Pinv: "poller_inv interest ?P"
  proof -
    have "poller_inv interest s" using conn_okD(1) [OF ok] by (rule tc_invD(1))
    then show ?thesis using poller_inv_cong [of ?P s interest] by simp
  qed
  have other_chan: "tc_chan (poller.extend Q h) \<noteq> ?a" if "es_conns x d = Some (l, h)" "d \<noteq> c" for d h and Q :: "(tc_callback, 'k) poller"
    using i(4) [OF c that(1)] that(2) part_fields(4) [of Q h "es_loops x l"] by auto
  show ?thesis
  proof (rule loops_invI)
    show "conn_ok interest d (poller.extend (es_loops ?y m) h)" if d: "es_conns ?y d = Some (m, h)" for d m h
    proof (cases "d = c")
      case True
      then show ?thesis using d ok view by (auto simp: leave_conns)
    next
      case False
      then have d': "es_conns x d = Some (m, h)" using d by (simp add: leave_conns)
      show ?thesis
      proof (cases "m = l")
        case True
        have "conn_ok interest d (poller.extend ?P h)"
          by (rule conn_ok_move [OF i(1) [OF d'] Pinv])
            (use True others other_chan [OF _ False] d' in auto)
        then show ?thesis using True by (simp add: leave_conns)
      qed (use i(1) [OF d'] in \<open>simp add: leave_conns\<close>)
    qed
    show "poller_inv interest (es_loops ?y m)" for m using i(2) Pinv by (simp add: leave_conns)
    show "\<exists>d h. es_conns ?y d = Some (m, h) \<and> tc_chan (poller.extend (es_loops ?y m) h) = b"
      if b: "p_chans (es_loops ?y m) b \<noteq> None" for m b
    proof (cases "m = l \<and> b = ?a")
      case True
      then show ?thesis using view a by (intro exI [of _ c]) (simp add: leave_conns)
    next
      case False
      then have "p_chans (es_loops x m) b \<noteq> None" using b others by (auto simp: leave_conns split: if_splits)
      then obtain d h where d: "es_conns x d = Some (m, h)" "tc_chan (poller.extend (es_loops x m) h) = b" using i(3) by blast
      then have "d \<noteq> c" using False c by auto
      then show ?thesis using d part_fields(4) [of ?P h "es_loops x l"] by (intro exI [of _ d] exI [of _ h]) (auto simp: leave_conns)
    qed
    show "d = d'" if d: "es_conns ?y d = Some (m, h)" "es_conns ?y d' = Some (m, h')"
      "tc_chan (poller.extend (es_loops ?y m) h) = tc_chan (poller.extend (es_loops ?y m) h')" for d d' m h h'
    proof -
      have key: "\<exists>g. es_conns x e = Some (m, g) \<and> tc_chan (poller.extend (es_loops x m) g) = tc_chan (poller.extend (es_loops ?y m) f)"
        if "es_conns ?y e = Some (m, f)" for e f
      proof (cases "e = c")
        case True
        then have "m = l" "f = poller.more (tcp_connection.truncate s)" using that by (auto simp: leave_conns)
        then show ?thesis using True c view a by (intro exI [of _ k]) (simp add: leave_conns)
      next
        case False
        then show ?thesis using that part_fields(4) [of "es_loops ?y m" f "es_loops x m"] by (intro exI [of _ f]) (simp add: leave_conns)
      qed
      from key [OF d(1)] key [OF d(2)] d(3) i(4) show ?thesis by metis
    qed
    show "distinct (es_active ?y m)" for m using i(5) by (simp add: leave_conns)
    show "\<exists>d h ch. es_conns ?y d = Some (m, h) \<and> tc_chan (poller.extend (es_loops ?y m) h) = b
        \<and> tc_state (poller.extend (es_loops ?y m) h) = kConnected \<and> p_chans (es_loops ?y m) b = Some ch"
      if "b \<in> set (es_active ?y m)" for m b
    proof -
      have "b \<in> set (es_active x m)" using that by (simp add: leave_conns)
      then obtain d h ch where d: "es_conns x d = Some (m, h)" "tc_chan (poller.extend (es_loops x m) h) = b"
          "tc_state (poller.extend (es_loops x m) h) = kConnected" "p_chans (es_loops x m) b = Some ch"
        using i(6) by blast
      show ?thesis
      proof (cases "d = c")
        case True
        then have m: "m = l" "b = ?a" using d c by auto
        then have "tc_state s = kConnected" using act a \<open>b \<in> set (es_active x m)\<close> by simp
        moreover obtain ch' where "p_chans ?P b = Some ch'"
          using P d(4) m by (auto simp: own_only_def same_handlers_def)
        ultimately show ?thesis using True m view a by (intro exI [of _ c]) (simp add: leave_conns)
      next
        case False
        then show ?thesis using d others other_chan [OF _ False, of h "es_loops x l"]
            part_fields(1,4) [of ?P h "es_loops x l"]
          by (intro exI [of _ d] exI [of _ h] exI [of _ ch]) (auto simp: leave_conns)
      qed
    qed
    show "m = m'" if "p_loop_tid (es_loops ?y m) = p_loop_tid (es_loops ?y m')" for m m'
      using that tid i(7) by (auto simp: leave_conns split: if_splits)
  qed
qed

text \<open>The books: the abstract server is in a good state, and no task is left for a destroyed connection.\<close>

definition dead_inv :: "'k echo_system \<Rightarrow> bool" where
  "dead_inv x \<longleftrightarrow> (\<forall>c k. es_dead x c = Some k \<longrightarrow> es_conns x c = None \<and> sc_state k = kDisconnected)
     \<and> (\<forall>l t. t \<in> set (es_queues x l) \<longrightarrow> es_dead x (task_conn t) = None)"

definition es_inv :: "('k \<Rightarrow> int \<rightharpoonup> epoll_event) \<Rightarrow> 'k echo_system \<Rightarrow> bool" where
  "es_inv interest x \<longleftrightarrow> loops_inv interest x \<and> sv_good (es_abs x) \<and> dead_inv x"

lemma es_abs_simps [simp]:
  "sv_loop (es_abs x) = es_loop x" "sv_name (es_abs x) = es_name x" "sv_started (es_abs x) = es_started x"
  "sv_next_conn_id (es_abs x) = es_next_conn_id x" "sv_connections (es_abs x) = es_connections x"
  "sv_thread_pool (es_abs x) = es_thread_pool x" "sv_init_callback (es_abs x) = es_init_callback x"
  "sv_queues (es_abs x) = es_queues x"
  by (simp_all add: es_abs_def)

lemma abs_conn: "es_conns x c = Some (l, k) \<Longrightarrow> sv_conns (es_abs x) c = Some (conn_abs l (poller.extend (es_loops x l) k))"
  by (simp add: es_abs_def)

lemma abs_no_conn: "es_conns x c = None \<Longrightarrow> sv_conns (es_abs x) c = es_dead x c"
  by (simp add: es_abs_def)

lemma conn_abs_part:
  fixes P Q :: "(tc_callback, 'k) poller" and k :: conn_part
  shows "conn_abs l (poller.extend P k) = conn_abs l (poller.extend Q k)"
  using part_fields(1,2) [of P k Q] by (simp add: conn_abs_def)

text \<open>Only the connections' names, loops and states count, not the pollers.\<close>

lemma abs_conns_cong:
  fixes x y :: "'k echo_system"
  assumes "\<And>d. d \<noteq> c \<Longrightarrow> es_conns y d = es_conns x d" "\<And>d. d \<noteq> c \<Longrightarrow> es_dead y d = es_dead x d"
  shows "sv_conns (es_abs y) = (sv_conns (es_abs x))(c := sv_conns (es_abs y) c)"
proof
  fix d
  have "sv_conns (es_abs y) d = sv_conns (es_abs x) d" if "d \<noteq> c"
    using assms [OF that] conn_abs_part [of _ "es_loops y _" _ "es_loops x _"]
    by (auto simp: es_abs_def split: option.splits)
  then show "sv_conns (es_abs y) d = ((sv_conns (es_abs x))(c := sv_conns (es_abs y) c)) d" by simp
qed

lemma leave_abs:
  assumes "es_conns x c = Some (l, k)"
  shows "es_abs (leave_conn l c s x) = (es_abs x)\<lparr>
     sv_conns := (sv_conns (es_abs x))(c \<mapsto> conn_abs l (tcp_connection.truncate s)),
     sv_queues := (es_queues x)(es_loop x := er_pending s)\<rparr>"
proof -
  let ?y = "leave_conn l c s x"
  have "sv_conns (es_abs ?y) c = Some (conn_abs l (tcp_connection.truncate s))"
    by (simp add: es_abs_def leave_conns leave_view)
  then have "sv_conns (es_abs ?y) = (sv_conns (es_abs x))(c \<mapsto> conn_abs l (tcp_connection.truncate s))"
    using abs_conns_cong [of c ?y x] by (simp add: leave_conn_def)
  then show ?thesis by (simp add: leave_conn_def es_abs_def)
qed

section \<open>Events\<close>

lemma loops_inv_fields:
  assumes "loops_inv interest x" "es_conns y = es_conns x" "es_loops y = es_loops x" "\<And>l. es_active y l = es_active x l \<or> es_active y l = tl (es_active x l)"
  shows "loops_inv interest y"
proof -
  note i = loops_invD [OF assms(1)]
  have "\<forall>l. distinct (es_active y l)"
  proof
    show "distinct (es_active y l)" for l using i(5) [of l] assms(4) [of l] by (auto simp: distinct_tl)
  qed
  moreover have "\<forall>l a. a \<in> set (es_active y l) \<longrightarrow> (\<exists>c k ch. es_conns x c = Some (l, k) \<and> tc_chan (poller.extend (es_loops x l) k) = a
       \<and> tc_state (poller.extend (es_loops x l) k) = kConnected \<and> p_chans (es_loops x l) a = Some ch)"
  proof (intro allI impI)
    fix l a
    assume "a \<in> set (es_active y l)"
    then have "a \<in> set (es_active x l)" using assms(4) [of l] by (cases "es_active x l") auto
    then show "\<exists>c k ch. es_conns x c = Some (l, k) \<and> tc_chan (poller.extend (es_loops x l) k) = a
       \<and> tc_state (poller.extend (es_loops x l) k) = kConnected \<and> p_chans (es_loops x l) a = Some ch"
      by (rule i(6))
  qed
  ultimately show ?thesis using assms(1) unfolding loops_inv_def assms(2,3) by blast
qed

lemma es_abs_active [simp]: "es_abs (x\<lparr>es_active := f\<rparr>) = es_abs x"
  by (simp add: es_abs_def fun_eq_iff split: option.split)

lemma enter_ok:
  assumes "loops_inv interest x" "es_conns x c = Some (l, k)"
  shows "conn_ok interest c (enter_conn l k x)" "p_loop_tid (enter_conn l k x) = p_loop_tid (es_loops x l)"
    "tc_state (enter_conn l k x) = tc_state (poller.extend (es_loops x l) k)"
    "tc_chan (enter_conn l k x) = tc_chan (poller.extend (es_loops x l) k)"
    "tc_name (enter_conn l k x) = tc_name (poller.extend (es_loops x l) k)"
    "tc_input (enter_conn l k x) = tc_input (poller.extend (es_loops x l) k)"
    "p_chans (enter_conn l k x) = p_chans (es_loops x l)"
  using loops_invD(1) [OF assms] conn_ok_truncate [of interest c "enter_conn l k x"]
    truncate_fields [of "enter_conn l k x"] by simp_all

lemma dead_invD:
  assumes "dead_inv x"
  shows "es_dead x c = Some h \<Longrightarrow> es_conns x c = None" "es_dead x c = Some h \<Longrightarrow> sc_state h = kDisconnected"
    "es_conns x c = Some y \<Longrightarrow> es_dead x c = None" "t \<in> set (es_queues x l) \<Longrightarrow> es_dead x (task_conn t) = None"
  using assms unfolding dead_inv_def by (blast | cases "es_dead x c"; auto)+

lemma dead_inv_pop:
  assumes D: "dead_inv x" and q: "es_queues x l = t # ts"
  shows "dead_inv (x\<lparr>es_queues := (es_queues x)(l := ts)\<rparr>)"
proof -
  have "es_dead x (task_conn u) = None" if "u \<in> set (((es_queues x)(l := ts)) m)" for m u
    using dead_invD(4) [OF D, of u m] that q by (auto split: if_splits)
  then show ?thesis using D unfolding dead_inv_def by simp
qed

lemma leave_conn_dead:
  assumes D: "dead_inv x" and c: "es_conns x c = Some (l, k)"
    and q: "\<And>t. t \<in> set (er_pending s) \<Longrightarrow> t \<in> set (es_queues x (es_loop x)) \<or> task_conn t = c"
  shows "dead_inv (leave_conn l c s x)"
  unfolding dead_inv_def
proof (intro conjI allI impI)
  fix d h assume d: "es_dead (leave_conn l c s x) d = Some h"
  then have "es_dead x d = Some h" by (simp add: leave_conn_def)
  then show "es_conns (leave_conn l c s x) d = None" "sc_state h = kDisconnected"
    using dead_invD(1-3) [OF D] c by (auto simp: leave_conns)
next
  fix m t assume "t \<in> set (es_queues (leave_conn l c s x) m)"
  then show "es_dead (leave_conn l c s x) (task_conn t) = None"
    using q dead_invD(3) [OF D c] dead_invD(4) [OF D] by (auto simp: leave_conn_def split: if_splits)
qed

text \<open>An active channel belongs to a connection that is up; its event closes it twice, or ends as in \<open>event_result\<close>.\<close>

lemma event_entered:
  assumes L: "loops_inv interest x" and env: "op_env_ok interest (p_loop_tid (es_loops x l)) e"
    and a: "a \<in> set (es_active x l)" and c: "es_conns x c = Some (l, k)" "tc_chan (poller.extend (es_loops x l) k) = a"
    and size: "length (buffer_mem (tc_input (poller.extend (es_loops x l) k))) < 2 ^ 63"
    and ch: "p_chans (es_loops x l) a = Some ch"
  shows "tc_state (poller.extend (es_loops x l) k) = kConnected"
    "if closes_twice e ch (tc_input (poller.extend (es_loops x l) k))
     then tc_HandleEvent e (server_call e) (\<lambda>_ _. True) (enter_conn l k x) = Inl AssertFailed
     else \<exists>s. tc_HandleEvent e (server_call e) (\<lambda>_ _. True) (enter_conn l k x) = Inr s \<and> event_result interest (enter_conn l k x) s"
proof -
  note s = enter_ok [OF L c(1)]
  show up: "tc_state (poller.extend (es_loops x l) k) = kConnected"
    using loops_invD(6) [OF L a] loops_invD(4) [OF L c(1)] c by auto
  show "if closes_twice e ch (tc_input (poller.extend (es_loops x l) k))
     then tc_HandleEvent e (server_call e) (\<lambda>_ _. True) (enter_conn l k x) = Inl AssertFailed
     else \<exists>s. tc_HandleEvent e (server_call e) (\<lambda>_ _. True) (enter_conn l k x) = Inr s \<and> event_result interest (enter_conn l k x) s"
    using event_server [of interest "enter_conn l k x" e c ch] env size up c ch unfolding s(2-4,6,7) using s(1) by simp
qed

lemma enter_active [simp]: "enter_conn l k (x\<lparr>es_active := f\<rparr>) = enter_conn l k x"
  by (simp add: enter_conn_def)

lemma HandleEvent_twice:
  assumes inv: "es_inv interest x" and env: "op_env_ok interest (p_loop_tid (es_loops x l)) e"
    and a: "es_active x l = a # as" and c: "es_conns x c = Some (l, k)" "tc_chan (poller.extend (es_loops x l) k) = a"
    and size: "length (buffer_mem (tc_input (poller.extend (es_loops x l) k))) < 2 ^ 63"
    and ch: "p_chans (es_loops x l) a = Some ch"
    and twice: "closes_twice e ch (tc_input (poller.extend (es_loops x l) k))"
  shows "es_HandleEvent e c (x\<lparr>es_active := (es_active x)(l := as)\<rparr>) = Inl AssertFailed"
proof -
  have "loops_inv interest x" "a \<in> set (es_active x l)" using inv a by (simp_all add: es_inv_def)
  from event_entered(2) [OF this(1) env this(2) c size ch] twice c(1) show ?thesis by (simp add: es_HandleEvent_def run_conn_def)
qed

lemma HandleEvent_step:
  assumes inv: "es_inv interest x" and env: "op_env_ok interest (p_loop_tid (es_loops x l)) e"
    and a: "es_active x l = a # as" and c: "es_conns x c = Some (l, k)" "tc_chan (poller.extend (es_loops x l) k) = a"
    and size: "length (buffer_mem (tc_input (poller.extend (es_loops x l) k))) < 2 ^ 63"
    and ch: "p_chans (es_loops x l) a = Some ch"
    and once: "\<not> closes_twice e ch (tc_input (poller.extend (es_loops x l) k))"
  shows "\<exists>x'. es_HandleEvent e c (x\<lparr>es_active := (es_active x)(l := as)\<rparr>) = Inr x' \<and> es_inv interest x'
    \<and> (es_abs x' = es_abs x \<or> server_step (es_abs x) (es_abs x'))
    \<and> es_queues x' = (es_queues x)(es_loop x := es_queues x (es_loop x) @
        (if tc_state (poller.extend (es_loops x' l) (snd (the (es_conns x' c)))) = kConnected then [] else [RemoveConnectionInLoopTask c]))"
proof -
  define x1 where "x1 = x\<lparr>es_active := (es_active x)(l := as)\<rparr>"
  have L: "loops_inv interest x" and G: "sv_good (es_abs x)" and D: "dead_inv x" using inv by (simp_all add: es_inv_def)
  have L1: "loops_inv interest x1" by (rule loops_inv_fields [OF L]) (simp_all add: x1_def a)
  have c1: "es_conns x1 c = Some (l, k)" "es_loops x1 = es_loops x" "es_active x1 l = as" "es_abs x1 = es_abs x"
      "es_queues x1 = es_queues x" "es_loop x1 = es_loop x" "es_dead x1 = es_dead x"
    using c by (simp_all add: x1_def)
  let ?s = "enter_conn l k x1"
  note s = enter_ok [OF L1 c1(1)]
  have mem: "a \<in> set (es_active x l)" by (simp add: a)
  note up = event_entered(1) [OF L env mem c size ch]
  obtain s' where s': "tc_HandleEvent e (server_call e) (\<lambda>_ _. True) ?s = Inr s'" "event_result interest ?s s'"
    using event_entered(2) [OF L env mem c size ch] once by (auto simp: x1_def)
  note own = event_own [OF s'(1)]
  have res: "tc_inv interest s'" "tc_state s' = kConnected \<and> er_pending s' = es_queues x (es_loop x)
      \<or> tc_state s' = kDisconnected \<and> unwatched s' \<and> er_pending s' = es_queues x (es_loop x) @ [RemoveConnectionInLoopTask c]"
    using s'(2) s up c1 conn_okD(2) [OF s(1)] by (auto simp: event_result_def)
  have ok': "conn_ok interest c s'" by (rule conn_ok_own [OF s(1) own res(1)]) (use res(2) in blast)
  have "tc_chan s' = a" using own s(4) c c1 by (simp add: conn_own_def)
  moreover have "a \<notin> set as" using loops_invD(5) [OF L, of l] a by simp
  ultimately have L2: "loops_inv interest (leave_conn l c s' x1)"
    by (intro leave_conn_inv [OF L1 c1(1) own ok']) (simp add: c1)
  define x2 where "x2 = leave_conn l c s' x1"
  have name: "tc_name s' = tc_name (poller.extend (es_loops x l) k)" using own s(5) c1 by (simp add: conn_own_def)
  have abs2: "es_abs x2 = (es_abs x)\<lparr>sv_conns := (sv_conns (es_abs x))(c \<mapsto> (conn_abs l (poller.extend (es_loops x l) k))\<lparr>sc_state := tc_state s'\<rparr>),
      sv_queues := (es_queues x)(es_loop x := er_pending s')\<rparr>"
    unfolding x2_def leave_abs [OF c1(1)] c1 by (simp add: conn_abs_def name)
  have absc: "sv_conns (es_abs x) c = Some (conn_abs l (poller.extend (es_loops x l) k))" by (rule abs_conn [OF c(1)])
  have st: "sc_state (conn_abs l (poller.extend (es_loops x l) k)) = kConnected" using up by (simp add: conn_abs_def)
  have step: "es_abs x2 = es_abs x \<or> server_step (es_abs x) (es_abs x2)"
    using res(2)
  proof
    assume "tc_state s' = kConnected \<and> er_pending s' = es_queues x (es_loop x)"
    then have "es_abs x2 = es_abs x"
      unfolding abs2 using absc st by (simp add: conn_abs_def up fun_upd_idem)
    then show ?thesis ..
  next
    assume r: "tc_state s' = kDisconnected \<and> unwatched s' \<and> er_pending s' = es_queues x (es_loop x) @ [RemoveConnectionInLoopTask c]"
    have "es_abs x2 = TcpServer.RemoveConnection c ((es_abs x)\<lparr>sv_conns := (sv_conns (es_abs x))(c \<mapsto>
        (conn_abs l (poller.extend (es_loops x l) k))\<lparr>sc_state := kDisconnected\<rparr>)\<rparr>)"
      unfolding abs2 using r by (simp add: TcpServer.RemoveConnection_def push_task_def)
    then show ?thesis using sv_close [OF absc] st by simp
  qed
  have "dead_inv x1" using D unfolding dead_inv_def by (simp add: x1_def)
  then have "dead_inv x2" unfolding x2_def by (rule leave_conn_dead [OF _ c1(1)]) (use res(2) c1 in auto)
  moreover have "sv_good (es_abs x2)" using step server_step_good [OF G] G by auto
  moreover have "poller.extend (es_loops x2 l) (snd (the (es_conns x2 c))) = tcp_connection.truncate s'"
    by (simp add: x2_def leave_conns leave_view)
  then have "es_queues x2 = (es_queues x)(es_loop x := es_queues x (es_loop x) @
      (if tc_state (poller.extend (es_loops x2 l) (snd (the (es_conns x2 c)))) = kConnected then [] else [RemoveConnectionInLoopTask c]))"
    using res(2) by (auto simp: x2_def leave_conn_def c1)
  ultimately show ?thesis using s'(1) c1(1) L2 step
    by (intro exI [of _ x2]) (simp add: es_inv_def es_HandleEvent_def run_conn_def x1_def [symmetric] x2_def)
qed

section \<open>Tasks\<close>

lemma established_server:
  assumes L: "loops_inv interest y" and env: "op_env_ok interest (p_loop_tid (es_loops y l)) e" and c: "es_conns y c = Some (l, k)"
    and st: "tc_state (poller.extend (es_loops y l) k) = kConnecting"
  shows "\<exists>s. ConnectEstablished e (server_call e) (enter_conn l k y) = Inr s \<and> conn_own (enter_conn l k y) s \<and> conn_ok interest c s
    \<and> tc_state s = kConnected \<and> er_pending s = es_queues y (es_loop y)"
proof -
  let ?s = "enter_conn l k y"
  note s = enter_ok [OF L c]
  have e: "epoll_ctl_spec (env_ctl e) interest" "env_tid e = p_loop_tid ?s" using env s(2) by (simp_all add: op_env_ok_def)
  have fresh: "tc_state ?s = kConnecting" "\<not> tc_shut ?s" "contents (tc_output ?s) = []" using conn_okD(8) [OF s(1)] s(3) st by auto
  obtain s1 where s1: "ConnectEstablished e (server_call e) ?s = call_opt (server_call e) (tc_connection_callback ?s) s1"
      "tc_inv interest s1" "conn_frame ?s s1" "tc_state s1 = kConnected"
    using establish_Inr [OF e(1) conn_okD(1) [OF s(1)] e(2) fresh] by blast
  then have run: "ConnectEstablished e (server_call e) ?s = Inr s1" using conn_okD(3) [OF s(1)] by (simp add: call_opt_def)
  have own: "conn_own ?s s1" by (rule server.ConnectEstablished_own [OF run])
  moreover have "conn_ok interest c s1" by (rule conn_ok_own [OF s(1) own s1(2)]) (simp add: s1(4))
  ultimately show ?thesis using run s1(4) conn_frame_pending [OF s1(3)] by auto
qed

text \<open>\<open>ConnectDestroyed\<close> on a closed connection: it stays closed, queues nothing and unregisters its channel.\<close>

lemma more_run:
  fixes s s' :: "'k echo_run"
  assumes "poller.more s' = poller.more s"
  shows "tc_state s' = tc_state s" "er_pending s' = er_pending s" "tc_chan s' = tc_chan s"
  using assms by (cases s; cases s'; simp)+

lemma destroyed_server:
  assumes L: "loops_inv interest y" and env: "op_env_ok interest (p_loop_tid (es_loops y l)) e" and c: "es_conns y c = Some (l, k)"
    and st: "tc_state (poller.extend (es_loops y l) k) = kDisconnected"
  shows "\<exists>s. ConnectDestroyed e (server_call e) (enter_conn l k y) = Inr s \<and> conn_own (enter_conn l k y) s \<and> conn_ok interest c s
    \<and> tc_state s = kDisconnected \<and> er_pending s = es_queues y (es_loop y) \<and> poller_inv interest (destroy_channel (tc_chan s) s)"
proof -
  let ?s = "enter_conn l k y"
  note s = enter_ok [OF L c]
  have e: "epoll_ctl_spec (env_ctl e) interest" "write_spec (env_write e)" "env_tid e = p_loop_tid ?s"
    using env s(2) by (simp_all add: op_env_ok_def)
  obtain s1 ch where s1: "ConnectDestroyed e (server_call e) ?s = Inr s1" "tc_inv interest s1" "p_chans s1 (tc_chan ?s) = Some ch"
      "interest (p_kernel s1) (ch_fd ch) = None" "poller_inv interest (destroy_channel (tc_chan ?s) s1)"
    using server_user.ConnectDestroyed_ok [OF e(1,2) conn_okD(1) [OF s(1)] e(3) _ conn_okD(6) [OF s(1)]] conn_okD(3) [OF s(1)] by auto
  obtain s2 where "DisableAll (env_ctl e) (env_tid e) (tc_chan ?s) ?s = Inr s2" "Remove (env_ctl e) (env_tid e) (tc_chan s2) s2 = Inr s1"
    using s1(1) s(3) st by (auto simp: ConnectDestroyed_def bindE_Inr_iff)
  then have "poller.more s1 = poller.more ?s" using setters_own(4) Remove_own by (fastforce simp: own_only_def)
  note same = more_run [OF this]
  have own: "conn_own ?s s1" by (rule server.ConnectDestroyed_own [OF s1(1)])
  have "unwatched s1"
    using poller_inv_added [OF tc_invD(1) [OF s1(2)]] s1(3,4) same(3) by (auto simp: unwatched_def)
  then have "conn_ok interest c s1" using same(1) s(3) st by (intro conn_ok_own [OF s(1) own s1(2)]) simp
  then show ?thesis using s1(1,5) own same s(3) st by auto
qed

text \<open>The end of a connection that is unregistered and not up.\<close>

lemma destroy_conn_inv:
  fixes y z :: "'k echo_system"
  assumes L: "loops_inv interest y" and c: "es_conns y c = Some (l, k)"
    and inv: "poller_inv interest (destroy_channel (tc_chan (poller.extend (es_loops y l) k)) (es_loops y l))"
    and st: "tc_state (poller.extend (es_loops y l) k) \<noteq> kConnected"
    and z: "es_conns z = (es_conns y)(c := None)"
      "es_loops z = (es_loops y)(l := destroy_channel (tc_chan (poller.extend (es_loops y l) k)) (es_loops y l))" "es_active z = es_active y"
  shows "loops_inv interest z"
proof -
  note i = loops_invD [OF L]
  let ?a = "tc_chan (poller.extend (es_loops y l) k)" and ?P = "destroy_channel (tc_chan (poller.extend (es_loops y l) k)) (es_loops y l)"
  have P: "p_chans ?P b = (if b = ?a then None else p_chans (es_loops y l) b)" "p_loop_tid ?P = p_loop_tid (es_loops y l)" for b
    by (simp_all add: destroy_channel_def)
  have chan: "tc_chan (poller.extend (es_loops z m) h) = tc_chan (poller.extend (es_loops y m) h)"
      "tc_state (poller.extend (es_loops z m) h) = tc_state (poller.extend (es_loops y m) h)" for m and h :: conn_part
    using part_fields(1,4) [of "es_loops z m" h "es_loops y m"] by simp_all
  have was: "es_conns y d = Some (m, h) \<and> d \<noteq> c" if "es_conns z d = Some (m, h)" for d m h using that by (simp add: z split: if_splits)
  have other: "tc_chan (poller.extend (es_loops y l) h) \<noteq> ?a" if "es_conns y d = Some (l, h)" "d \<noteq> c" for d h using i(4) [OF c that(1)] that(2) by auto
  show ?thesis
  proof (rule loops_invI)
    show "conn_ok interest d (poller.extend (es_loops z m) h)" if "es_conns z d = Some (m, h)" for d m h
    proof (cases "m = l")
      case True
      have "conn_ok interest d (poller.extend ?P h)"
        by (rule conn_ok_move [OF i(1) [of d m h] inv]) (use was [OF that] True other P(1) in auto)
      then show ?thesis using True by (simp add: z)
    qed (use was [OF that] i(1) [of d m h] in \<open>simp add: z\<close>)
    show "poller_inv interest (es_loops z m)" for m using i(2) inv by (simp add: z)
    show "\<exists>d h. es_conns z d = Some (m, h) \<and> tc_chan (poller.extend (es_loops z m) h) = b" if b: "p_chans (es_loops z m) b \<noteq> None" for m b
    proof -
      have b': "p_chans (es_loops y m) b \<noteq> None" "\<not> (m = l \<and> b = ?a)" using b P(1) by (auto simp: z split: if_splits)
      then obtain d h where d: "es_conns y d = Some (m, h)" "tc_chan (poller.extend (es_loops y m) h) = b" using i(3) by blast
      then have "d \<noteq> c" using b'(2) c by auto
      then show ?thesis using d chan(1) by (intro exI [of _ d] exI [of _ h]) (simp add: z(1))
    qed
    show "d = d'" if "es_conns z d = Some (m, h)" "es_conns z d' = Some (m, h')"
      "tc_chan (poller.extend (es_loops z m) h) = tc_chan (poller.extend (es_loops z m) h')" for d d' m h h'
      using that was i(4) unfolding chan by blast
    show "distinct (es_active z m)" for m using i(5) by (simp add: z)
    show "\<exists>d h ch. es_conns z d = Some (m, h) \<and> tc_chan (poller.extend (es_loops z m) h) = b
        \<and> tc_state (poller.extend (es_loops z m) h) = kConnected \<and> p_chans (es_loops z m) b = Some ch"
      if "b \<in> set (es_active z m)" for m b
    proof -
      have "b \<in> set (es_active y m)" using that by (simp add: z)
      from i(6) [OF this] obtain d h ch where d: "es_conns y d = Some (m, h)" "tc_chan (poller.extend (es_loops y m) h) = b"
          "tc_state (poller.extend (es_loops y m) h) = kConnected" "p_chans (es_loops y m) b = Some ch"
        by blast
      have "d \<noteq> c" using d(1,3) c st by auto
      then have "es_conns z d = Some (m, h)" "p_chans (es_loops z m) b = Some ch" using d other P(1) by (auto simp: z)
      then show ?thesis using d unfolding chan by blast
    qed
    show "m = m'" if "p_loop_tid (es_loops z m) = p_loop_tid (es_loops z m')" for m m'
      using that P(2) i(7) by (auto simp: z split: if_splits)
  qed
qed

lemma ConnectDestroyed_step:
  assumes L: "loops_inv interest y" and env: "op_env_ok interest (p_loop_tid (es_loops y l)) e" and c: "es_conns y c = Some (l, k)"
    and st: "tc_state (poller.extend (es_loops y l) k) = kDisconnected"
  shows "\<exists>z. es_ConnectDestroyed e c y = Inr z \<and> loops_inv interest z \<and> es_abs z = es_abs y \<and> es_conns z = (es_conns y)(c := None)
    \<and> es_dead z = (es_dead y)(c \<mapsto> conn_abs l (poller.extend (es_loops y l) k)) \<and> es_queues z = es_queues y"
proof -
  obtain s where s: "ConnectDestroyed e (server_call e) (enter_conn l k y) = Inr s" "conn_own (enter_conn l k y) s" "conn_ok interest c s"
      "tc_state s = kDisconnected" "er_pending s = es_queues y (es_loop y)" "poller_inv interest (destroy_channel (tc_chan s) s)"
    using destroyed_server [OF assms] by blast
  note enter = enter_ok [OF L c]
  have same: "tc_name s = tc_name (poller.extend (es_loops y l) k)" "tc_chan s = tc_chan (poller.extend (es_loops y l) k)"
    using s(2) enter(4,5) by (simp_all add: conn_own_def)
  have idle: "tc_chan s \<notin> set (es_active y l)"
  proof
    assume "tc_chan s \<in> set (es_active y l)"
    then obtain d h where d: "es_conns y d = Some (l, h)" "tc_chan (poller.extend (es_loops y l) h) = tc_chan s"
        "tc_state (poller.extend (es_loops y l) h) = kConnected"
      using loops_invD(6) [OF L] by blast
    then have "d = c" using loops_invD(4) [OF L d(1) c] same(2) by simp
    with d c st show False by simp
  qed
  define y1 where "y1 = leave_conn l c s y"
  define z where "z = y1\<lparr>es_loops := (es_loops y1)(l := destroy_channel (tc_chan s) (es_loops y1 l)), es_conns := (es_conns y1)(c := None),
      es_dead := (es_dead y1)(c \<mapsto> conn_abs l (tcp_connection.truncate s))\<rparr>"
  have L1: "loops_inv interest y1" unfolding y1_def by (rule leave_conn_inv [OF L c s(2,3)]) (use idle in simp)
  have c1: "es_conns y1 c = Some (l, poller.more (tcp_connection.truncate s))" "es_loops y1 l = poller.truncate s"
      "poller.extend (es_loops y1 l) (poller.more (tcp_connection.truncate s)) = tcp_connection.truncate s"
    by (simp_all add: y1_def leave_conns leave_view)
  have run: "es_ConnectDestroyed e c y = Inr z"
    using s(1) c c1 by (simp add: es_ConnectDestroyed_def run_conn_def y1_def [symmetric] destroy_conn_def z_def conn_abs_def)
  have Lz: "loops_inv interest z"
  proof (rule destroy_conn_inv [OF L1 c1(1)])
    have "poller_inv interest (destroy_channel (tc_chan s) (poller.truncate s)) = poller_inv interest (destroy_channel (tc_chan s) s)"
      by (rule poller_inv_cong) (simp_all add: destroy_channel_def)
    then show "poller_inv interest (destroy_channel (tc_chan (poller.extend (es_loops y1 l) (poller.more (tcp_connection.truncate s)))) (es_loops y1 l))"
      using s(6) c1 by simp
  qed (use s(4) c1 in \<open>simp_all add: z_def\<close>)
  have part: "conn_abs l (tcp_connection.truncate s) = conn_abs l (poller.extend (es_loops y l) k)"
    using same(1) s(4) st by (simp add: conn_abs_def)
  have zc: "es_conns z = (es_conns y)(c := None)" "es_dead z = (es_dead y)(c \<mapsto> conn_abs l (poller.extend (es_loops y l) k))"
      "es_queues z = es_queues y"
    using s(5) part by (simp_all add: z_def y1_def leave_conn_def fun_upd_idem)
  have "sv_conns (es_abs z) c = sv_conns (es_abs y) c" using zc(1,2) abs_no_conn [of z c] abs_conn [OF c] by simp
  then have "sv_conns (es_abs z) = sv_conns (es_abs y)" using abs_conns_cong [of c z y] zc(1,2) by simp
  then have "es_abs z = es_abs y" using zc(3) by (intro server.equality) (simp_all add: z_def y1_def leave_conn_def)
  then show ?thesis using run Lz zc by blast
qed

lemma es_abs_books:
  "es_abs (x\<lparr>es_queues := q\<rparr>) = (es_abs x)\<lparr>sv_queues := q\<rparr>"
  "es_abs (x\<lparr>es_connections := m\<rparr>) = (es_abs x)\<lparr>sv_connections := m\<rparr>"
  by (simp_all add: es_abs_def fun_eq_iff split: option.split)

text \<open>Every task does to the system what its model does to the abstract server.\<close>

lemma task_due:
  assumes inv: "es_inv interest x" and q: "es_queues x l = t # ts"
  shows "\<exists>p l' k. es_conns x (task_conn t) = Some (l', k)
    \<and> due_at (es_loop x) (conn_abs l' (poller.extend (es_loops x l') k)) p l t
    \<and> phase_state p (tc_state (poller.extend (es_loops x l') k))
    \<and> (listed p \<longrightarrow> es_connections x (tc_name (poller.extend (es_loops x l') k)) = Some (task_conn t))
    \<and> (\<forall>m u. u \<in> set (((es_queues x)(l := ts)) m) \<longrightarrow> task_conn u \<noteq> task_conn t)"
proof -
  have D: "dead_inv x" using inv by (simp add: es_inv_def)
  obtain ph where ph: "sv_inv ph (es_abs x)" using inv by (auto simp: es_inv_def sv_good_def)
  have q': "sv_queues (es_abs x) l = t # ts" using q by simp
  obtain h where h: "sv_conns (es_abs x) (task_conn t) = Some h" "due_at (sv_loop (es_abs x)) h (ph (task_conn t)) l t"
    by (rule head_task_due [OF ph q'])
  have "es_dead x (task_conn t) = None" using dead_invD(4) [OF D, of t l] q by simp
  then obtain l' k where k: "es_conns x (task_conn t) = Some (l', k)"
    using h(1) abs_no_conn [of x "task_conn t"] by (cases "es_conns x (task_conn t)") auto
  then have eq: "h = conn_abs l' (poller.extend (es_loops x l') k)" using h(1) abs_conn [OF k] by simp
  have "task_conn u \<noteq> task_conn t" if "u \<in> set (((es_queues x)(l := ts)) m)" for m u
  proof
    assume "task_conn u = task_conn t"
    then have "count_list (((es_queues x)(l := ts)) m) u = 0" using count_pop [OF ph q', of m u] by simp
    then show False using that by (simp add: count_list_0_iff)
  qed
  then show ?thesis using k h(2) eq sv_invD(3) [OF ph h(1)] listed_connection [OF ph h(1)]
    by (intro exI [of _ "ph (task_conn t)"] exI [of _ l'] exI [of _ k]) (auto simp: conn_abs_def)
qed

text \<open>Every task does to the system what its model does to the abstract server.\<close>

lemma established_refines:
  assumes inv: "es_inv interest x" and env: "op_env_ok interest (p_loop_tid (es_loops x l)) e" and q: "es_queues x l = ConnectEstablishedTask c # ts"
  shows "\<exists>x'. es_run_task e (ConnectEstablishedTask c) (x\<lparr>es_queues := (es_queues x)(l := ts)\<rparr>) = Inr x' \<and> loops_inv interest x' \<and> dead_inv x'
    \<and> run_server_task l (ConnectEstablishedTask c) ((es_abs x)\<lparr>sv_queues := (es_queues x)(l := ts)\<rparr>) = Inr (es_abs x')"
proof -
  obtain k where c: "es_conns x c = Some (l, k)" and st: "tc_state (poller.extend (es_loops x l) k) = kConnecting"
    using task_due [OF inv q] by (auto simp: conn_abs_def)
  define x1 where "x1 = x\<lparr>es_queues := (es_queues x)(l := ts)\<rparr>"
  have L1: "loops_inv interest x1" by (rule loops_inv_fields [of interest x]) (use inv in \<open>simp_all add: es_inv_def x1_def\<close>)
  have x1: "es_conns x1 c = Some (l, k)" "es_loops x1 = es_loops x" "es_loop x1 = es_loop x" "es_queues x1 = (es_queues x)(l := ts)"
      "es_abs x1 = (es_abs x)\<lparr>sv_queues := (es_queues x)(l := ts)\<rparr>"
    using c by (simp_all add: x1_def es_abs_books)
  obtain s where s: "ConnectEstablished e (server_call e) (enter_conn l k x1) = Inr s" "conn_own (enter_conn l k x1) s" "conn_ok interest c s"
      "tc_state s = kConnected" "er_pending s = es_queues x1 (es_loop x1)"
    using established_server [OF L1 _ x1(1)] env st x1(2) by auto
  define x2 where "x2 = leave_conn l c s x1"
  have name: "tc_name s = tc_name (poller.extend (es_loops x l) k)" using s(2) enter_ok(5) [OF L1 x1(1)] x1(2) by (simp add: conn_own_def)
  have "loops_inv interest x2" unfolding x2_def by (rule leave_conn_inv [OF L1 x1(1) s(2,3)]) (simp add: s(4))
  moreover have "dead_inv x1" using dead_inv_pop [OF _ q] inv by (simp add: es_inv_def x1_def)
  then have "dead_inv x2" unfolding x2_def by (rule leave_conn_dead [OF _ x1(1)]) (simp add: s(5))
  moreover have "es_abs x2 = (es_abs x)\<lparr>sv_queues := (es_queues x)(l := ts),
      sv_conns := (sv_conns (es_abs x))(c \<mapsto> (conn_abs l (poller.extend (es_loops x l) k))\<lparr>sc_state := kConnected\<rparr>)\<rparr>"
    unfolding x2_def leave_abs [OF x1(1)] s(5) x1(5) by (simp add: conn_abs_def name s(4) x1(3,4) fun_upd_idem)
  moreover have "es_run_task e (ConnectEstablishedTask c) x1 = Inr x2" using s(1) x1(1) by (simp add: run_conn_def x2_def)
  ultimately show ?thesis using abs_conn [OF c] by (intro exI [of _ x2]) (simp add: x1_def)
qed

lemma dead_inv_destroyed:
  assumes D: "dead_inv y" and z: "es_conns z = (es_conns y)(c := None)" "es_dead z = (es_dead y)(c \<mapsto> h)" "es_queues z = es_queues y"
    and h: "sc_state h = kDisconnected" and q: "\<And>m u. u \<in> set (es_queues y m) \<Longrightarrow> task_conn u \<noteq> c"
  shows "dead_inv z"
  unfolding dead_inv_def z using D h q unfolding dead_inv_def by (auto split: if_splits)

lemma destroyed_refines:
  assumes inv: "es_inv interest x" and env: "op_env_ok interest (p_loop_tid (es_loops x l)) e" and q: "es_queues x l = ConnectDestroyedTask c # ts"
  shows "\<exists>x'. es_run_task e (ConnectDestroyedTask c) (x\<lparr>es_queues := (es_queues x)(l := ts)\<rparr>) = Inr x' \<and> loops_inv interest x' \<and> dead_inv x'
    \<and> run_server_task l (ConnectDestroyedTask c) ((es_abs x)\<lparr>sv_queues := (es_queues x)(l := ts)\<rparr>) = Inr (es_abs x')"
proof -
  obtain k where c: "es_conns x c = Some (l, k)" and st: "tc_state (poller.extend (es_loops x l) k) = kDisconnected"
      and none: "\<forall>m u. u \<in> set (((es_queues x)(l := ts)) m) \<longrightarrow> task_conn u \<noteq> c"
    using task_due [OF inv q] by (auto simp: conn_abs_def)
  define x1 where "x1 = x\<lparr>es_queues := (es_queues x)(l := ts)\<rparr>"
  have L1: "loops_inv interest x1" by (rule loops_inv_fields [of interest x]) (use inv in \<open>simp_all add: es_inv_def x1_def\<close>)
  have x1: "es_conns x1 c = Some (l, k)" "es_loops x1 = es_loops x" "es_queues x1 = (es_queues x)(l := ts)"
      "es_abs x1 = (es_abs x)\<lparr>sv_queues := (es_queues x)(l := ts)\<rparr>"
    using c by (simp_all add: x1_def es_abs_books)
  obtain z where z: "es_ConnectDestroyed e c x1 = Inr z" "loops_inv interest z" "es_abs z = es_abs x1" "es_conns z = (es_conns x1)(c := None)"
      "es_dead z = (es_dead x1)(c \<mapsto> conn_abs l (poller.extend (es_loops x1 l) k))" "es_queues z = es_queues x1"
    using ConnectDestroyed_step [OF L1 _ x1(1)] env st x1(2) by auto
  have "dead_inv x1" using dead_inv_pop [OF _ q] inv by (simp add: es_inv_def x1_def)
  then have "dead_inv z"
    by (rule dead_inv_destroyed [OF _ z(4-6)]) (use none x1 st in \<open>auto simp: conn_abs_def\<close>)
  moreover have "run_server_task l (ConnectDestroyedTask c) ((es_abs x)\<lparr>sv_queues := (es_queues x)(l := ts)\<rparr>) = Inr (es_abs z)"
    using abs_conn [OF c] st z(3) x1(4) by (simp add: run_ConnectDestroyed_def conn_abs_def fun_upd_idem)
  ultimately show ?thesis using z(1,2) by (intro exI [of _ z]) (simp add: x1_def)
qed

lemma removed_refines:
  assumes inv: "es_inv interest x" and env: "op_env_ok interest (p_loop_tid (es_loops x l)) e" and q: "es_queues x l = RemoveConnectionInLoopTask c # ts"
  shows "\<exists>x'. es_run_task e (RemoveConnectionInLoopTask c) (x\<lparr>es_queues := (es_queues x)(l := ts)\<rparr>) = Inr x' \<and> loops_inv interest x' \<and> dead_inv x'
    \<and> run_server_task l (RemoveConnectionInLoopTask c) ((es_abs x)\<lparr>sv_queues := (es_queues x)(l := ts)\<rparr>) = Inr (es_abs x')"
proof -
  obtain l' k where c: "es_conns x c = Some (l', k)" and st: "tc_state (poller.extend (es_loops x l') k) = kDisconnected"
      and l: "l = es_loop x" and name: "es_connections x (tc_name (poller.extend (es_loops x l') k)) = Some c"
      and none: "\<forall>m u. u \<in> set (((es_queues x)(l := ts)) m) \<longrightarrow> task_conn u \<noteq> c"
    using task_due [OF inv q] by (auto simp: conn_abs_def listed_def)
  let ?n = "tc_name (poller.extend (es_loops x l') k)"
  define x1 where "x1 = x\<lparr>es_queues := (es_queues x)(l := ts)\<rparr>"
  define x2 where "x2 = x1\<lparr>es_connections := (es_connections x)(?n := None)\<rparr>"
  have L: "loops_inv interest x" using inv by (simp add: es_inv_def)
  have L2: "loops_inv interest x2" by (rule loops_inv_fields [OF L]) (simp_all add: x1_def x2_def)
  have x2: "es_conns x2 c = Some (l', k)" "es_loops x2 = es_loops x" "es_queues x2 = (es_queues x)(l := ts)"
      "es_abs x2 = (es_abs x)\<lparr>sv_queues := (es_queues x)(l := ts), sv_connections := (es_connections x)(?n := None)\<rparr>"
    using c by (simp_all add: x2_def x1_def es_abs_books)
  have "dead_inv x1" using dead_inv_pop [OF _ q] inv by (simp add: es_inv_def x1_def)
  then have D2: "dead_inv x2" by (simp add: dead_inv_def x2_def)
  have tid: "env_tid e = p_loop_tid (es_loops x l)" using env by (simp add: op_env_ok_def)
  then have here: "env_tid e = p_loop_tid (es_loops x l') \<longleftrightarrow> l' = l" using loops_invD(7) [OF L, of l l'] by auto
  have run: "es_run_task e (RemoveConnectionInLoopTask c) x1 =
      (if l' = l then es_ConnectDestroyed e c x2 else Inr (queue_task l' (ConnectDestroyedTask c) x2))"
    using c name tid l here by (simp add: es_RemoveConnectionInLoop_def AssertInLoopThread_def x1_def x2_def Let_def)
  have absrun: "run_server_task l (RemoveConnectionInLoopTask c) ((es_abs x)\<lparr>sv_queues := (es_queues x)(l := ts)\<rparr>) =
      Inr (if l' = l then es_abs x2 else push_task l' (ConnectDestroyedTask c) (es_abs x2))"
    using abs_conn [OF c] name l st x2(4)
    by (simp add: RemoveConnectionInLoop_def run_ConnectDestroyed_def conn_abs_def fun_upd_idem)
  show ?thesis
  proof (cases "l' = l")
    case True
    obtain z where z: "es_ConnectDestroyed e c x2 = Inr z" "loops_inv interest z" "es_abs z = es_abs x2" "es_conns z = (es_conns x2)(c := None)"
        "es_dead z = (es_dead x2)(c \<mapsto> conn_abs l' (poller.extend (es_loops x2 l') k))" "es_queues z = es_queues x2"
      using ConnectDestroyed_step [OF L2 _ x2(1)] env st x2(2) True by auto
    have "dead_inv z" by (rule dead_inv_destroyed [OF D2 z(4-6)]) (use none x2 st in \<open>auto simp: conn_abs_def\<close>)
    then show ?thesis using run absrun z True by (intro exI [of _ z]) (simp add: x1_def)
  next
    case False
    let ?z = "queue_task l' (ConnectDestroyedTask c) x2"
    have "loops_inv interest ?z" by (rule loops_inv_fields [OF L2]) (simp_all add: queue_task_def)
    moreover have "dead_inv ?z" using D2 dead_invD(3) [OF D2 x2(1)] unfolding dead_inv_def by (auto simp: queue_task_def split: if_splits)
    moreover have "es_abs ?z = push_task l' (ConnectDestroyedTask c) (es_abs x2)"
      by (simp add: queue_task_def push_task_def es_abs_books)
    ultimately show ?thesis using run absrun False by (intro exI [of _ ?z]) (simp add: x1_def)
  qed
qed

section \<open>Accepting and polling\<close>

lemma name_free:
  assumes "sv_inv ph s"
  shows "sv_connections s (conn_name (sv_name s) (sv_next_conn_id s)) = None"
proof (cases "sv_connections s (conn_name (sv_name s) (sv_next_conn_id s))")
  case (Some c)
  then obtain k where k: "sv_conns s c = Some k" "sc_name k = conn_name (sv_name s) (sv_next_conn_id s)"
    using sv_invD(6) [OF assms] by blast
  then show ?thesis using sv_invD(4) [OF assms k(1)] conn_name_inj by fastforce
qed

text \<open>The connection the server makes is well-formed, and brings a channel of its own.\<close>

lemma new_conn_ok:
  assumes "poller_inv interest P" and "p_chans P ch = None" and "\<forall>d dh. p_chans P d = Some dh \<longrightarrow> ch_fd dh \<noteq> sockfd"
  shows "\<exists>t. new_TcpConnection P obj ch name sockfd = Inr t
    \<and> (let t1 = t\<lparr>tc_connection_callback := Some OnConnectionCallback, tc_message_callback := Some OnMessage,
         tc_close_callback := Some echo_callback.RemoveConnection\<rparr>
       in conn_ok interest obj t1 \<and> tc_state t1 = kConnecting \<and> tc_name t1 = name \<and> tc_chan t1 = ch
         \<and> poller.truncate t1 = create_channel ch (conn_channel sockfd) P)"
proof -
  obtain b where b: "new_Buffer kInitialSize = Inr b" "buffer_inv b" "contents b = []" using new_Buffer_Inr by blast
  define P1 where "P1 = create_channel ch (conn_channel sockfd) P"
  define t1 where "t1 = poller.extend P1 (tcp_connection.fields obj name kConnecting ch [] False b b
      (Some OnConnectionCallback) (Some echo_callback.RemoveConnection) None (Some OnMessage) None)"
  have P1: "poller_inv interest P1" unfolding P1_def
    by (rule create_channel_inv [OF assms(1,2)]) (use assms(3) in \<open>simp_all add: conn_channel_def new_Channel_fields\<close>)
  have f: "tc_state t1 = kConnecting" "tc_name t1 = name" "tc_chan t1 = ch" "tc_self t1 = obj" "\<not> tc_shut t1" "tc_input t1 = b" "tc_output t1 = b"
      "tc_connection_callback t1 = Some OnConnectionCallback" "tc_message_callback t1 = Some OnMessage"
      "tc_close_callback t1 = Some echo_callback.RemoveConnection" "tc_write_complete_callback t1 = None"
      "p_chans t1 ch = Some (conn_channel sockfd)" "poller.truncate t1 = P1"
    by (simp_all add: t1_def tcp_connection.defs poller.defs P1_def create_channel_def)
  have inv1: "poller_inv interest t1" using P1 by (simp add: t1_def)
  have h: "is_none_event (conn_channel sockfd)" "conn_handlers (conn_channel sockfd)" "ch_index (conn_channel sockfd) \<noteq> kAdded"
    by (simp_all add: conn_channel_def new_Channel_def is_none_event_def conn_handlers_def index_defs tie_ok_def)
  have "tc_inv interest t1" by (rule tc_invI [where ch = "conn_channel sockfd"]) (use f b h inv1 in simp_all)
  then have "conn_ok interest obj t1" using f h b(3) by (simp add: conn_ok_def unwatched_def)
  moreover have "\<exists>t. new_TcpConnection P obj ch name sockfd = Inr t \<and> t\<lparr>tc_connection_callback := Some OnConnectionCallback,
      tc_message_callback := Some OnMessage, tc_close_callback := Some echo_callback.RemoveConnection\<rparr> = t1"
    using b(1) by (simp add: new_TcpConnection_def t1_def P1_def tcp_connection.defs poller.defs)
  ultimately show ?thesis using f by (auto simp: P1_def)
qed

lemma new_conn_inv:
  fixes x y :: "'k echo_system"
  assumes L: "loops_inv interest x" and t: "conn_ok interest obj t" "tc_chan t = ch" "poller.truncate t = create_channel ch (conn_channel sockfd) (es_loops x l)"
    and obj: "es_conns x obj = None" and ch: "p_chans (es_loops x l) ch = None"
    and y: "es_conns y = (es_conns x)(obj \<mapsto> (l, poller.more t))" "es_loops y = (es_loops x)(l := poller.truncate t)" "es_active y = es_active x"
  shows "loops_inv interest y"
proof -
  note i = loops_invD [OF L]
  let ?P = "poller.truncate t"
  have P: "p_chans ?P b = (if b = ch then Some (conn_channel sockfd) else p_chans (es_loops x l) b)" "p_loop_tid ?P = p_loop_tid (es_loops x l)" for b
    by (simp_all add: t(3) create_channel_def)
  have view: "poller.extend ?P (poller.more t) = t" by (cases t) (simp add: poller.defs)
  have "poller_inv interest t" using conn_okD(1) [OF t(1)] by (rule tc_invD(1))
  then have Pinv: "poller_inv interest ?P" using poller_inv_cong [of ?P t interest] by (simp add: poller.defs)
  have live: "p_chans (es_loops x m) (tc_chan (poller.extend (es_loops x m) h)) \<noteq> None" if "es_conns x d = Some (m, h)" for d m h
    using conn_okD(9) [OF i(1) [OF that]] by auto
  have other: "tc_chan (poller.extend (es_loops x l) h) \<noteq> ch" if "es_conns x d = Some (l, h)" for d h using live [OF that] ch by auto
  have chan: "tc_chan (poller.extend (es_loops y m) h) = tc_chan (poller.extend (es_loops x m) h)"
      "tc_state (poller.extend (es_loops y m) h) = tc_state (poller.extend (es_loops x m) h)" for m and h :: conn_part
    using part_fields(1,4) [of "es_loops y m" h "es_loops x m"] by simp_all
  show ?thesis
  proof (rule loops_invI)
    show "conn_ok interest d (poller.extend (es_loops y m) h)" if d: "es_conns y d = Some (m, h)" for d m h
    proof (cases "d = obj")
      case True
      then show ?thesis using d t(1) view by (auto simp: y)
    next
      case False
      then have d': "es_conns x d = Some (m, h)" using d by (simp add: y)
      show ?thesis
      proof (cases "m = l")
        case True
        have "conn_ok interest d (poller.extend ?P h)"
          by (rule conn_ok_move [OF i(1) [OF d'] Pinv]) (use True other P(1) d' in auto)
        then show ?thesis using True by (simp add: y)
      qed (use i(1) [OF d'] in \<open>simp add: y\<close>)
    qed
    show "poller_inv interest (es_loops y m)" for m using i(2) Pinv by (simp add: y)
    show "\<exists>d h. es_conns y d = Some (m, h) \<and> tc_chan (poller.extend (es_loops y m) h) = b" if b: "p_chans (es_loops y m) b \<noteq> None" for m b
    proof (cases "m = l \<and> b = ch")
      case True
      then show ?thesis using view t(2) by (intro exI [of _ obj]) (simp add: y)
    next
      case False
      then have "p_chans (es_loops x m) b \<noteq> None" using b P(1) by (auto simp: y split: if_splits)
      then obtain d h where d: "es_conns x d = Some (m, h)" "tc_chan (poller.extend (es_loops x m) h) = b" using i(3) by blast
      then have "d \<noteq> obj" using obj by auto
      then show ?thesis using d chan(1) by (intro exI [of _ d] exI [of _ h]) (simp add: y(1))
    qed
    show "d = d'" if d: "es_conns y d = Some (m, h)" "es_conns y d' = Some (m, h')"
      "tc_chan (poller.extend (es_loops y m) h) = tc_chan (poller.extend (es_loops y m) h')" for d d' m h h'
    proof -
      have new: "m = l \<and> tc_chan (poller.extend (es_loops y m) f) = ch" if "es_conns y obj = Some (m, f)" for f
        using that view t(2) by (auto simp: y)
      have old: "es_conns x e = Some (m, f) \<and> (m = l \<longrightarrow> tc_chan (poller.extend (es_loops y m) f) \<noteq> ch)"
        if "es_conns y e = Some (m, f)" "e \<noteq> obj" for e f
        using that other unfolding chan by (auto simp: y)
      show ?thesis
        using d new old i(4) [of d m h d' h'] unfolding chan(1) by (cases "d = obj"; cases "d' = obj") metis+
    qed
    show "distinct (es_active y m)" for m using i(5) by (simp add: y)
    show "\<exists>d h c. es_conns y d = Some (m, h) \<and> tc_chan (poller.extend (es_loops y m) h) = b
        \<and> tc_state (poller.extend (es_loops y m) h) = kConnected \<and> p_chans (es_loops y m) b = Some c"
      if "b \<in> set (es_active y m)" for m b
    proof -
      have "b \<in> set (es_active x m)" using that by (simp add: y)
      from i(6) [OF this] obtain d h c where d: "es_conns x d = Some (m, h)" "tc_chan (poller.extend (es_loops x m) h) = b"
          "tc_state (poller.extend (es_loops x m) h) = kConnected" "p_chans (es_loops x m) b = Some c"
        by blast
      then have "es_conns y d = Some (m, h)" "p_chans (es_loops y m) b = Some c" using obj other P(1) by (auto simp: y)
      then show ?thesis using d unfolding chan by blast
    qed
    show "m = m'" if "p_loop_tid (es_loops y m) = p_loop_tid (es_loops y m')" for m m'
      using that P(2) i(7) by (auto simp: y split: if_splits)
  qed
qed

lemma accept_refines:
  assumes inv: "es_inv interest x" and up: "es_started x" and obj: "es_conns x obj = None" "es_dead x obj = None"
    and id: "es_next_conn_id x < 2 ^ 31 - 1" and ch: "\<forall>l. p_chans (es_loops x l) ch = None"
    and fd: "\<forall>l d dh. p_chans (es_loops x l) d = Some dh \<longrightarrow> ch_fd dh \<noteq> sockfd"
  shows "\<exists>x'. es_NewConnectionCallback obj ch sockfd x = Inr x' \<and> loops_inv interest x' \<and> dead_inv x'
    \<and> NewConnectionCallback obj (es_abs x) = Inr (es_abs x')"
proof -
  have L: "loops_inv interest x" and D: "dead_inv x" using inv by (simp_all add: es_inv_def)
  obtain ph where ph: "sv_inv ph (es_abs x)" using inv by (auto simp: es_inv_def sv_good_def)
  obtain l pool where p: "GetNextLoop (es_thread_pool x) = Inr (l, pool)" using GetNextLoop_ready sv_invD(1) [OF ph] up by force
  let ?n = "conn_name (es_name x) (es_next_conn_id x)"
  have free: "es_connections x ?n = None" using name_free [OF ph] by simp
  obtain t where t: "new_TcpConnection (es_loops x l) obj ch ?n sockfd = Inr t"
      "let t1 = t\<lparr>tc_connection_callback := Some OnConnectionCallback, tc_message_callback := Some OnMessage,
         tc_close_callback := Some echo_callback.RemoveConnection\<rparr>
       in conn_ok interest obj t1 \<and> tc_state t1 = kConnecting \<and> tc_name t1 = ?n \<and> tc_chan t1 = ch
         \<and> poller.truncate t1 = create_channel ch (conn_channel sockfd) (es_loops x l)"
    using new_conn_ok [OF loops_invD(2) [OF L] spec [OF ch] spec [OF fd], of l obj ?n] by blast
  define t1 where "t1 = t\<lparr>tc_connection_callback := Some OnConnectionCallback, tc_message_callback := Some OnMessage,
      tc_close_callback := Some echo_callback.RemoveConnection\<rparr>"
  have t1: "conn_ok interest obj t1" "tc_state t1 = kConnecting" "tc_name t1 = ?n" "tc_chan t1 = ch"
      "poller.truncate t1 = create_channel ch (conn_channel sockfd) (es_loops x l)"
    using t(2) by (simp_all add: t1_def [symmetric] Let_def)
  define x1 where "x1 = x\<lparr>es_thread_pool := pool, es_next_conn_id := next_id (es_next_conn_id x),
      es_connections := (es_connections x)(?n \<mapsto> obj), es_loops := (es_loops x)(l := poller.truncate t1),
      es_conns := (es_conns x)(obj \<mapsto> (l, poller.more t1))\<rparr>"
  define x2 where "x2 = queue_task l (ConnectEstablishedTask obj) x1"
  have run: "es_NewConnectionCallback obj ch sockfd x = Inr x2"
    using p free t(1) by (simp add: es_NewConnectionCallback_def t1_def [symmetric] x2_def x1_def Let_def)
  have x2: "es_conns x2 = (es_conns x)(obj \<mapsto> (l, poller.more t1))" "es_loops x2 = (es_loops x)(l := poller.truncate t1)"
      "es_active x2 = es_active x" "es_dead x2 = es_dead x" "es_queues x2 = (es_queues x)(l := es_queues x l @ [ConnectEstablishedTask obj])"
      "es_loop x2 = es_loop x" "es_name x2 = es_name x" "es_started x2 = es_started x" "es_init_callback x2 = es_init_callback x"
      "es_thread_pool x2 = pool" "es_next_conn_id x2 = next_id (es_next_conn_id x)" "es_connections x2 = (es_connections x)(?n \<mapsto> obj)"
    by (simp_all add: x2_def x1_def queue_task_def)
  have "loops_inv interest x2" by (rule new_conn_inv [OF L t1(1,4,5) obj(1) _ x2(1-3)]) (use ch in blast)
  moreover have "dead_inv x2" using D obj(2) unfolding dead_inv_def x2 by (auto split: if_splits)
  moreover have "NewConnectionCallback obj (es_abs x) = Inr (es_abs x2)"
  proof -
    have "poller.extend (poller.truncate t1) (poller.more t1) = t1" by (cases t1) (simp add: poller.defs)
    then have "sv_conns (es_abs x2) obj = Some (conn_abs l t1)" using x2 abs_conn [of x2 obj l "poller.more t1"] by simp
    then have conns: "sv_conns (es_abs x2) = (sv_conns (es_abs x))(obj \<mapsto> \<lparr>sc_name = ?n, sc_loop = l, sc_state = kConnecting\<rparr>)"
      using abs_conns_cong [of obj x2 x] x2 t1(2,3) by (simp add: conn_abs_def)
    have "es_abs x2 = push_task l (ConnectEstablishedTask obj) ((es_abs x)\<lparr>sv_thread_pool := pool, sv_next_conn_id := next_id (es_next_conn_id x),
        sv_connections := (es_connections x)(?n \<mapsto> obj), sv_conns := (sv_conns (es_abs x))(obj \<mapsto> \<lparr>sc_name = ?n, sc_loop = l, sc_state = kConnecting\<rparr>)\<rparr>)"
      by (intro server.equality) (simp_all add: conns x2 push_task_def)
    then show ?thesis using p free by (simp add: NewConnectionCallback_def Let_def)
  qed
  ultimately show ?thesis using run by blast
qed

text \<open>What \<open>epoll_wait\<close> does besides: a call reports a registered descriptor at most once, its events in one mask.\<close>

definition echo_wait_spec :: "'k epoll_wait_fun \<Rightarrow> ('k \<Rightarrow> int \<rightharpoonup> epoll_event) \<Rightarrow> bool" where
  "echo_wait_spec wait interest \<longleftrightarrow> epoll_wait_spec wait interest
     \<and> (\<forall>k n t evs. wait k n t = WaitEvents evs \<longrightarrow> distinct (map snd evs))"

text \<open>Storing the reported events does not touch what a connection relies on.\<close>

lemma conn_ok_polled:
  fixes h :: conn_part
  assumes ok: "conn_ok interest d (poller.extend P h)" and inv: "poller_inv interest Q"
    and chans: "p_chans Q (tc_chan (poller.extend P h)) = map_option (with_revents evs a) (p_chans P (tc_chan (poller.extend P h)))"
  shows "conn_ok interest d (poller.extend Q h)"
proof -
  note f = part_fields [of Q h P]
  let ?t = "poller.extend P h" and ?u = "poller.extend Q h"
  note t = tc_invD [OF conn_okD(1) [OF ok]]
  obtain ch where ch0: "p_chans ?t (tc_chan ?t) = Some ch"
      and st: "if tc_state ?t = kConnected \<or> tc_state ?t = kDisconnecting
       then ch_index ch = kAdded \<and> is_reading ch \<and> (is_writing ch \<longleftrightarrow> contents (tc_output ?t) \<noteq> []) else is_none_event ch"
    by (rule tc_inv_chan [OF conn_okD(1) [OF ok]])
  have ch: "p_chans P (tc_chan ?t) = Some ch" using ch0 unfolding extend_poller .
  have hs: "conn_handlers ch" using conn_okD(9) [OF ok] ch0 by (metis option.inject)
  let ?c = "with_revents evs a ch"
  have c: "p_chans Q (tc_chan ?t) = Some ?c" using chans ch by simp
  have same: "is_reading ?c = is_reading ch" "is_writing ?c = is_writing ch" "is_none_event ?c = is_none_event ch" "conn_handlers ?c" "ch_index ?c = ch_index ch"
    using hs by (simp_all add: is_reading_def is_writing_def is_none_event_def conn_handlers_def tie_ok_def)
  have "tc_inv interest ?u" unfolding tc_inv_def f extend_poller poller_inv_extend
    using inv t(2-4) st c same by simp
  moreover have "tc_state ?u \<noteq> kConnected \<longrightarrow> unwatched ?u"
    using conn_okD(10) [OF ok] ch c same(5) unfolding unwatched_def f extend_poller by simp
  ultimately show ?thesis using conn_okD(2-8) [OF ok] c same(4) unfolding conn_ok_def f extend_poller by blast
qed

lemma poll_refines:
  fixes x :: "'k echo_system"
  assumes inv: "es_inv interest x" and idle: "es_active x l = []" and w: "echo_wait_spec wait interest"
    and evs: "wait (p_kernel (es_loops x l)) (p_events_size (es_loops x l)) 10000 = WaitEvents evs"
  shows "\<exists>x'. es_poll wait l x = Inr x' \<and> loops_inv interest x' \<and> dead_inv x' \<and> es_abs x' = es_abs x"
proof -
  have L: "loops_inv interest x" and D: "dead_inv x" using inv by (simp_all add: es_inv_def)
  note i = loops_invD [OF L]
  have w': "epoll_wait_spec wait interest" "distinct (map snd evs)"
    using w evs unfolding echo_wait_spec_def by blast+
  obtain p where p: "Poll wait 10000 (es_loops x l) = Inr (map snd evs, p)" "poller_inv interest p" "p_loop_tid p = p_loop_tid (es_loops x l)"
      "\<forall>c. p_chans p c = map_option (with_revents evs c) (p_chans (es_loops x l) c)"
    using Poll_Inr [OF w'(1) i(2) evs] by blast
  define y where "y = x\<lparr>es_loops := (es_loops x)(l := p), es_active := (es_active x)(l := map snd evs)\<rparr>"
  have y: "es_conns y = es_conns x" "es_loops y = (es_loops x)(l := p)" "es_active y = (es_active x)(l := map snd evs)"
      "es_dead y = es_dead x" "es_queues y = es_queues x" by (simp_all add: y_def)
  have chan: "tc_chan (poller.extend (es_loops y m) h) = tc_chan (poller.extend (es_loops x m) h)"
      "tc_state (poller.extend (es_loops y m) h) = tc_state (poller.extend (es_loops x m) h)" for m and h :: conn_part
    using part_fields(1,4) [of "es_loops y m" h "es_loops x m"] by simp_all
  have "loops_inv interest y"
  proof (rule loops_invI)
    show "conn_ok interest d (poller.extend (es_loops y m) h)" if "es_conns y d = Some (m, h)" for d m h
      using i(1) [of d m h] that conn_ok_polled [OF i(1) [of d l h] p(2)] p(4) by (auto simp: y)
    show "poller_inv interest (es_loops y m)" for m using i(2) p(2) by (simp add: y)
    show "\<exists>d h. es_conns y d = Some (m, h) \<and> tc_chan (poller.extend (es_loops y m) h) = b" if "p_chans (es_loops y m) b \<noteq> None" for m b
      using that i(3) [of m b] p(4) unfolding chan by (auto simp: y split: if_splits)
    show "d = d'" if "es_conns y d = Some (m, h)" "es_conns y d' = Some (m, h')"
      "tc_chan (poller.extend (es_loops y m) h) = tc_chan (poller.extend (es_loops y m) h')" for d d' m h h'
      using that i(4) unfolding chan y(1) by blast
    show "distinct (es_active y m)" for m using i(5) w'(2) by (simp add: y)
    show "m = m'" if "p_loop_tid (es_loops y m) = p_loop_tid (es_loops y m')" for m m'
      using that p(3) i(7) by (auto simp: y split: if_splits)
    show "\<exists>d h c. es_conns y d = Some (m, h) \<and> tc_chan (poller.extend (es_loops y m) h) = b
        \<and> tc_state (poller.extend (es_loops y m) h) = kConnected \<and> p_chans (es_loops y m) b = Some c"
      if b: "b \<in> set (es_active y m)" for m b
    proof (cases "m = l")
      case False
      then show ?thesis using b i(6) [of b m] unfolding chan by (auto simp: y)
    next
      case True
      then obtain ev where ev: "(ev, b) \<in> set evs" using b by (auto simp: y)
      then obtain fd e where "interest (p_kernel (es_loops x l)) fd = Some (e, b)" using w'(1) evs unfolding epoll_wait_spec_def by blast
      then obtain ch where ch: "p_chans (es_loops x l) b = Some ch" "ch_index ch = kAdded" using poller_inv_registered [OF i(2)] by blast
      then obtain d h where d: "es_conns x d = Some (l, h)" "tc_chan (poller.extend (es_loops x l) h) = b" using i(3) [of l b] by auto
      have up: "tc_state (poller.extend (es_loops x l) h) = kConnected"
        using conn_okD(10) [OF i(1) [OF d(1)]] ch d(2) by (auto simp: unwatched_def)
      have "p_chans p b = Some (with_revents evs b ch)" using p(4) ch(1) by simp
      then show ?thesis using d up True unfolding chan by (intro exI [of _ d] exI [of _ h]) (simp add: y)
    qed
  qed
  moreover have "dead_inv y" using D by (simp add: dead_inv_def y)
  moreover have "sv_conns (es_abs y) = sv_conns (es_abs x)"
    using conn_abs_part [of _ "es_loops y _" _ "es_loops x _"] by (auto simp: es_abs_def y(1,4) fun_eq_iff split: option.split)
  then have "es_abs y = es_abs x" by (intro server.equality) (simp_all add: y_def)
  moreover have "es_poll wait l x = Inr y" using p(1) by (simp add: es_poll_def y_def)
  ultimately show ?thesis by blast
qed

end
