(* ===== verification/EchoSystem.thy ===== *)
theory EchoSystem
  imports EchoTasks
begin

unbundle bit_operations_syntax

text \<open>
  The echo server as a program (\<open>examples/echo_server/EchoServer.cpp\<close>): \<open>main\<close>, the interleavings of
  its loops as a step relation, a sample run, and the properties: it implements the model of the
  theory \<open>TcpServer\<close>, in which a connection is a name, a loop and a state; what can go wrong in it; and
  that an event of one connection leaves the others alone.
\<close>

section \<open>The program\<close>

text \<open>
  \<open>main\<close>: a server of four threads on the main loop, started. \<open>StartLoop i\<close> is the loop of thread \<open>i\<close>;
  the pollers of the loops are given, and are seen here as far as the connections go: a loop's own two
  channels are in the theory \<open>Reactor\<close>, the acceptor's is in the theory \<open>Acceptor\<close>.
\<close>

definition echo_main :: "(nat \<Rightarrow> nat) \<Rightarrow> nat \<Rightarrow> (nat \<Rightarrow> (tc_callback, 'k) poller) \<Rightarrow> 'k echo_system res" where
  "echo_main StartLoop loop loops =
     bindE (Server_SetThreadNum 4 (new_TcpServer loop ''lqh EchoServer'')) (\<lambda>s.
     bindE (Server_Start StartLoop s) (\<lambda>s1.
       Inr \<lparr>es_loop = sv_loop s1, es_name = sv_name s1, es_started = sv_started s1, es_next_conn_id = sv_next_conn_id s1,
            es_connections = sv_connections s1, es_thread_pool = sv_thread_pool s1, es_init_callback = sv_init_callback s1,
            es_queues = sv_queues s1, es_loops = loops, es_conns = Map.empty, es_active = (\<lambda>_. []), es_dead = Map.empty\<rparr>))"

text \<open>
  A step of the program: the main loop accepts a connection, with objects and a descriptor that are
  not in use; a loop with no active channel left polls; a loop handles its next active channel; a
  loop that has handled them runs its next task. Each runs on its loop's thread.
\<close>

inductive echo_step :: "('k \<Rightarrow> int \<rightharpoonup> epoll_event) \<Rightarrow> 'k echo_system \<Rightarrow> 'k echo_system \<Rightarrow> bool"
  for interest :: "'k \<Rightarrow> int \<rightharpoonup> epoll_event" where
  es_accept: "es_started x \<Longrightarrow> es_conns x obj = None \<Longrightarrow> es_dead x obj = None \<Longrightarrow> es_next_conn_id x < 2 ^ 31 - 1 \<Longrightarrow>
     \<forall>l. p_chans (es_loops x l) ch = None \<Longrightarrow> \<forall>l d dh. p_chans (es_loops x l) d = Some dh \<longrightarrow> ch_fd dh \<noteq> sockfd \<Longrightarrow>
     es_NewConnectionCallback obj ch sockfd x = Inr x' \<Longrightarrow> echo_step interest x x'"
| es_polls: "es_active x l = [] \<Longrightarrow> echo_wait_spec wait interest \<Longrightarrow>
     wait (p_kernel (es_loops x l)) (p_events_size (es_loops x l)) 10000 = WaitEvents evs \<Longrightarrow>
     es_poll wait l x = Inr x' \<Longrightarrow> echo_step interest x x'"
| es_event: "es_active x l = a # as \<Longrightarrow> es_conns x c = Some (l, k) \<Longrightarrow> tc_chan (poller.extend (es_loops x l) k) = a \<Longrightarrow>
     op_env_ok interest (p_loop_tid (es_loops x l)) e \<Longrightarrow>
     length (buffer_mem (tc_input (poller.extend (es_loops x l) k))) < 2 ^ 63 \<Longrightarrow>
     es_HandleEvent e c (x\<lparr>es_active := (es_active x)(l := as)\<rparr>) = Inr x' \<Longrightarrow> echo_step interest x x'"
| es_task: "es_active x l = [] \<Longrightarrow> es_queues x l = t # ts \<Longrightarrow> op_env_ok interest (p_loop_tid (es_loops x l)) e \<Longrightarrow>
     es_run_task e t (x\<lparr>es_queues := (es_queues x)(l := ts)\<rparr>) = Inr x' \<Longrightarrow> echo_step interest x x'"

lemma task_refines:
  assumes "es_inv interest x" and "op_env_ok interest (p_loop_tid (es_loops x l)) e" and q: "es_queues x l = t # ts"
  shows "\<exists>x'. es_run_task e t (x\<lparr>es_queues := (es_queues x)(l := ts)\<rparr>) = Inr x' \<and> loops_inv interest x' \<and> dead_inv x'
    \<and> run_server_task l t ((es_abs x)\<lparr>sv_queues := (es_queues x)(l := ts)\<rparr>) = Inr (es_abs x')"
proof (cases t)
  case (ConnectEstablishedTask c)
  show ?thesis using established_refines [OF assms(1,2) q [unfolded ConnectEstablishedTask]] unfolding ConnectEstablishedTask .
next
  case (RemoveConnectionInLoopTask c)
  show ?thesis using removed_refines [OF assms(1,2) q [unfolded RemoveConnectionInLoopTask]] unfolding RemoveConnectionInLoopTask .
next
  case (ConnectDestroyedTask c)
  show ?thesis using destroyed_refines [OF assms(1,2) q [unfolded ConnectDestroyedTask]] unfolding ConnectDestroyedTask .
qed

text \<open>Every step is a step of the abstract server, or none.\<close>

lemma echo_step_sim:
  assumes inv: "es_inv interest x" and step: "echo_step interest x x'"
  shows "es_inv interest x' \<and> (es_abs x' = es_abs x \<or> server_step (es_abs x) (es_abs x'))"
proof -
  have good: "sv_good (es_abs y)" if "server_step (es_abs x) (es_abs y)" for y :: "'a echo_system"
    using server_step_good that inv by (auto simp: es_inv_def)
  show ?thesis using step
  proof cases
    case (es_accept obj ch sockfd)
    with accept_refines [OF inv es_accept(1-6)] have r: "loops_inv interest x'" "dead_inv x'" "NewConnectionCallback obj (es_abs x) = Inr (es_abs x')"
      by auto
    have "server_step (es_abs x) (es_abs x')" by (rule sv_accept [OF _ _ _ r(3)]) (use es_accept abs_no_conn [of x obj] in simp_all)
    then show ?thesis using r good by (simp add: es_inv_def)
  next
    case (es_polls l wait evs)
    with poll_refines [OF inv es_polls(1-3)] inv show ?thesis by (auto simp: es_inv_def)
  next
    case (es_event l a as c k e)
    then obtain ch where ch: "p_chans (es_loops x l) a = Some ch" using loops_invD(6) [of interest x a l] inv by (auto simp: es_inv_def)
    from es_event HandleEvent_twice [OF inv es_event(4,1,2,3,5) ch] HandleEvent_step [OF inv es_event(4,1,2,3,5) ch] show ?thesis by auto
  next
    case (es_task l t ts e)
    with task_refines [OF inv es_task(3,2)] have r: "loops_inv interest x'" "dead_inv x'"
        "run_server_task l t ((es_abs x)\<lparr>sv_queues := (es_queues x)(l := ts)\<rparr>) = Inr (es_abs x')" by auto
    have "server_step (es_abs x) (es_abs x')" by (rule sv_task [of _ l t ts]) (use es_task r(3) in simp_all)
    then show ?thesis using r good by (simp add: es_inv_def)
  qed
qed

interpretation echo_system: transition_system "echo_step interest" "es_inv interest"
  by unfold_locales (use echo_step_sim in blast)

lemma echo_main_inv:
  assumes m: "echo_main StartLoop loop loops = Inr x0" and P: "\<forall>l. poller_inv interest (loops l) \<and> p_chans (loops l) = Map.empty"
    and tid: "inj (\<lambda>l. p_loop_tid (loops l))"
  shows "es_inv interest x0" "\<exists>s. Server_SetThreadNum 4 (new_TcpServer loop ''lqh EchoServer'') = Inr s \<and> Server_Start StartLoop s = Inr (es_abs x0)"
    "es_started x0" "es_loops x0 = loops" "es_conns x0 = Map.empty" "es_dead x0 = Map.empty" "es_next_conn_id x0 = 0"
proof -
  obtain s s1 where s: "Server_SetThreadNum 4 (new_TcpServer loop ''lqh EchoServer'') = Inr s" "Server_Start StartLoop s = Inr s1"
      and x0: "x0 = \<lparr>es_loop = sv_loop s1, es_name = sv_name s1, es_started = sv_started s1, es_next_conn_id = sv_next_conn_id s1,
            es_connections = sv_connections s1, es_thread_pool = sv_thread_pool s1, es_init_callback = sv_init_callback s1,
            es_queues = sv_queues s1, es_loops = loops, es_conns = Map.empty, es_active = (\<lambda>_. []), es_dead = Map.empty\<rparr>"
    using m by (auto simp: echo_main_def bindE_Inr_iff)
  have s1: "sv_conns s1 = Map.empty" "sv_queues s1 = (\<lambda>_. [])" "sv_started s1" "sv_next_conn_id s1 = 0"
    using s by (auto simp: Server_SetThreadNum_def SetThreadNum_def Server_Start_def new_TcpServer_def bindE_Inr_iff split: if_splits)
  have "es_abs x0 = s1" by (intro server.equality) (simp_all add: x0 s1 es_abs_def)
  then show "\<exists>s. Server_SetThreadNum 4 (new_TcpServer loop ''lqh EchoServer'') = Inr s \<and> Server_Start StartLoop s = Inr (es_abs x0)"
    using s by simp
  have "loops_inv interest x0" unfolding loops_inv_def using P injD [OF tid] by (simp add: x0)
  moreover have "dead_inv x0" by (simp add: dead_inv_def x0 s1)
  ultimately show "es_inv interest x0" using started_server_good(1) [OF s] \<open>es_abs x0 = s1\<close> by (simp add: es_inv_def)
  show "es_started x0" "es_loops x0 = loops" "es_conns x0 = Map.empty" "es_dead x0 = Map.empty" "es_next_conn_id x0 = 0" by (simp_all add: x0 s1)
qed

section \<open>What an event does\<close>

text \<open>
  An operation on a connection leaves the others, the other loops, the map of the connections and
  the active channels as they are; the queue of the server's loop it may extend.
\<close>

definition others_kept :: "nat \<Rightarrow> nat \<Rightarrow> 'k echo_system \<Rightarrow> 'k echo_system \<Rightarrow> bool" where
  "others_kept l c x x' \<longleftrightarrow> (\<forall>d. d \<noteq> c \<longrightarrow> es_conns x' d = es_conns x d)
     \<and> (\<forall>m. m \<noteq> l \<longrightarrow> es_loops x' m = es_loops x m) \<and> (\<forall>m. m \<noteq> es_loop x \<longrightarrow> es_queues x' m = es_queues x m)
     \<and> es_connections x' = es_connections x \<and> es_dead x' = es_dead x \<and> es_active x' = es_active x
     \<and> (\<forall>d h. d \<noteq> c \<longrightarrow> es_conns x d = Some (l, h) \<longrightarrow>
          p_chans (es_loops x' l) (tc_chan (poller.extend (es_loops x l) h)) = p_chans (es_loops x l) (tc_chan (poller.extend (es_loops x l) h)))"

lemma leave_others:
  assumes L: "loops_inv interest x" and c: "es_conns x c = Some (l, k)" and own: "conn_own (enter_conn l k x) s"
  shows "others_kept l c x (leave_conn l c s x)"
proof -
  have "own_only (tc_chan (poller.extend (es_loops x l) k)) (es_loops x l) (poller.truncate s)"
    using own enter_ok(4) [OF L c] by (simp add: conn_own_def poller_truncate_enter)
  then have "p_chans (poller.truncate s) b = p_chans (es_loops x l) b" if "b \<noteq> tc_chan (poller.extend (es_loops x l) k)" for b
    using that by (simp add: own_only_def)
  then have "p_chans (poller.truncate s) (tc_chan (poller.extend (es_loops x l) h)) = p_chans (es_loops x l) (tc_chan (poller.extend (es_loops x l) h))"
    if "d \<noteq> c" "es_conns x d = Some (l, h)" for d h
    using loops_invD(4) [OF L c that(2)] that(1) by metis
  then show ?thesis by (simp add: others_kept_def leave_conn_def)
qed

text \<open>A plain readable event is a read.\<close>

lemma event_reads:
  fixes s :: "'k echo_run"
  assumes "p_chans s (tc_chan s) = Some ch" "conn_handlers ch" "ch_revents ch = EPOLLIN"
  shows "tc_HandleEvent e (server_call e) (\<lambda>_ _. True) s = HandleRead e (server_call e) s"
proof -
  have flags: "EPOLLIN AND EPOLLHUP = 0" "EPOLLIN AND EPOLLERR = 0" "EPOLLIN AND EPOLLOUT = 0" "EPOLLIN AND (EPOLLIN OR EPOLLPRI OR EPOLLRDHUP) \<noteq> 0"
    by (simp_all add: epoll_flags)
  have "HandleEventWithGuard (tc_call e (server_call e)) (\<lambda>s. the (p_chans s (tc_chan s))) s = HandleRead e (server_call e) s"
    using assms flags by (simp add: HandleEventWithGuard_def call_if_def conn_handlers_def)
  then show ?thesis using assms by (auto simp: tc_HandleEvent_def tc_deref_def HandleEvent_def conn_handlers_def tie_ok_def)
qed

lemma server_call_echo: "server_call e OnMessage = echo_call e OnMessage"
  by (simp add: fun_eq_iff)

lemma watched_iff:
  assumes L: "loops_inv interest x" and c: "es_conns x c = Some (l, k)"
  defines "t \<equiv> poller.extend (es_loops x l) k"
  shows "\<exists>ch. p_chans (es_loops x l) (tc_chan t) = Some ch
    \<and> (if tc_state t = kConnected then is_reading ch \<and> interest (p_kernel (es_loops x l)) (ch_fd ch) = Some (ch_events ch, tc_chan t)
       else interest (p_kernel (es_loops x l)) (ch_fd ch) = None)"
proof -
  have ok: "conn_ok interest c t" using loops_invD(1) [OF L c] by (simp add: t_def)
  have P: "poller_inv interest (es_loops x l)" by (rule loops_invD(2) [OF L])
  obtain ch where ch: "p_chans t (tc_chan t) = Some ch"
      and st: "if tc_state t = kConnected \<or> tc_state t = kDisconnecting
       then ch_index ch = kAdded \<and> is_reading ch \<and> (is_writing ch \<longleftrightarrow> contents (tc_output t) \<noteq> []) else is_none_event ch"
    by (rule tc_inv_chan [OF conn_okD(1) [OF ok]])
  have ch': "p_chans (es_loops x l) (tc_chan t) = Some ch" using ch unfolding t_def extend_poller .
  show ?thesis
  proof (cases "tc_state t = kConnected")
    case True
    then show ?thesis using st ch' poller_inv_added [OF P ch'] by auto
  next
    case False
    then have "ch_index ch \<noteq> kAdded" using conn_okD(10) [OF ok] ch by (simp add: unwatched_def)
    moreover have "ch_index ch = kAdded" if i: "interest (p_kernel (es_loops x l)) (ch_fd ch) = Some (ev, b)" for ev b
    proof -
      obtain dh where "p_chans (es_loops x l) b = Some dh" "ch_fd dh = ch_fd ch" "ch_index dh = kAdded"
        using poller_inv_registered [OF P i] by blast
      then show ?thesis using poller_inv_unique [OF P ch'] ch' by fastforce
    qed
    ultimately have "interest (p_kernel (es_loops x l)) (ch_fd ch) = None"
      by (cases "interest (p_kernel (es_loops x l)) (ch_fd ch)") auto
    then show ?thesis using ch' False by simp
  qed
qed

lemma event_run:
  fixes x :: "'k echo_system"
  assumes L: "loops_inv interest x" and run: "es_HandleEvent e c x = Inr x'" and c: "es_conns x c = Some (l, k)"
  obtains s where "tc_HandleEvent e (server_call e) (\<lambda>_ _. True) (enter_conn l k x) = Inr s" "x' = leave_conn l c s x" "others_kept l c x x'"
proof -
  obtain s where s: "tc_HandleEvent e (server_call e) (\<lambda>_ _. True) (enter_conn l k x) = Inr s" "x' = leave_conn l c s x"
    using run c by (auto simp: es_HandleEvent_def run_conn_def bindE_Inr_iff)
  show thesis by (rule that [OF s]) (simp add: s(2) leave_others [OF L c event_own [OF s(1)]])
qed

lemma event_echoes:
  fixes x :: "'k echo_system"
  assumes L: "loops_inv interest x" and c: "es_conns x c = Some (l, k)" and env: "op_env_ok interest (p_loop_tid (es_loops x l)) e"
    and ch: "p_chans (es_loops x l) (tc_chan (poller.extend (es_loops x l) k)) = Some ch" "ch_revents ch = EPOLLIN"
    and up: "tc_state (poller.extend (es_loops x l) k) = kConnected" and wr: "\<forall>fd d. env_write e fd d \<noteq> WriteErr EPIPE"
    and size: "length (buffer_mem (tc_input (poller.extend (es_loops x l) k))) < 2 ^ 63"
    and rd: "\<forall>fd. env_readv e fd [WriteableBytes (tc_input (poller.extend (es_loops x l) k)), kExtraBuf] = ReadData d"
    and d: "d \<noteq> []" "length d \<le> WriteableBytes (tc_input (poller.extend (es_loops x l) k))"
    and run: "tc_HandleEvent e (server_call e) (\<lambda>_ _. True) (enter_conn l k x) = Inr s"
  shows "tc_state s = kConnected \<and> contents (tc_input s) = [] \<and> tc_sent s @ contents (tc_output s) =
    tc_sent (poller.extend (es_loops x l) k) @ contents (tc_output (poller.extend (es_loops x l) k))
      @ contents (tc_input (poller.extend (es_loops x l) k)) @ d"
proof -
  let ?s = "enter_conn l k x"
  note f = enter_ok [OF L c] and g = truncate_fields(5,8) [of ?s, unfolded enter_fields]
  have "conn_handlers ch" using conn_okD(9) [OF f(1)] ch(1) f(4,7) by auto
  then have read: "tc_HandleEvent e (server_call e) (\<lambda>_ _. True) ?s = HandleRead e (server_call e) ?s"
    by (intro event_reads [OF _ _ ch(2)]) (use ch(1) f(4,7) in simp_all)
  have e: "epoll_ctl_spec (env_ctl e) interest" "env_tid e = p_loop_tid ?s" using env f(2) by (simp_all add: op_env_ok_def)
  have h: "tc_state ?s = kConnected" "length (buffer_mem (tc_input ?s)) < 2 ^ 63" "length d \<le> WriteableBytes (tc_input ?s)"
      "\<forall>fd. env_readv e fd [WriteableBytes (tc_input ?s), kExtraBuf] = ReadData d"
    using up size d rd unfolding f(3,6) by blast+
  from HandleRead_echoes [where call = "server_call e", OF e wr conn_okD(1) [OF f(1)] h(1) server_call_echo conn_okD(4) [OF f(1)] conn_okD(6) [OF f(1)] h(2,4) d(1) h(3)]
  show ?thesis using read run unfolding f(6) g by auto
qed

section \<open>A sample run\<close>

definition echo_loops :: "nat \<Rightarrow> (tc_callback, int \<rightharpoonup> epoll_event) poller" where
  "echo_loops l = \<lparr>p_loop_tid = int l - 1, p_chans = Map.empty, p_channels = Map.empty, p_kernel = Map.empty,
     p_events_size = kInitEventListSize, p_events_cap = kInitEventListSize\<rparr>"

definition echo_pool :: thread_pool where
  "echo_pool = (start_threads (\<lambda>i. i + 2) False 0 4 (new_EventLoopThreadPool 1 4 ''lqh EchoServer''))\<lparr>tp_started := True\<rparr>"

definition echo_start :: "(int \<rightharpoonup> epoll_event) echo_system" where
  "echo_start = \<lparr>es_loop = 1, es_name = ''lqh EchoServer'', es_started = True, es_next_conn_id = 0, es_connections = Map.empty,
     es_thread_pool = echo_pool, es_init_callback = False, es_queues = (\<lambda>_. []), es_loops = echo_loops, es_conns = Map.empty,
     es_active = (\<lambda>_. []), es_dead = Map.empty\<rparr>"

lemma echo_main_start: "echo_main (\<lambda>i. i + 2) 1 echo_loops = Inr echo_start"
  by (simp add: echo_main_def echo_start_def Server_SetThreadNum_def SetThreadNum_def new_TcpServer_def new_EventLoopThreadPool_def
      Server_Start_def Pool_Start_def echo_pool_def start_threads_fields Let_def del: start_threads.simps)

lemma echo_loops_ok: "\<forall>l. poller_inv (\<lambda>k. k) (echo_loops l) \<and> p_chans (echo_loops l) = Map.empty" "inj (\<lambda>l. p_loop_tid (echo_loops l))"
  by (simp_all add: echo_loops_def poller_inv_def inj_def)

text \<open>A connection is accepted, established on loop \<open>2\<close> and becomes readable.\<close>

definition echo_wait :: "(int \<rightharpoonup> epoll_event) epoll_wait_fun" where
  "echo_wait k n t = (case k 5 of Some (ev, c) \<Rightarrow> if 0 < n then WaitEvents [(EPOLLIN, c)] else WaitEvents [] | None \<Rightarrow> WaitEvents [])"

lemma echo_wait_ok: "echo_wait_spec echo_wait (\<lambda>k. k)"
  by (auto simp: echo_wait_spec_def epoll_wait_spec_def echo_wait_def split: option.splits if_splits)

lemma sample_op_env: "op_env_ok (\<lambda>k. k) 1 sample_env"
  using sample_env_ok by (simp add: op_env_ok_def env_ok_def sample_env_def)

definition sample_buffer :: buffer where
  "sample_buffer = \<lparr>buffer_mem = replicate kInitialSize (CHR 0x00), read_index = 0, write_index = 0\<rparr>"

lemma new_sample_buffer: "new_Buffer kInitialSize = Inr sample_buffer"
  by (simp add: new_Buffer_def sample_buffer_def ReadableBytes_def WriteableBytes_def)

definition sample_part :: "StateE \<Rightarrow> conn_part" where
  "sample_part st = tcp_connection.fields 7 (conn_name ''lqh EchoServer'' 0) st 8 [] False sample_buffer sample_buffer
      (Some OnConnectionCallback) (Some echo_callback.RemoveConnection) None (Some OnMessage) None"

definition echo_accepted :: "(int \<rightharpoonup> epoll_event) echo_system" where
  "echo_accepted = echo_start\<lparr>es_thread_pool := echo_pool\<lparr>tp_next := 1\<rparr>, es_next_conn_id := 1,
     es_connections := [conn_name ''lqh EchoServer'' 0 \<mapsto> 7], es_loops := echo_loops(2 := create_channel 8 (conn_channel 5) (echo_loops 2)),
     es_conns := [7 \<mapsto> (2, sample_part kConnecting)], es_queues := (\<lambda>_. [])(2 := [ConnectEstablishedTask 7])\<rparr>"

lemma echo_pool_next: "GetNextLoop echo_pool = Inr (2, echo_pool\<lparr>tp_next := 1\<rparr>)"
  by (simp add: GetNextLoop_def echo_pool_def start_threads_fields new_EventLoopThreadPool_def Let_def)

lemma sample_accept: "es_NewConnectionCallback 7 8 5 echo_start = Inr echo_accepted"
  by (simp add: es_NewConnectionCallback_def echo_start_def echo_pool_next new_TcpConnection_def new_sample_buffer
      echo_accepted_def queue_task_def next_id_def sample_part_def tcp_connection.defs poller.defs create_channel_def Let_def echo_loops_def)

definition echo_ready :: "u32 \<Rightarrow> (int \<rightharpoonup> epoll_event) echo_system" where
  "echo_ready ev = echo_accepted\<lparr>es_queues := (\<lambda>_. []), es_loops := echo_loops(2 := (echo_loops 2)\<lparr>
       p_chans := [8 \<mapsto> (conn_channel 5)\<lparr>ch_tie := Some 7, ch_tied := True, ch_events := kReadEvent, ch_revents := ev, ch_index := kAdded\<rparr>],
       p_channels := [5 \<mapsto> 8], p_kernel := [5 \<mapsto> (kReadEvent, 8)]\<rparr>),
     es_conns := [7 \<mapsto> (2, sample_part kConnected)]\<rparr>"

lemma sample_task: "es_run_task sample_env (ConnectEstablishedTask 7) (echo_accepted\<lparr>es_queues := (es_queues echo_accepted)(2 := [])\<rparr>) = Inr (echo_ready kNoneEvent)"
  by (simp add: run_conn_def echo_accepted_def enter_conn_def leave_conn_def sample_part_def tcp_connection.defs poller.defs echo_run.defs
      ConnectEstablished_def EnableReading_def on_channel_def create_channel_def LoopUpdateChannel_def UpdateChannel_def Update_def
      AssertInLoopThread_def echo_loops_def conn_channel_def new_Channel_def sample_env_def call_opt_def Tie_def set_reading_def
      index_defs channel_flags is_none_event_def echo_start_def echo_ready_def Let_def fun_eq_iff)

lemma sample_poll: "es_poll echo_wait 2 (echo_ready kNoneEvent) = Inr ((echo_ready EPOLLIN)\<lparr>es_active := (\<lambda>_. [])(2 := [8])\<rparr>)"
  by (simp add: es_poll_def Poll_def echo_wait_def echo_ready_def echo_accepted_def echo_start_def echo_loops_def on_channel_def
      resize_events_def kInitEventListSize_def conn_channel_def new_Channel_def fun_eq_iff)

definition echo_readable :: "(int \<rightharpoonup> epoll_event) echo_system" where
  "echo_readable = (echo_ready EPOLLIN)\<lparr>es_active := (\<lambda>_. [])(2 := [8])\<rparr>"

lemma sample_run: "(echo_step (\<lambda>k. k))\<^sup>*\<^sup>* echo_start echo_readable"
proof -
  have "echo_step (\<lambda>k. k) echo_start echo_accepted"
    by (rule es_accept [OF _ _ _ _ _ _ sample_accept]) (simp_all add: echo_start_def echo_loops_def)
  moreover have "echo_step (\<lambda>k. k) echo_accepted (echo_ready kNoneEvent)"
    by (rule es_task [OF _ _ _ sample_task]) (use sample_op_env in \<open>simp_all add: echo_accepted_def echo_start_def echo_loops_def create_channel_def\<close>)
  moreover have "echo_step (\<lambda>k. k) (echo_ready kNoneEvent) echo_readable" unfolding echo_readable_def
    by (rule es_polls [OF _ echo_wait_ok _ sample_poll])
      (simp_all add: echo_ready_def echo_accepted_def echo_start_def echo_loops_def echo_wait_def kInitEventListSize_def)
  ultimately show ?thesis by auto
qed

lemma echo_readable_fields:
  "es_active echo_readable 2 = [8]" "es_conns echo_readable 7 = Some (2, sample_part kConnected)" "p_loop_tid (es_loops echo_readable 2) = 1"
  "\<exists>ch. p_chans (es_loops echo_readable 2) 8 = Some ch \<and> ch_revents ch = EPOLLIN"
  "tc_chan (poller.extend (es_loops echo_readable 2) (sample_part kConnected)) = 8"
  "tc_input (poller.extend (es_loops echo_readable 2) (sample_part kConnected)) = sample_buffer"
  "tc_output (poller.extend (es_loops echo_readable 2) (sample_part kConnected)) = sample_buffer"
  "tc_sent (poller.extend (es_loops echo_readable 2) (sample_part kConnected)) = []"
  by (simp_all add: echo_readable_def echo_ready_def echo_loops_def sample_part_def poller.defs tcp_connection.defs)

lemma sample_buffer_fields: "length (buffer_mem sample_buffer) < 2 ^ 63" "WriteableBytes sample_buffer = kInitialSize" "contents sample_buffer = []" "2 \<le> kInitialSize"
  by (simp_all add: sample_buffer_def WriteableBytes_def contents_def segment_def kInitialSize_def)

section \<open>Properties\<close>

text \<open>
  Property C3. The echo server implements the abstract server: whatever its loops do, in whatever
  order, from the state \<open>main\<close> sets up, is a run of the bookkeeping of \<open>TcpServer\<close> in which a
  connection is its name, its loop and its state.
\<close>

theorem echo_system_refines:
  assumes "echo_main StartLoop loop loops = Inr x0" and "\<forall>l. poller_inv interest (loops l) \<and> p_chans (loops l) = Map.empty"
    and "inj (\<lambda>l. p_loop_tid (loops l))" and "(echo_step interest)\<^sup>*\<^sup>* x0 x"
  shows "(\<exists>s. Server_SetThreadNum 4 (new_TcpServer loop ''lqh EchoServer'') = Inr s \<and> Server_Start StartLoop s = Inr (es_abs x0))
    \<and> server_step\<^sup>*\<^sup>* (es_abs x0) (es_abs x)"
proof -
  note m = echo_main_inv [OF assms(1-3)]
  have "server_step\<^sup>*\<^sup>* (es_abs x0) (es_abs x)"
  proof (rule echo_system.steps_rel [where R = "\<lambda>u v. server_step\<^sup>*\<^sup>* (es_abs u) (es_abs v)", OF assms(4) m(1)])
    show "reflp (\<lambda>u v. server_step\<^sup>*\<^sup>* (es_abs u) (es_abs v))" by (simp add: reflp_def)
    show "transp (\<lambda>u v. server_step\<^sup>*\<^sup>* (es_abs u) (es_abs v))" by (meson transpI rtranclp_trans)
    show "server_step\<^sup>*\<^sup>* (es_abs u) (es_abs v)" if "es_inv interest u" "echo_step interest u v" for u v
      using echo_step_sim [OF that] by auto
  qed
  with m(2) show ?thesis by blast
qed

theorem echo_system_refines_witness:
  "server_step\<^sup>*\<^sup>* (es_abs echo_start) (es_abs echo_readable) \<and> sv_conns (es_abs echo_readable) 7 \<noteq> None"
  using echo_system_refines [OF echo_main_start echo_loops_ok sample_run] abs_conn [OF echo_readable_fields(2)] by simp

text \<open>
  Property C4. What can go wrong in the echo server, in every state it can reach: the next task of a
  loop and an accept succeed; a poll succeeds when \<open>epoll_wait\<close> returns events and aborts when it
  fails, interrupted calls included; the next active channel belongs to a connection of that loop, and
  handling it succeeds, but for one case: a hang-up without \<open>EPOLLIN\<close> but with urgent input, after
  which the read finds the end of the stream, closes the connection twice and fails an assertion.
  A loop's epoll set watches exactly the connections that are up. A write to a connection that the
  peer has reset is taken to return \<open>EPIPE\<close>, as it does when \<open>SIGPIPE\<close> is ignored.
\<close>

theorem echo_system_safe:
  assumes "echo_main StartLoop loop loops = Inr x0" and "\<forall>l. poller_inv interest (loops l) \<and> p_chans (loops l) = Map.empty"
    and "inj (\<lambda>l. p_loop_tid (loops l))" and "(echo_step interest)\<^sup>*\<^sup>* x0 x"
  shows "(\<forall>l t ts e. es_queues x l = t # ts \<and> op_env_ok interest (p_loop_tid (es_loops x l)) e \<longrightarrow>
          (\<exists>x'. es_run_task e t (x\<lparr>es_queues := (es_queues x)(l := ts)\<rparr>) = Inr x'))
    \<and> (\<forall>l a as. es_active x l = a # as \<longrightarrow> (\<exists>c k ch. es_conns x c = Some (l, k) \<and> tc_chan (poller.extend (es_loops x l) k) = a
          \<and> p_chans (es_loops x l) a = Some ch
          \<and> (\<forall>e. op_env_ok interest (p_loop_tid (es_loops x l)) e \<and> length (buffer_mem (tc_input (poller.extend (es_loops x l) k))) < 2 ^ 63 \<longrightarrow>
              (if closes_twice e ch (tc_input (poller.extend (es_loops x l) k))
               then es_HandleEvent e c (x\<lparr>es_active := (es_active x)(l := as)\<rparr>) = Inl AssertFailed
               else \<exists>x'. es_HandleEvent e c (x\<lparr>es_active := (es_active x)(l := as)\<rparr>) = Inr x'))))
    \<and> (\<forall>l wait. es_active x l = [] \<and> echo_wait_spec wait interest \<longrightarrow>
          (case wait (p_kernel (es_loops x l)) (p_events_size (es_loops x l)) 10000 of
             WaitErr err \<Rightarrow> es_poll wait l x = Inl Aborted | WaitEvents evs \<Rightarrow> \<exists>x'. es_poll wait l x = Inr x'))
    \<and> (\<forall>obj ch sockfd. es_started x \<and> es_conns x obj = None \<and> es_dead x obj = None \<and> es_next_conn_id x < 2 ^ 31 - 1
          \<and> (\<forall>l. p_chans (es_loops x l) ch = None) \<and> (\<forall>l d dh. p_chans (es_loops x l) d = Some dh \<longrightarrow> ch_fd dh \<noteq> sockfd) \<longrightarrow>
          (\<exists>x'. es_NewConnectionCallback obj ch sockfd x = Inr x'))
    \<and> (\<forall>c l k. es_conns x c = Some (l, k) \<longrightarrow> (\<exists>ch. p_chans (es_loops x l) (tc_chan (poller.extend (es_loops x l) k)) = Some ch
          \<and> (if tc_state (poller.extend (es_loops x l) k) = kConnected
             then is_reading ch \<and> interest (p_kernel (es_loops x l)) (ch_fd ch) = Some (ch_events ch, tc_chan (poller.extend (es_loops x l) k))
             else interest (p_kernel (es_loops x l)) (ch_fd ch) = None)))"
proof (intro conjI allI impI)
  have inv: "es_inv interest x" by (rule echo_system.steps_inv [OF assms(4) echo_main_inv(1) [OF assms(1-3)]])
  then have L: "loops_inv interest x" by (simp add: es_inv_def)
  show "\<exists>x'. es_run_task e t (x\<lparr>es_queues := (es_queues x)(l := ts)\<rparr>) = Inr x'"
    if "es_queues x l = t # ts \<and> op_env_ok interest (p_loop_tid (es_loops x l)) e" for l t ts e
    using task_refines [OF inv] that by blast
  show "\<exists>c k ch. es_conns x c = Some (l, k) \<and> tc_chan (poller.extend (es_loops x l) k) = a \<and> p_chans (es_loops x l) a = Some ch
      \<and> (\<forall>e. op_env_ok interest (p_loop_tid (es_loops x l)) e \<and> length (buffer_mem (tc_input (poller.extend (es_loops x l) k))) < 2 ^ 63 \<longrightarrow>
          (if closes_twice e ch (tc_input (poller.extend (es_loops x l) k))
           then es_HandleEvent e c (x\<lparr>es_active := (es_active x)(l := as)\<rparr>) = Inl AssertFailed
           else \<exists>x'. es_HandleEvent e c (x\<lparr>es_active := (es_active x)(l := as)\<rparr>) = Inr x'))" if a: "es_active x l = a # as" for l a as
  proof -
    obtain c k ch where c: "es_conns x c = Some (l, k)" "tc_chan (poller.extend (es_loops x l) k) = a" and ch: "p_chans (es_loops x l) a = Some ch"
      using loops_invD(6) [OF L, of a l] a by auto
    show ?thesis using c ch HandleEvent_twice [OF inv _ a c _ ch] HandleEvent_step [OF inv _ a c _ ch]
      by (intro exI [of _ c] exI [of _ k] exI [of _ ch]) (meson)
  qed
  show "case wait (p_kernel (es_loops x l)) (p_events_size (es_loops x l)) 10000 of
      WaitErr err \<Rightarrow> es_poll wait l x = Inl Aborted | WaitEvents evs \<Rightarrow> \<exists>x'. es_poll wait l x = Inr x'"
    if w: "es_active x l = [] \<and> echo_wait_spec wait interest" for l wait
  proof (cases "wait (p_kernel (es_loops x l)) (p_events_size (es_loops x l)) 10000")
    case (WaitEvents evs)
    then show ?thesis using poll_refines [where wait = wait and l = l and evs = evs, OF inv] w by auto
  qed (simp add: es_poll_def Poll_def)
  show "\<exists>x'. es_NewConnectionCallback obj ch sockfd x = Inr x'"
    if "es_started x \<and> es_conns x obj = None \<and> es_dead x obj = None \<and> es_next_conn_id x < 2 ^ 31 - 1
        \<and> (\<forall>l. p_chans (es_loops x l) ch = None) \<and> (\<forall>l d dh. p_chans (es_loops x l) d = Some dh \<longrightarrow> ch_fd dh \<noteq> sockfd)" for obj ch sockfd
  proof -
    have h: "es_started x" "es_conns x obj = None" "es_dead x obj = None" "es_next_conn_id x < 2 ^ 31 - 1"
        "\<forall>l. p_chans (es_loops x l) ch = None" "\<forall>l d dh. p_chans (es_loops x l) d = Some dh \<longrightarrow> ch_fd dh \<noteq> sockfd"
      using that by simp_all
    from accept_refines [OF inv h] show ?thesis by blast
  qed
  show "\<exists>ch. p_chans (es_loops x l) (tc_chan (poller.extend (es_loops x l) k)) = Some ch
      \<and> (if tc_state (poller.extend (es_loops x l) k) = kConnected
         then is_reading ch \<and> interest (p_kernel (es_loops x l)) (ch_fd ch) = Some (ch_events ch, tc_chan (poller.extend (es_loops x l) k))
         else interest (p_kernel (es_loops x l)) (ch_fd ch) = None)" if "es_conns x c = Some (l, k)" for c l k
    by (rule watched_iff [OF L that])
qed

text \<open>At the sample: a readable event is handled, and an interrupted \<open>epoll_wait\<close> (\<open>EINTR\<close> is 4) aborts.\<close>

theorem echo_system_safe_witness:
  "(\<exists>x'. es_HandleEvent sample_env 7 (echo_readable\<lparr>es_active := (es_active echo_readable)(2 := [])\<rparr>) = Inr x')
    \<and> es_poll (\<lambda>_ _ _. WaitErr 4) 3 echo_readable = Inl Aborted"
proof -
  note f = echo_readable_fields and b = sample_buffer_fields
  note safe = echo_system_safe [OF echo_main_start echo_loops_ok sample_run]
  have env: "op_env_ok (\<lambda>k. k) (p_loop_tid (es_loops echo_readable 2)) sample_env" using sample_op_env f(3) by simp
  have only: "c = 7" if "es_conns echo_readable c = Some y" for c y
    using that by (simp add: echo_readable_def echo_ready_def split: if_splits)
  from safe f(1) obtain c k ch where c: "es_conns echo_readable c = Some (2, k)" and ch: "p_chans (es_loops echo_readable 2) 8 = Some ch"
      and run: "\<forall>e. op_env_ok (\<lambda>k. k) (p_loop_tid (es_loops echo_readable 2)) e \<and> length (buffer_mem (tc_input (poller.extend (es_loops echo_readable 2) k))) < 2 ^ 63 \<longrightarrow>
        (if closes_twice e ch (tc_input (poller.extend (es_loops echo_readable 2) k))
         then es_HandleEvent e c (echo_readable\<lparr>es_active := (es_active echo_readable)(2 := [])\<rparr>) = Inl AssertFailed
         else \<exists>x'. es_HandleEvent e c (echo_readable\<lparr>es_active := (es_active echo_readable)(2 := [])\<rparr>) = Inr x')"
    by meson
  have "c = 7" "k = sample_part kConnected" using only [OF c] c f(2) by auto
  moreover have "\<not> closes_twice sample_env ch b" for b using ch f(4) by (auto simp: closes_twice_def revents_ok_def epoll_flags)
  ultimately have "\<exists>x'. es_HandleEvent sample_env 7 (echo_readable\<lparr>es_active := (es_active echo_readable)(2 := [])\<rparr>) = Inr x'"
    using run [rule_format, of sample_env] env b(1) f(6) by simp
  moreover have "es_active echo_readable 3 = []" by (simp add: echo_readable_def)
  then have "es_poll (\<lambda>_ _ _. WaitErr 4) 3 echo_readable = Inl Aborted"
    using safe [THEN conjunct2, THEN conjunct2, THEN conjunct1, rule_format, of 3 "\<lambda>_ _ _. WaitErr 4"]
    by (simp add: echo_wait_spec_def epoll_wait_spec_def)
  ultimately show ?thesis ..
qed

text \<open>
  Property C20. The connections do not disturb each other, and the server echoes: an event that does
  not close the connection twice changes its own connection alone, and queues nothing when the
  connection stays up and exactly that connection's removal, on the server's loop, when it does not;
  a readable event with bytes that fit the input buffer's tail, on a socket whose writes do not fail
  with \<open>EPIPE\<close>, adds what the input buffer held, then those bytes, to the connection's output
  stream, and the connection stays up.
\<close>

theorem echo_event_isolated:
  fixes x :: "'k echo_system"
  assumes "echo_main StartLoop loop loops = Inr x0" and "\<forall>l. poller_inv interest (loops l) \<and> p_chans (loops l) = Map.empty"
    and "inj (\<lambda>l. p_loop_tid (loops l))" and "(echo_step interest)\<^sup>*\<^sup>* x0 x"
    and a: "es_active x l = a # as" and c: "es_conns x c = Some (l, k)" and t: "t = poller.extend (es_loops x l) k" and "tc_chan t = a"
    and env: "op_env_ok interest (p_loop_tid (es_loops x l)) e" and size: "length (buffer_mem (tc_input t)) < 2 ^ 63"
    and ch: "p_chans (es_loops x l) a = Some ch" and once: "\<not> closes_twice e ch (tc_input t)"
  shows "\<exists>x' k' t'. es_HandleEvent e c (x\<lparr>es_active := (es_active x)(l := as)\<rparr>) = Inr x'
    \<and> others_kept l c (x\<lparr>es_active := (es_active x)(l := as)\<rparr>) x' \<and> es_conns x' c = Some (l, k') \<and> t' = poller.extend (es_loops x' l) k'
    \<and> es_queues x' = (es_queues x)(es_loop x :=
        es_queues x (es_loop x) @ (if tc_state t' = kConnected then [] else [RemoveConnectionInLoopTask c]))
    \<and> (\<forall>d. ch_revents ch = EPOLLIN \<and> (\<forall>fd d. env_write e fd d \<noteq> WriteErr EPIPE)
        \<and> (\<forall>fd. env_readv e fd [WriteableBytes (tc_input t), kExtraBuf] = ReadData d) \<and> d \<noteq> [] \<and> length d \<le> WriteableBytes (tc_input t) \<longrightarrow>
        tc_state t' = kConnected \<and> contents (tc_input t') = []
        \<and> tc_sent t' @ contents (tc_output t') = tc_sent t @ contents (tc_output t) @ contents (tc_input t) @ d)"
proof -
  have inv: "es_inv interest x" by (rule echo_system.steps_inv [OF assms(4) echo_main_inv(1) [OF assms(1-3)]])
  then have L: "loops_inv interest x" by (simp add: es_inv_def)
  define y where "y = x\<lparr>es_active := (es_active x)(l := as)\<rparr>"
  have y: "es_conns y = es_conns x" "es_loops y = es_loops x" "es_queues y = es_queues x" "es_loop y = es_loop x" by (simp_all add: y_def)
  have Ly: "loops_inv interest y" by (rule loops_inv_fields [OF L]) (simp_all add: y_def a)
  have cy: "es_conns y c = Some (l, k)" using c by (simp add: y)
  note ta = assms(8) [unfolded t]
  obtain x' where run: "es_HandleEvent e c y = Inr x'" and q: "es_queues x' = (es_queues x)(es_loop x := es_queues x (es_loop x) @
      (if tc_state (poller.extend (es_loops x' l) (snd (the (es_conns x' c)))) = kConnected then [] else [RemoveConnectionInLoopTask c]))"
    using HandleEvent_step [OF inv env a c ta size [unfolded t] ch once [unfolded t]] unfolding y_def by blast
  obtain s where s: "tc_HandleEvent e (server_call e) (\<lambda>_ _. True) (enter_conn l k y) = Inr s" "x' = leave_conn l c s y" "others_kept l c y x'"
    by (rule event_run [OF Ly run cy])
  have up: "tc_state t = kConnected" using loops_invD(6) [OF L, of a l] loops_invD(4) [OF L c] c a ta unfolding t by auto
  have view: "poller.extend (es_loops x' l) (poller.more (tcp_connection.truncate s)) = tcp_connection.truncate s"
    by (simp add: s(2) leave_conns leave_view)
  have echo: "tc_state (tcp_connection.truncate s) = kConnected \<and> contents (tc_input (tcp_connection.truncate s)) = []
      \<and> tc_sent (tcp_connection.truncate s) @ contents (tc_output (tcp_connection.truncate s)) = tc_sent t @ contents (tc_output t) @ contents (tc_input t) @ d"
    if "ch_revents ch = EPOLLIN" "\<forall>fd d. env_write e fd d \<noteq> WriteErr EPIPE"
      "\<forall>fd. env_readv e fd [WriteableBytes (tc_input t), kExtraBuf] = ReadData d" "d \<noteq> []" "length d \<le> WriteableBytes (tc_input t)" for d
    using event_echoes [OF Ly cy, of e ch d s, unfolded y, OF env, folded t, unfolded assms(8), OF ch that(1) up that(2) size that(3-5) s(1)]
    by simp
  have "es_conns x' c = Some (l, poller.more (tcp_connection.truncate s))" by (simp add: s(2) leave_conns)
  with q have "es_queues x' = (es_queues x)(es_loop x := es_queues x (es_loop x) @
      (if tc_state (tcp_connection.truncate s) = kConnected then [] else [RemoveConnectionInLoopTask c]))" by (simp add: view)
  with run s(3) echo \<open>es_conns x' c = _\<close> show ?thesis unfolding y_def [symmetric]
    by (intro exI [of _ x'] exI [of _ "poller.more (tcp_connection.truncate s)"] exI [of _ "tcp_connection.truncate s"]) (simp add: view)
qed

text \<open>At the sample, a read that is echoed and queues nothing.\<close>

theorem echo_event_isolated_witness:
  "\<exists>x' k' t'. es_HandleEvent sample_env 7 (echo_readable\<lparr>es_active := (es_active echo_readable)(2 := [])\<rparr>) = Inr x'
    \<and> es_conns x' 7 = Some (2, k') \<and> t' = poller.extend (es_loops x' 2) k' \<and> tc_state t' = kConnected
    \<and> es_queues x' = es_queues echo_readable \<and> tc_sent t' @ contents (tc_output t') = ''hi''"
proof -
  note f = echo_readable_fields and b = sample_buffer_fields
  have env: "op_env_ok (\<lambda>k. k) (p_loop_tid (es_loops echo_readable 2)) sample_env" using sample_op_env f(3) by simp
  obtain ch where ch: "p_chans (es_loops echo_readable 2) 8 = Some ch" "ch_revents ch = EPOLLIN" using f(4) by blast
  have once: "\<not> closes_twice sample_env ch v" for v using ch(2) by (simp add: closes_twice_def revents_ok_def epoll_flags)
  have size: "length (buffer_mem (tc_input (poller.extend (es_loops echo_readable 2) (sample_part kConnected)))) < 2 ^ 63" using b(1) f(6) by simp
  from echo_event_isolated [OF echo_main_start echo_loops_ok sample_run f(1,2) refl f(5) env size ch(1) once]
  obtain x' k' t' where x': "es_HandleEvent sample_env 7 (echo_readable\<lparr>es_active := (es_active echo_readable)(2 := [])\<rparr>) = Inr x'"
      "es_conns x' 7 = Some (2, k')" "t' = poller.extend (es_loops x' 2) k'"
      and q: "es_queues x' = (es_queues echo_readable)(es_loop echo_readable := es_queues echo_readable (es_loop echo_readable)
        @ (if tc_state t' = kConnected then [] else [RemoveConnectionInLoopTask 7]))"
      and s: "\<forall>d. ch_revents ch = EPOLLIN \<and> (\<forall>fd d. env_write sample_env fd d \<noteq> WriteErr EPIPE)
        \<and> (\<forall>fd. env_readv sample_env fd [WriteableBytes sample_buffer, kExtraBuf] = ReadData d) \<and> d \<noteq> [] \<and> length d \<le> WriteableBytes sample_buffer \<longrightarrow>
        tc_state t' = kConnected \<and> contents (tc_input t') = []
        \<and> tc_sent t' @ contents (tc_output t') = contents sample_buffer @ contents sample_buffer @ d"
    unfolding f(6-8) append_Nil by blast
  from spec [OF s, of "''hi''"] ch(2) b have "tc_state t' = kConnected" "tc_sent t' @ contents (tc_output t') = ''hi''"
    by (simp_all add: sample_env_def)
  with x' q show ?thesis by (intro exI [of _ x'] exI [of _ k'] exI [of _ t']) simp
qed

text \<open>
  Remark. The dispatch does not return after the close callback: a hang-up reported with urgent
  input but without \<open>EPOLLIN\<close>, and nothing left to read, closes the connection twice, and the second
  \<open>HandleClose\<close> fails its assertion.
\<close>

theorem hangup_with_urgent_fails:
  fixes s :: "'k echo_run"
  assumes "op_env_ok interest (p_loop_tid s) e" and "conn_ok interest c s" and "tc_state s = kConnected"
    and "p_chans s (tc_chan s) = Some ch" and "ch_revents ch = EPOLLHUP OR EPOLLPRI" and "\<forall>fd ls. env_readv e fd ls = ReadData []"
  shows "tc_HandleEvent e (server_call e) (\<lambda>_ _. True) s = Inl AssertFailed"
proof -
  obtain s1 where s1: "HandleClose e (server_call e) s = Inr s1" "tc_inv interest s1" "tc_state s1 = kDisconnected"
    using close_server [OF assms(1-3)] by blast
  have h: "conn_handlers ch" using conn_okD(9) [OF assms(2)] assms(4) by auto
  note r = own_revents [OF server.HandleClose_own [OF s1(1)] assms(4) h]
  have w: "HandleWrite e (server_call e) s1 = Inr s1" by (rule write_idle [OF s1(2)]) (simp add: s1(3))
  obtain ch1 where ch1: "p_chans s1 (tc_chan s1) = Some ch1" using tc_inv_chan [OF s1(2)] by blast
  have "HandleRead e (server_call e) s1 = Inl AssertFailed"
    using ch1 assms(6) s1(3) by (simp add: HandleRead_def tc_deref_def ReadFd_def HandleClose_def Let_def)
  moreover have "EPOLLHUP OR EPOLLPRI \<noteq> 0" "(EPOLLHUP OR EPOLLPRI) AND EPOLLHUP \<noteq> 0" "(EPOLLHUP OR EPOLLPRI) AND EPOLLIN = 0"
      "(EPOLLHUP OR EPOLLPRI) AND EPOLLERR = 0" "(EPOLLHUP OR EPOLLPRI) AND EPOLLOUT = 0"
      "(EPOLLHUP OR EPOLLPRI) AND (EPOLLIN OR EPOLLPRI OR EPOLLRDHUP) \<noteq> 0"
    by (simp_all add: epoll_flags)
  ultimately have "HandleEventWithGuard (tc_call e (server_call e)) (\<lambda>s. the (p_chans s (tc_chan s))) s = Inl AssertFailed"
    using s1(1) assms(4,5) h r by (simp add: HandleEventWithGuard_def call_if_def conn_handlers_def)
  then show ?thesis using assms(4) h by (auto simp: tc_HandleEvent_def tc_deref_def HandleEvent_def conn_handlers_def tie_ok_def)
qed

end
