(* ===== verification/Spec2Isabelle.thy ===== *)
theory Spec2Isabelle
  imports Timestamps LogStream Logger TimerQueue EventLoop EchoServer UdpReceiver TimingWheel Acceptor TcpServer Reactor TimeoutServer SimpleEcho EchoSystem
begin

text \<open>
  A verification development of \<open>mini_muduo\<close>, a C++ network library of the reactor kind: non-blocking
  sockets, one event loop per thread around \<open>epoll\<close>, and callbacks. All paths below are relative to
  the repository's root.

  \<^bold>\<open>The program.\<close> An \<open>EventLoop\<close> owns a \<open>Poller\<close> (\<open>EpollPoller\<close>), a wake-up descriptor, a
  \<open>TimerQueue\<close> and, on request, a \<open>TimingWheel\<close>. Every descriptor a loop watches has a \<open>Channel\<close>,
  which keeps the events it wants, mirrors them into the kernel through the loop's poller, and
  dispatches the reported events to callbacks. A \<open>TcpConnection\<close> owns one channel, an input and an
  output \<open>Buffer\<close>. A \<open>TcpServer\<close> owns an \<open>Acceptor\<close>, a map of its connections and an
  \<open>EventLoopThreadPool\<close>, whose loops it hands out in turn; work for another loop's thread goes
  through that loop's task queue. A \<open>UdpReceiver\<close> reads batches of datagrams into buffers of a
  \<open>PacketBufferPool\<close>. \<open>Logger\<close>, \<open>LogStream\<close>, \<open>Timestamp\<close>, \<open>Thread\<close>, \<open>CurrentThread\<close>,
  \<open>Exception\<close> and \<open>UniqueFd\<close> are the base layer; three example servers use it all.

  \<^bold>\<open>How it is modelled.\<close> Objects are records with the fields of their class. Operations are functions
  from state to state of type \<open>'a res\<close>, in which a failed \<open>assert\<close>, an \<open>abort()\<close>, an exception and
  a signal that kills the process and the undefined behaviours the code can run into (an index out of
  range, a division by zero, a use of a deleted object) are values (theory \<open>Prelude\<close>). Heap objects are maps from addresses. A class that
  works on another's state extends its record: a connection, an acceptor or a receiver is a poller
  with more fields, so that the channel operations act on its state as they are; what an operation
  leaves alone of the extension is part of its lemmas. Sizes are natural numbers with the places
  where the width of \<open>size_t\<close> shows written out; event masks, addresses, ports and byte values are
  words; \<open>double\<close> is an exact binary fraction rounded to 53 bits.

  Threads appear as interleavings of atomic steps in step relations (\<open>inductive\<close>): the code's mutexes
  and its one-loop-per-thread rule give the size of a step. Safety is an invariant of such a relation
  (the locale \<open>transition_system\<close> of the theory \<open>Transitions\<close>, interpreted by every state machine
  here), progress is \<open>live_system\<close>. A user callback is a value run by an argument; what the library
  expects of it is a locale (\<open>connection_user\<close>) that the example servers' callbacks meet.

  System calls are arguments, and what the code relies on of them are named definitions that state
  documented behaviour: \<open>epoll_ctl_spec\<close> and \<open>epoll_wait_spec\<close> (\<open>EpollPoller\<close>), \<open>write_spec\<close> and
  \<open>env_ok\<close> (\<open>TcpConnection\<close>), \<open>socket_spec\<close> (\<open>Acceptor\<close>), \<open>alloc_spec\<close> and \<open>recvmmsg_spec\<close>
  (\<open>UdpReceiver\<close>), \<open>loop_env_ok\<close> (\<open>Reactor\<close>), \<open>simple_env_ok\<close> (\<open>SimpleEcho\<close>), \<open>op_env_ok\<close>
  (\<open>EchoConn\<close>) and \<open>echo_wait_spec\<close> (\<open>EchoTasks\<close>). Each has an instance, which the witnesses use.
  A failing \<open>epoll_wait\<close>, an interrupted one included, is among the allowed results, and the theorems
  say that it aborts the process; so is every mask of reported events.

  \<^bold>\<open>Assumptions.\<close> Assertions are compiled in, except where a definition says otherwise
  (\<open>FormatInteger_ndebug\<close>). \<open>epoll_ctl\<close> has the resources it needs and is given open descriptors.
  \<open>TcpConnection\<close> tests for \<open>EPIPE\<close> and so presumes that \<open>SIGPIPE\<close> is ignored, and its model does too,
  although nothing in the repository ignores the signal; in \<open>SimpleEcho\<close>, which does not test, the
  signal kills the process. Microseconds are unbounded: a timestamp that overflows 64 bits is outside
  the model.

  \<^bold>\<open>The theories.\<close>
  \<^item> \<open>Prelude\<close>, \<open>Decimal\<close>, \<open>Fifo\<close>, \<open>Transitions\<close>: faults and sequencing, block writes and segments of
    arrays; decimal numerals; the queue interface as a locale with a byte list as its meaning;
    transition systems.
  \<^item> \<open>Timestamps\<close> (\<open>Timestamp.h\<close>, \<open>Timestamp.cc\<close>): time stamps, their order, \<open>AddTime\<close> with its double
    arithmetic, and that a printed time reads back.
  \<^item> \<open>LogStream\<close>, \<open>Logger\<close> (\<open>LogStream.h/.cc\<close>, \<open>Logger.h/.cc\<close>): the fixed buffer and every
    \<open>operator<<\<close>; that the table-driven conversion prints the decimal numeral; bounds of the writes;
    the text of a whole log line, and when it is printed or thrown.
  \<^item> \<open>Buffer\<close> (\<open>Buffer.h/.cc\<close>): all operations; that they keep the indices in order and implement a
    byte queue, when the \<open>size_t\<close> sum of \<open>MakeSpace\<close> wraps, and what \<open>ReadFd\<close> does with every result of \<open>readv\<close>.
  \<^item> \<open>Channel\<close>, \<open>EpollPoller\<close> (\<open>Channel.h/.cc\<close>, \<open>Poller.h/.cc\<close>, \<open>EpollPoller.h/.cc\<close>): events, dispatch
    and registration; that the kernel's interest list mirrors the channels, that a poll touches live
    channels only, and that the teardown leaves nothing registered.
  \<^item> \<open>TimerQueue\<close> (\<open>Timer.h/.cc\<close>, \<open>TimerId.h\<close>, \<open>TimerQueue.h/.cc\<close>): the two ordered sets over a heap
    of timers. An addition is a hand-over to the loop followed by a read of the timer's number, two
    steps for another thread. No operation on the loop's thread touches a freed timer, the descriptor is
    armed for the earliest one, what a run calls and reschedules, a cancelled timer never runs again,
    and the read after a hand-over can be of a deleted timer.
  \<^item> \<open>EventLoop\<close> (\<open>EventLoop.h/.cc\<close>): the loop and its task queue against other threads, step by step:
    tasks run exactly once in order, no wake-up is lost but for tasks that the owner thread queues
    outside \<open>Loop\<close>, which may wait for a poll timeout, and the timer interface on top.
  \<^item> \<open>Reactor\<close> (\<open>EventLoop.cc\<close>, \<open>TimerQueue.cc\<close>): the loop assembled from poller, wake-up channel,
    timer queue and task queue: construction, whole iterations of \<open>Loop\<close>, and destruction, member by
    member in the reverse of their declaration.
  \<^item> \<open>TcpConnection\<close> (\<open>TcpConnection.h/.cc\<close>): the connection's state machine on its loop's poller;
    that what was sent and what is buffered is what was given to \<open>send\<close>, in order, and that \<open>ShutDown\<close>
    waits for the buffered bytes when there is no write-complete callback.
  \<^item> \<open>Sockets\<close>, \<open>Acceptor\<close> (\<open>InetAddress.h/.cc\<close>, \<open>UniqueFd.h\<close>, \<open>UdpSocket.h/.cc\<close>, \<open>Socket.h/.cc\<close>,
    \<open>Acceptor.h/.cc\<close>): addresses, ownership of descriptors, and the life of a listening socket.
  \<^item> \<open>Threads\<close> (\<open>CurrentThread.h/.cc\<close>, \<open>Exception.h/.cc\<close>, \<open>Thread.h/.cc\<close>, \<open>EventLoopThread.h/.cc\<close>,
    \<open>EventLoopThreadPool.h/.cc\<close>): the hand-over of a loop between threads and the round robin.
  \<^item> \<open>TcpServer\<close> (\<open>TcpServer.h/.cc\<close>): the map of connections and the tasks that establish, remove and
    destroy them on the right loops.
  \<^item> \<open>PacketBufferPool\<close>, \<open>UdpReceiver\<close> (\<open>PacketBuffer.h\<close>, \<open>PacketBufferPool.h/.cc\<close>,
    \<open>UdpDatagram.h\<close>, \<open>UdpReceiver.h/.cc\<close>): shared ownership of the buffers, and the read loop.
  \<^item> \<open>TimingWheel\<close> (\<open>TimingWheel.h/.cc\<close>): the wheel of reference-counted entries as a countdown per
    connection.
  \<^item> \<open>EchoServer\<close>, \<open>TimeoutEcho\<close>, \<open>TimeoutServer\<close>, \<open>SimpleEcho\<close> (\<open>examples/echo_server\<close>): the three
    example programs. The echo callbacks on one connection; the same with the loop's timing wheel, and
    that every connection of that server is on a loop with a wheel; the server on a bare loop.
  \<^item> \<open>EchoConn\<close>, \<open>EchoTasks\<close>, \<open>EchoSystem\<close> (\<open>EchoServer.cpp\<close> with \<open>TcpServer.cc\<close> and
    \<open>TcpConnection.cc\<close>): the echo server as a whole, its bookkeeping composed with its loops' pollers
    and the connections that share them; that every interleaving of accepts, polls, events and tasks is
    a run of the model of \<open>TcpServer\<close>, which event fails an assertion and that nothing else faults, and
    that connections do not disturb each other.

  \<^bold>\<open>Bounds and fuel.\<close> No function runs on fuel: every loop of the sources is a recursion over the data
  it consumes (event lists, expired timers, task lists, digits), with two exceptions. The receiver's
  read loop runs over a supplied list of \<open>recvmmsg\<close> results and returns \<open>None\<close> when it asks for more
  than are supplied; \<open>udp_read_terminates\<close> shows how many are enough. \<open>EventLoop::Loop\<close>, which is
  meant to run forever, runs over a supplied list of polls. Hypotheses such as a buffer below
  \<open>2\<^sup>63\<close> bytes or fewer than \<open>2\<^sup>31 - 1\<close> accepted connections are limits of the machine that the
  code does not test.

  \<^bold>\<open>Not modelled.\<close> The deleted copy operations and type aliases (\<open>copyable.h\<close>, \<open>noncopyable.h\<close>,
  \<open>Callbacks.h\<close>) have no behaviour. The test programs under \<open>tests\<close> exercise the library. Exhausted
  memory, the memory order of the atomics, the read that clears a timer descriptor (\<open>ReadTimerFd\<close>),
  and the text of log lines that only report a failure are left out; a log line that is the only
  effect of a failed call is a value where it matters (\<open>Acceptor\<close>). \<open>EchoSystem\<close> leaves out the loops'
  own channels and the acceptor's, which \<open>Reactor\<close> and \<open>Acceptor\<close> have. \<open>inet_addr\<close>,
  \<open>backtrace_symbols\<close>, \<open>abi::__cxa_demangle\<close>, \<open>localtime_r\<close> and the like are parameters.
\<close>

end
